(* ===== verification/Prelude.thy ===== *)
theory Prelude
  imports Complex_Main "HOL-Library.Word" "HOL-Library.Multiset"
    "HOL-Library.List_Lexorder" "HOL-Library.Char_ord"
begin

text \<open>
  Shared vocabulary of the development: C++ integers, the results of operations that can
  corrupt memory or leave the process, vector indexing, byte strings, the big-endian fields
  produced by \<open>htonl\<close> and \<open>htobe64\<close>, \<open>std::to_string\<close>, the macros of the headers, loops
  that thread a result, and the interfaces that the components provide: codecs, invariants of
  step relations, and simulations.

  A \<open>char\<close> buffer and a \<open>std::string\<close> are both a HOL \<open>string\<close>: HOL characters are bytes.
\<close>

named_theorems res_intro \<open>facts that an operation returns normally\<close>

section \<open>Machine integers\<close>

type_synonym i32 = "32 word"
type_synonym u32 = "32 word"
type_synonym u64 = "64 word"

text \<open>Conversion of a C++ \<open>int\<close> to \<open>size_t\<close> on the 64-bit target: negative values wrap.\<close>

definition size_t :: "int \<Rightarrow> int" where
  "size_t i = i mod 2 ^ 64"

lemma size_t_id [simp]: "0 \<le> i \<Longrightarrow> i < 2 ^ 64 \<Longrightarrow> size_t i = i"
  by (simp add: size_t_def)

lemma size_t_nonneg [simp]: "0 \<le> size_t i"
  by (simp add: size_t_def)

section \<open>The constants of the headers\<close>

definition MAX_STREAM_SIZE :: nat where "MAX_STREAM_SIZE = 65536"
definition MAX_DELAY :: int where "MAX_DELAY = 1"
definition HEX_HASH :: nat where "HEX_HASH = 64"
definition DELIM :: char where "DELIM = CHR ''#''"
definition PREFIX :: char where "PREFIX = CHR ''?''"
definition NUL :: char where "NUL = CHR 0x00"

definition WAVE :: int where "WAVE = 4"

text \<open>
  \<open>HALF_WAVE\<close> is the unparenthesised text \<open>WAVE / 2\<close>; in each of its uses (a comparison and
  a sum) the division binds first, so the value is the half of a wave.
\<close>

definition HALF_WAVE :: int where "HALF_WAVE = WAVE div 2"

section \<open>Results\<close>

text \<open>
  \<open>Out_Of_Bounds\<close> stands for every access outside an object (a vector index, an iterator
  moved past the end, a copy beyond a buffer): undefined behaviour of C++. \<open>Exit_Failure\<close> is
  \<open>exit(EXIT_FAILURE)\<close>. \<open>Uncaught\<close> is an exception that no handler takes.
\<close>

datatype fault = Out_Of_Bounds | Exit_Failure | Uncaught

type_synonym 'a res = "fault + 'a"

definition bindR :: "'a res \<Rightarrow> ('a \<Rightarrow> 'b res) \<Rightarrow> 'b res" where
  "bindR m f = (case m of Inl e \<Rightarrow> Inl e | Inr x \<Rightarrow> f x)"

lemma bindR_simps [simp]:
  "bindR (Inl e) f = Inl e"
  "bindR (Inr x) f = f x"
  by (simp_all add: bindR_def)

lemma bindR_Inr_iff: "bindR m f = Inr y \<longleftrightarrow> (\<exists>x. m = Inr x \<and> f x = Inr y)"
  by (cases m) auto

lemma bindR_InrE:
  assumes "bindR m f = Inr y"
  obtains x where "m = Inr x" and "f x = Inr y"
  using assms by (auto simp: bindR_Inr_iff)

lemma bindR_assoc: "bindR (bindR m f) g = bindR m (\<lambda>x. bindR (f x) g)"
  by (cases m) auto

text \<open>A loop over a list whose body may fault.\<close>

fun foldR :: "('a \<Rightarrow> 's \<Rightarrow> 's res) \<Rightarrow> 'a list \<Rightarrow> 's \<Rightarrow> 's res" where
  "foldR f [] s = Inr s"
| "foldR f (x # xs) s = bindR (f x s) (foldR f xs)"

lemma foldR_append: "foldR f (xs @ ys) s = bindR (foldR f xs s) (foldR f ys)"
  by (induction xs arbitrary: s) (auto simp: bindR_def split: sum.split)

lemma foldR_inv:
  assumes "foldR f xs s = Inr t" and "I s"
    and "\<And>x s t. x \<in> set xs \<Longrightarrow> I s \<Longrightarrow> f x s = Inr t \<Longrightarrow> I t"
  shows "I t"
  using assms
  by (induction xs arbitrary: s) (auto simp: bindR_Inr_iff)

lemma foldR_total:
  assumes "I s" and "\<And>x s. x \<in> set xs \<Longrightarrow> I s \<Longrightarrow> \<exists>t. f x s = Inr t \<and> I t"
  shows "\<exists>t. foldR f xs s = Inr t \<and> I t"
  using assms
proof (induction xs arbitrary: s)
  case Nil
  then show ?case by simp
next
  case (Cons x xs)
  from Cons.prems obtain u where u: "f x s = Inr u" "I u"
    by fastforce
  with Cons.IH Cons.prems(2) obtain t where "foldR f xs u = Inr t" "I t"
    by fastforce
  with u show ?case by auto
qed

text \<open>
  A loop in which every turn adds to a set that the others only add to, and can only return if
  some condition on the element holds.
\<close>

lemma foldR_collect:
  assumes "foldR f xs s = Inr t" and "P s"
    and "\<And>x s t. x \<in> set xs \<Longrightarrow> P s \<Longrightarrow> f x s = Inr t \<Longrightarrow> P t \<and> Q x \<and> g t = g s \<union> h x"
  shows "P t \<and> (\<forall>x \<in> set xs. Q x) \<and> g t = g s \<union> (\<Union>x \<in> set xs. h x)"
  using assms
proof (induction xs arbitrary: s)
  case Nil
  then show ?case by simp
next
  case (Cons x xs)
  then obtain u where u: "f x s = Inr u" "foldR f xs u = Inr t" by (auto simp: bindR_Inr_iff)
  have "P u \<and> Q x \<and> g u = g s \<union> h x" by (rule Cons.prems(3) [OF _ Cons.prems(2) u(1)]) simp
  moreover from this have "P t \<and> (\<forall>x \<in> set xs. Q x) \<and> g t = g u \<union> (\<Union>x \<in> set xs. h x)"
    using Cons.IH [OF u(2)] Cons.prems(3) by (meson list.set_intros(2))
  ultimately show ?case by (simp add: Un_assoc)
qed

text \<open>
  A computation that may also not return: \<open>None\<close> is divergence, \<open>Some (Inl e)\<close> a fault.
\<close>

type_synonym 'a comp = "'a res option"

definition bindC :: "'a comp \<Rightarrow> ('a \<Rightarrow> 'b comp) \<Rightarrow> 'b comp" where
  "bindC m f = (case m of None \<Rightarrow> None | Some (Inl e) \<Rightarrow> Some (Inl e) | Some (Inr x) \<Rightarrow> f x)"

lemma bindC_simps [simp]:
  "bindC None f = None"
  "bindC (Some (Inl e)) f = Some (Inl e)"
  "bindC (Some (Inr x)) f = f x"
  by (simp_all add: bindC_def)

lemma bindC_Inr_iff: "bindC m f = Some (Inr y) \<longleftrightarrow> (\<exists>x. m = Some (Inr x) \<and> f x = Some (Inr y))"
  by (auto simp: bindC_def split: option.splits sum.splits)

fun foldC :: "('a \<Rightarrow> 's \<Rightarrow> 's comp) \<Rightarrow> 'a list \<Rightarrow> 's \<Rightarrow> 's comp" where
  "foldC f [] s = Some (Inr s)"
| "foldC f (x # xs) s = bindC (f x s) (foldC f xs)"

lemma foldC_inv:
  assumes "foldC f xs s = Some (Inr t)" and "I s"
    and "\<And>x s t. x \<in> set xs \<Longrightarrow> I s \<Longrightarrow> f x s = Some (Inr t) \<Longrightarrow> I t"
  shows "I t"
  using assms
  by (induction xs arbitrary: s) (auto simp: bindC_Inr_iff)

section \<open>Vector indexing\<close>

text \<open>\<open>operator[]\<close> of \<open>std::vector\<close> checks nothing: an index outside is undefined behaviour.\<close>

definition vec_at :: "'a list \<Rightarrow> int \<Rightarrow> 'a res" where
  "vec_at xs i = (if 0 \<le> i \<and> i < int (length xs) then Inr (xs ! nat i) else Inl Out_Of_Bounds)"

lemma vec_at_ok [res_intro]: "0 \<le> i \<Longrightarrow> i < int (length xs) \<Longrightarrow> vec_at xs i = Inr (xs ! nat i)"
  by (simp add: vec_at_def)

lemma vec_at_Inr_iff: "vec_at xs i = Inr x \<longleftrightarrow> 0 \<le> i \<and> i < int (length xs) \<and> xs ! nat i = x"
  by (auto simp: vec_at_def)

lemma map_int_upt: "map int [0..<k] = [0..int k - 1]"
  by (induction k) (simp_all add: upto_rec2)

lemma sum_list_update_swap:
  fixes f :: "'b \<Rightarrow> 'c :: comm_monoid_add"
  shows "i < length xs \<Longrightarrow> sum_list (map f (xs[i := x])) + f (xs ! i) = sum_list (map f xs) + f x"
  by (induction xs arbitrary: i) (auto simp: nth_Cons ac_simps split: nat.splits)

section \<open>Big-endian fields\<close>

text \<open>
  \<open>memcpy\<close> of \<open>htonl x\<close> or \<open>htobe64 x\<close> stores the value most significant byte first,
  whatever the host's byte order. \<open>be_enc k n\<close> is the last \<open>k\<close> bytes of that
  representation, so the truncation of a \<open>size_t\<close> to a 32-bit field is included.
\<close>

fun be_enc :: "nat \<Rightarrow> nat \<Rightarrow> string" where
  "be_enc 0 n = []"
| "be_enc (Suc k) n = be_enc k (n div 256) @ [char_of n]"

definition be_dec :: "string \<Rightarrow> nat" where
  "be_dec bs = foldl (\<lambda>acc c. 256 * acc + of_char c) 0 bs"

lemma be_dec_snoc [simp]: "be_dec (bs @ [c]) = 256 * be_dec bs + of_char c"
  by (simp add: be_dec_def)

lemma be_dec_Nil [simp]: "be_dec [] = 0"
  by (simp add: be_dec_def)

lemma length_be_enc [simp]: "length (be_enc k n) = k"
  by (induction k arbitrary: n) auto

lemma be_dec_enc_mod: "be_dec (be_enc k n) = n mod 256 ^ k"
proof (induction k arbitrary: n)
  case 0
  then show ?case by simp
next
  case (Suc k)
  have "n mod (256 * 256 ^ k) = 256 * (n div 256 mod 256 ^ k) + n mod 256"
    by (rule mod_mult2_eq)
  with Suc show ?case by simp
qed

lemma be_dec_enc [simp]: "n < 256 ^ k \<Longrightarrow> be_dec (be_enc k n) = n"
  by (simp add: be_dec_enc_mod)

lemma be_dec_lt: "be_dec bs < 256 ^ length bs"
proof (induction bs rule: rev_induct)
  case Nil
  then show ?case by simp
next
  case (snoc c bs)
  have "(of_char c :: nat) < 256" by (rule nat_of_char_less_256)
  moreover from snoc have "be_dec bs + 1 \<le> 256 ^ length bs" by simp
  then have "256 * (be_dec bs + 1) \<le> 256 * 256 ^ length bs" by (rule mult_le_mono2)
  ultimately show ?case by (simp del: nat_of_char_less_256)
qed

lemma be_enc_dec: "length bs = k \<Longrightarrow> be_enc k (be_dec bs) = bs"
proof (induction k arbitrary: bs)
  case 0
  then show ?case by simp
next
  case (Suc k)
  then obtain cs c where bs: "bs = cs @ [c]" "length cs = k"
    by (metis length_Suc_conv_rev)
  have "(256 * be_dec cs + of_char c) div 256 = be_dec cs"
    by (simp add: div_add1_eq)
  moreover have "char_of (256 * be_dec cs + of_char c) = c"
    by (rule of_char_eqI [where ?'a = nat]) (simp add: mod_add_eq [symmetric])
  ultimately show ?case using bs Suc.IH [of cs] by simp
qed

lemma be_enc_Suc_Cons: "be_enc (Suc k) n = char_of (n div 256 ^ k) # be_enc k n"
proof (induction k arbitrary: n)
  case 0
  then show ?case by simp
next
  case (Suc k)
  have "be_enc (Suc (Suc k)) n = be_enc (Suc k) (n div 256) @ [char_of n]"
    by (simp only: be_enc.simps)
  also have "\<dots> = char_of (n div 256 div 256 ^ k) # be_enc k (n div 256) @ [char_of n]"
    by (simp only: Suc.IH append_Cons)
  finally show ?case by (simp add: div_mult2_eq)
qed

lemma NUL_char_of [simp]: "char_of (0 :: nat) = NUL"
  by (simp add: NUL_def char_of_def)

lemma be_enc_zero [simp]: "be_enc k 0 = replicate k NUL"
  by (induction k) (auto simp: replicate_append_same)

lemma be_enc_numeral: "be_enc (numeral k) n = be_enc (pred_numeral k) (n div 256) @ [char_of n]"
  by (simp only: numeral_eq_Suc [of k] be_enc.simps)

lemma replicate_num: "replicate (numeral k) x = x # replicate (pred_numeral k) x"
  by (simp add: numeral_eq_Suc)

lemma be_dec_NULs [simp]: "be_dec (replicate k NUL) = 0"
  using be_dec_enc [of 0 k] by (simp del: be_dec_enc)

section \<open>Decimal numerals\<close>

text \<open>\<open>std::to_string\<close> of an integer.\<close>

definition digit_char :: "nat \<Rightarrow> char" where
  "digit_char d = char_of (48 + d)"

fun dec_digits :: "nat \<Rightarrow> string" where
  "dec_digits n = (if n < 10 then [digit_char n] else dec_digits (n div 10) @ [digit_char (n mod 10)])"

declare dec_digits.simps [simp del]

definition to_string :: "int \<Rightarrow> string" where
  "to_string i = (if i < 0 then CHR ''-'' # dec_digits (nat (- i)) else dec_digits (nat i))"

definition dec_value :: "string \<Rightarrow> nat" where
  "dec_value s = foldl (\<lambda>acc c. 10 * acc + (of_char c - 48)) 0 s"

lemma dec_value_digits: "dec_value (dec_digits n) = n"
proof (induction n rule: dec_digits.induct)
  case (1 n)
  show ?case
  proof (cases "n < 10")
    case True
    then show ?thesis by (simp add: dec_digits.simps [of n] dec_value_def digit_char_def)
  next
    case False
    with "1.IH" have "dec_value (dec_digits (n div 10)) = n div 10" by simp
    with False show ?thesis
      by (simp add: dec_digits.simps [of n] dec_value_def digit_char_def)
  qed
qed

lemma dec_digits_inject [simp]: "dec_digits m = dec_digits n \<longleftrightarrow> m = n"
  by (metis dec_value_digits)

lemma set_dec_digits: "c \<in> set (dec_digits n) \<Longrightarrow> \<exists>d < 10. c = digit_char d"
proof (induction n rule: dec_digits.induct)
  case (1 n)
  then show ?case
    by (cases "n < 10") (auto simp: dec_digits.simps [of n] intro: exI [of _ "n mod 10"])
qed

lemma digit_char_neq:
  assumes "d < 10" and "of_char c < (48::nat) \<or> 58 \<le> (of_char c :: nat)"
  shows "digit_char d \<noteq> c"
proof
  assume "digit_char d = c"
  then have "(of_char c :: nat) = 48 + d"
    using assms(1) by (auto simp: digit_char_def)
  with assms show False by simp
qed

lemma dec_digits_no:
  assumes "of_char c < (48::nat) \<or> 58 \<le> (of_char c :: nat)"
  shows "c \<notin> set (dec_digits n)"
  using set_dec_digits [of c n] digit_char_neq [OF _ assms] by blast

lemma dec_digits_neq_Nil [simp]: "dec_digits n \<noteq> []"
  by (subst dec_digits.simps) simp

lemma to_string_neq_Nil [simp]: "to_string i \<noteq> []"
  by (simp add: to_string_def)

lemma to_string_inject [simp]: "to_string i = to_string j \<longleftrightarrow> i = j"
proof
  have minus: "CHR ''-'' \<notin> set (dec_digits n)" for n
    by (rule dec_digits_no) simp
  have "dec_digits n \<noteq> CHR ''-'' # xs" for n xs
    using minus [of n] by (metis list.set_intros(1))
  moreover assume "to_string i = to_string j"
  ultimately show "i = j"
    by (auto simp: to_string_def split: if_splits) metis
qed simp

lemma DELIM_to_string [simp]: "DELIM \<notin> set (to_string i)"
  using dec_digits_no [of DELIM] by (simp add: to_string_def DELIM_def)

section \<open>Codecs\<close>

text \<open>
  What a sender and a receiver rely on: of a stream that begins with an encoded message, exactly
  this message is read and the rest is left. Then a stream can be parsed in one way only, and a
  sequence of messages arrives as it was sent.
\<close>

fun read_all :: "(string \<Rightarrow> ('a \<times> string) res) \<Rightarrow> nat \<Rightarrow> string \<Rightarrow> ('a list \<times> string) res" where
  "read_all dec 0 s = Inr ([], s)"
| "read_all dec (Suc n) s =
     bindR (dec s) (\<lambda>(x, s'). bindR (read_all dec n s') (\<lambda>(xs, rest). Inr (x # xs, rest)))"

locale codec =
  fixes valid :: "'a \<Rightarrow> bool"
    and enc :: "'a \<Rightarrow> string"
    and dec :: "string \<Rightarrow> ('a \<times> string) res"
  assumes dec_enc: "valid x \<Longrightarrow> dec (enc x @ rest) = Inr (x, rest)"
begin

lemma unambiguous:
  assumes "valid x" and "valid y" and "enc x @ r = enc y @ r'"
  shows "x = y \<and> r = r'"
proof -
  have "dec (enc x @ r) = Inr (x, r)" and "dec (enc x @ r) = Inr (y, r')"
    unfolding assms(3) by (subst assms(3) [symmetric], rule dec_enc [OF assms(1)]) (rule dec_enc [OF assms(2)])
  then show ?thesis by simp
qed

lemma sequence:
  assumes "\<forall>x \<in> set xs. valid x"
  shows "read_all dec (length xs) (concat (map enc xs) @ rest) = Inr (xs, rest)"
  using assms by (induction xs) (simp_all add: dec_enc)

end

section \<open>Invariants of step relations\<close>

locale step_invariant =
  fixes step :: "'s \<Rightarrow> 's \<Rightarrow> bool"
    and inv :: "'s \<Rightarrow> bool"
  assumes step_inv: "inv s \<Longrightarrow> step s t \<Longrightarrow> inv t"
begin

lemma run_inv:
  assumes "step\<^sup>*\<^sup>* s t" and "inv s"
  shows "inv t"
  using assms by (induction rule: rtranclp_induct) (auto intro: step_inv)

end

text \<open>
  Refinement: every step of the program is matched by some steps of a specification, on the part
  of the state that the specification talks about.
\<close>

locale simulation = step_invariant step inv
  for step :: "'s \<Rightarrow> 's \<Rightarrow> bool" and inv :: "'s \<Rightarrow> bool" +
  fixes spec :: "'a \<Rightarrow> 'a \<Rightarrow> bool"
    and view :: "'s \<Rightarrow> 'a"
  assumes simulates: "inv s \<Longrightarrow> step s t \<Longrightarrow> spec\<^sup>*\<^sup>* (view s) (view t)"
begin

lemma run_simulates:
  assumes "step\<^sup>*\<^sup>* s t" and "inv s"
  shows "spec\<^sup>*\<^sup>* (view s) (view t)"
  using assms
proof (induction rule: rtranclp_induct)
  case base
  then show ?case by simp
next
  case (step t u)
  then have "spec\<^sup>*\<^sup>* (view s) (view t)" and "spec\<^sup>*\<^sup>* (view t) (view u)"
    using run_inv simulates by blast+
  then show ?case by (rule rtranclp_trans)
qed

end

end
