(* ===== verification/Threadsafe.thy ===== *)
theory Threadsafe
  imports Prelude
begin

text \<open>
  \<open>DataStructs/threadsafe.h\<close>: the locked containers.

  The containers are modelled twice. Their results are functions on partial maps and sets
  (\<open>umap_insert\<close>, \<open>umap_find\<close>, \<open>uset_emplace\<close>, \<open>uset_find\<close>); their use of the mutex is the
  sequence of atomic actions of each method body, run by any number of threads
  (\<open>lock_step\<close>). The thread pool of the same file is the theory \<open>Threadpool\<close>.
\<close>

section \<open>Unordered_map and Unordered_set\<close>

type_synonym ('k, 'v) umap = "'k \<rightharpoonup> 'v"

definition umap_insert :: "'k \<Rightarrow> 'v \<Rightarrow> ('k, 'v) umap \<Rightarrow> ('k, 'v) umap" where
  "umap_insert key value m = m(key \<mapsto> value)"

text \<open>
  \<open>find\<close> takes a pointer that may be null (\<open>None\<close>); a pointee is overwritten only when the
  key is present. The second component is the pointee afterwards.
\<close>

definition umap_find :: "'k \<Rightarrow> 'v option \<Rightarrow> ('k, 'v) umap \<Rightarrow> bool \<times> 'v option" where
  "umap_find key value m =
     (case m key of
        Some x \<Rightarrow> (True, if value \<noteq> None then Some x else None)
      | None \<Rightarrow> (False, value))"

definition umap_size :: "('k, 'v) umap \<Rightarrow> nat" where
  "umap_size m = card (dom m)"

definition uset_emplace :: "'v \<Rightarrow> 'v set \<Rightarrow> 'v set" where
  "uset_emplace x s = insert x s"

definition uset_find :: "'v \<Rightarrow> 'v set \<Rightarrow> bool" where
  "uset_find x s \<longleftrightarrow> x \<in> s"

definition uset_size :: "'v set \<Rightarrow> nat" where
  "uset_size s = card s"

text \<open>What the server and the peer rely on: a store that keeps what was put in.\<close>

locale kv_store =
  fixes emp :: 'm
    and ins :: "'k \<Rightarrow> 'v \<Rightarrow> 'm \<Rightarrow> 'm"
    and look :: "'k \<Rightarrow> 'v option \<Rightarrow> 'm \<Rightarrow> bool \<times> 'v option"
  assumes look_emp: "look k p emp = (False, p)"
    and look_ins_same: "look k p (ins k v m) = (True, if p \<noteq> None then Some v else None)"
    and look_ins_other: "k \<noteq> k' \<Longrightarrow> look k' p (ins k v m) = look k' p m"
    and look_null: "look k None m = (fst (look k p m), None)"
begin

text \<open>Inserting only what is absent: the first value stored under a key stays.\<close>

lemma first_wins:
  assumes "look k p m = (True, r)"
  shows "look k p (if fst (look k' None m) then m else ins k' v m) = (True, r)"
proof (cases "fst (look k' None m)")
  case True
  with assms show ?thesis by simp
next
  case False
  with assms have "k' \<noteq> k"
    using look_null [of k m p] by auto
  with assms False show ?thesis by (simp add: look_ins_other)
qed

lemma ins_keeps_found: "fst (look k p m) \<Longrightarrow> fst (look k p (ins k' v m))"
  by (cases "k = k'") (simp_all add: look_ins_same look_ins_other)

end

interpretation vm: kv_store Map.empty umap_insert umap_find
  by unfold_locales (auto simp: umap_find_def umap_insert_def split: option.splits)

lemma umap_find_None_iff [simp]: "umap_find k None m = (k \<in> dom m, None)"
  by (auto simp: umap_find_def split: option.splits)

lemma umap_find_Some: "m k = Some x \<Longrightarrow> umap_find k (Some y) m = (True, Some x)"
  by (simp add: umap_find_def)

section \<open>Lock discipline of the container methods\<close>

text \<open>
  A method body is the list of its atomic actions on the mutex and on the container.
  \<open>std::scoped_lock lock(mtx);\<close> names a guard that lives until the end of the method.
  \<open>std::scoped_lock(mtx);\<close>, the form in \<open>Unordered_set::find\<close> and \<open>size\<close>, creates a
  temporary that is destroyed at the semicolon: the mutex is released before the access.
\<close>

datatype lock_act = Lock | Unlock | Read | Write

definition umap_insert_body :: "lock_act list" where
  "umap_insert_body = [Lock, Write, Unlock]"

definition umap_find_body :: "bool \<Rightarrow> bool \<Rightarrow> lock_act list" where
  "umap_find_body present wanted =
     (if present \<and> wanted then [Lock, Read, Read, Unlock] else [Lock, Read, Unlock])"

definition umap_size_body :: "lock_act list" where
  "umap_size_body = [Lock, Read, Unlock]"

definition umap_begin_body :: "lock_act list" where
  "umap_begin_body = [Lock, Read, Unlock]"

definition umap_end_body :: "lock_act list" where
  "umap_end_body = [Lock, Read, Unlock]"

definition uset_emplace_body :: "lock_act list" where
  "uset_emplace_body = [Lock, Write, Unlock]"

definition uset_find_body :: "lock_act list" where
  "uset_find_body = [Lock, Unlock, Read]"

definition uset_size_body :: "lock_act list" where
  "uset_size_body = [Lock, Unlock, Read]"

text \<open>Threads are numbered; \<open>code\<close> is what is left of each thread's method body.\<close>

record lock_state =
  holder :: "nat option"
  code :: "nat \<Rightarrow> lock_act list"

inductive lock_step :: "lock_state \<Rightarrow> lock_state \<Rightarrow> bool" where
  acquire: "code s i = Lock # r \<Longrightarrow> holder s = None \<Longrightarrow>
     lock_step s (s\<lparr>holder := Some i, code := (code s)(i := r)\<rparr>)"
| release: "code s i = Unlock # r \<Longrightarrow> holder s = Some i \<Longrightarrow>
     lock_step s (s\<lparr>holder := None, code := (code s)(i := r)\<rparr>)"
| access: "code s i = a # r \<Longrightarrow> a = Read \<or> a = Write \<Longrightarrow>
     lock_step s (s\<lparr>code := (code s)(i := r)\<rparr>)"

text \<open>Two threads about to touch the container, one of them to write: a data race.\<close>

definition race :: "lock_state \<Rightarrow> bool" where
  "race s \<longleftrightarrow> (\<exists>i j r q a. i \<noteq> j \<and> code s i = Write # r \<and> code s j = a # q \<and> (a = Read \<or> a = Write))"

fun guarded :: "bool \<Rightarrow> lock_act list \<Rightarrow> bool" where
  "guarded h [] = (\<not> h)"
| "guarded h (Lock # r) = (\<not> h \<and> guarded True r)"
| "guarded h (Unlock # r) = (h \<and> guarded False r)"
| "guarded h (Read # r) = (h \<and> guarded h r)"
| "guarded h (Write # r) = (h \<and> guarded h r)"

definition lock_inv :: "lock_state \<Rightarrow> bool" where
  "lock_inv s \<longleftrightarrow> (\<forall>i. guarded (holder s = Some i) (code s i))"

lemma lock_step_inv:
  assumes "lock_inv s" and "lock_step s t"
  shows "lock_inv t"
  using assms(2,1)
proof (induction rule: lock_step.induct)
  case (acquire s i r)
  then show ?case
    unfolding lock_inv_def by (auto dest: spec [of _ i])
next
  case (release s i r)
  then have "guarded True (Unlock # r)"
    unfolding lock_inv_def by metis
  with release show ?case
    unfolding lock_inv_def by auto (metis option.inject)
next
  case (access s i a r)
  then have "guarded (holder s = Some i) (a # r)"
    unfolding lock_inv_def by metis
  with access show ?case
    unfolding lock_inv_def by auto
qed

interpretation locks: step_invariant lock_step lock_inv
  by unfold_locales (rule lock_step_inv)

lemma lock_inv_no_race: "lock_inv s \<Longrightarrow> \<not> race s"
  unfolding lock_inv_def race_def
  by (metis guarded.simps(4,5) option.inject)

text \<open>
  C32. The methods of \<open>Unordered_map\<close> and \<open>Unordered_set::emplace\<close> never race: however many
  threads run their bodies in whatever interleaving, no state is reached in which one thread
  is about to write the container while another is about to read or write it.
\<close>

theorem locked_methods_race_free:
  assumes "holder s = None"
    and "\<forall>i. code s i \<in> {[], umap_insert_body, umap_find_body True True,
           umap_find_body True False, umap_find_body False True, umap_find_body False False,
           umap_size_body, umap_begin_body, umap_end_body, uset_emplace_body}"
    and "lock_step\<^sup>*\<^sup>* s t"
  shows "\<not> race t"
proof -
  have "guarded False (code s i)" for i
    using assms(2) [rule_format, of i]
    by (auto simp: umap_insert_body_def umap_find_body_def umap_size_body_def umap_begin_body_def umap_end_body_def
        uset_emplace_body_def)
  with assms(1) have "lock_inv s"
    by (simp add: lock_inv_def)
  with assms(3) have "lock_inv t"
    by (rule locks.run_inv)
  then show ?thesis
    by (rule lock_inv_no_race)
qed

definition two_calls :: "lock_act list \<Rightarrow> lock_act list \<Rightarrow> lock_state" where
  "two_calls b c = \<lparr>holder = None, code = (\<lambda>_. [])(0 := b, 1 := c)\<rparr>"

theorem locked_methods_race_free_witness:
  "\<not> race (two_calls umap_insert_body (umap_find_body True True))"
  by (rule locked_methods_race_free [of "two_calls umap_insert_body (umap_find_body True True)"])
    (simp_all add: two_calls_def)

text \<open>
  Writing to the container by one thread, reading it behind the lock by another: the states on the
  way to a race.
\<close>

lemma race_behind_lock:
  assumes "lock_step\<^sup>*\<^sup>* (two_calls [Lock, Write, Unlock] body) (two_calls [Lock, Write, Unlock] (Read # rest))"
  shows "\<exists>t. lock_step\<^sup>*\<^sup>* (two_calls [Lock, Write, Unlock] body) t \<and> race t"
proof -
  let ?t = "\<lparr>holder = Some 0, code = (\<lambda>_. [])(0 := [Write, Unlock], 1 := Read # rest)\<rparr>"
  have "(\<lambda>_. [])(0 := [Write, Unlock], 1 :: nat := Read # rest) =
      ((\<lambda>_. [])(0 := [Lock, Write, Unlock], 1 := Read # rest))(0 := [Write, Unlock] :: lock_act list)"
    by (auto simp: fun_eq_iff)
  then have "lock_step (two_calls [Lock, Write, Unlock] (Read # rest)) ?t"
    using lock_step.acquire [of "two_calls [Lock, Write, Unlock] (Read # rest)" 0 "[Write, Unlock]"]
    by (simp add: two_calls_def)
  moreover have "race ?t" unfolding race_def by (intro exI [of _ 0] exI [of _ 1]) auto
  ultimately show ?thesis using assms by (meson rtranclp.rtrancl_into_rtrancl)
qed

text \<open>A method body of the second thread that takes the lock and releases it again.\<close>

lemma locked_body:
  assumes "acts = [] \<or> acts = [Read]"
  shows "lock_step\<^sup>*\<^sup>* (two_calls body (Lock # acts @ Unlock # rest)) (two_calls body rest)"
proof -
  let ?s = "\<lambda>w c. \<lparr>holder = w, code = (\<lambda>_. [])(0 := body, 1 := c)\<rparr> :: lock_state"
  have "lock_step (?s None (Lock # acts @ Unlock # rest)) (?s (Some 1) (acts @ Unlock # rest))"
    using lock_step.acquire [of "?s None (Lock # acts @ Unlock # rest)" 1 "acts @ Unlock # rest"] by simp
  also have "lock_step\<^sup>*\<^sup>* (?s (Some 1) (acts @ Unlock # rest)) (?s (Some 1) (Unlock # rest))"
    using assms lock_step.access [of "?s (Some 1) (Read # Unlock # rest)" 1 Read "Unlock # rest"] by auto
  also have "lock_step (?s (Some 1) (Unlock # rest)) (?s None rest)"
    using lock_step.release [of "?s (Some 1) (Unlock # rest)" 1 rest] by simp
  finally show ?thesis by (simp add: two_calls_def)
qed

text \<open>
  \<open>Unordered_set::find\<close> is not protected by the mutex it names: an \<open>emplace\<close> by one thread
  and a \<open>find\<close> by another reach a state in which the write and the read are both pending.
\<close>

theorem uset_find_races:
  "\<exists>t. lock_step\<^sup>*\<^sup>* (two_calls uset_emplace_body uset_find_body) t \<and> race t"
  using race_behind_lock [OF locked_body [of "[]" _ "[Read]"]]
  by (simp add: uset_emplace_body_def uset_find_body_def)

text \<open>
  The iterators of \<open>begin\<close> and \<open>end\<close> leave the lock that was held while they were made: a walk
  over the elements reads the container behind it, and races with an \<open>insert\<close>.
\<close>

definition umap_walk_body :: "lock_act list" where
  "umap_walk_body = umap_begin_body @ umap_end_body @ [Read]"

theorem umap_walk_races:
  "\<exists>t. lock_step\<^sup>*\<^sup>* (two_calls umap_insert_body umap_walk_body) t \<and> race t"
proof -
  let ?ws = "[Lock, Write, Unlock]"
  have "lock_step\<^sup>*\<^sup>* (two_calls ?ws umap_walk_body) (two_calls ?ws (umap_end_body @ [Read]))"
    using locked_body [of "[Read]" ?ws "umap_end_body @ [Read]"] by (simp add: umap_walk_body_def umap_begin_body_def)
  also have "lock_step\<^sup>*\<^sup>* \<dots> (two_calls ?ws [Read])"
    using locked_body [of "[Read]" ?ws "[Read]"] by (simp add: umap_end_body_def)
  finally show ?thesis using race_behind_lock by (simp add: umap_insert_body_def)
qed

end
