(* ===== verification/Threadpool.thy ===== *)
theory Threadpool
  imports Threadsafe
begin

text \<open>
  \<open>Task\<close> and \<open>Threadpool\<close> of \<open>DataStructs/threadsafe.h\<close>. A task is the closure handed to
  \<open>enqueue\<close>, of any type \<open>'a\<close>. A worker is blocked in \<open>qcv.wait\<close> (or about to be), runs a task,
  or has returned. Each method is a definition on the pool; \<open>pool_step\<close> interleaves them, and
  carries beside the pool the lists of the tasks submitted, started and finished so far, in
  the order of these events. Every critical section of the class runs under \<open>qmtx\<close>, so it is
  one step. Here a worker that waits may go on whenever the predicate of \<open>qcv.wait\<close> holds; the
  notifications that the code sends to make it so are the subject of the theory \<open>Pool_Wakeups\<close>,
  whose finer steps are a refinement of these.
\<close>

datatype 'a worker = Waiting | Running 'a | Returned

record 'a pool =
  task_queue :: "'a list"
  stop :: bool
  workers :: "'a worker list"

definition Threadpool :: "nat \<Rightarrow> 'a pool" where
  "Threadpool num_threads = \<lparr>task_queue = [], stop = False, workers = replicate num_threads Waiting\<rparr>"

text \<open>The critical section of \<open>enqueue\<close>.\<close>

definition enqueue :: "'a \<Rightarrow> 'a pool \<Rightarrow> 'a pool" where
  "enqueue task p = p\<lparr>task_queue := task_queue p @ [task]\<rparr>"

text \<open>
  One pass of the loop of \<open>worker_thread\<close> up to the execution of the task: \<open>None\<close> while the
  predicate of \<open>qcv.wait\<close> is false.
\<close>

definition worker_wake :: "'a pool \<Rightarrow> ('a worker \<times> 'a pool) option" where
  "worker_wake p =
     (if task_queue p \<noteq> [] \<or> stop p then
        (if stop p \<and> task_queue p = [] then Some (Returned, p)
         else Some (Running (hd (task_queue p)), p\<lparr>task_queue := tl (task_queue p)\<rparr>))
      else None)"

text \<open>The critical section of the destructor, and what it waits for at its end.\<close>

definition request_stop :: "'a pool \<Rightarrow> 'a pool" where
  "request_stop p = p\<lparr>stop := True\<rparr>"

definition joined :: "'a pool \<Rightarrow> bool" where
  "joined p \<longleftrightarrow> (\<forall>w \<in> set (workers p). w = Returned)"

record 'a pool_run =
  the_pool :: "'a pool"
  submitted :: "'a list"
  started :: "'a list"
  finished :: "'a list"

definition run_init :: "nat \<Rightarrow> 'a pool_run" where
  "run_init n = \<lparr>the_pool = Threadpool n, submitted = [], started = [], finished = []\<rparr>"

text \<open>
  A submission after the destructor has begun would use a dying object, so \<open>submit\<close> asks that
  the pool is not stopping. The steps of the workers are kept apart from those of the owner:
  they are the ones that must come to an end once the pool is stopping.
\<close>

inductive worker_step :: "'a pool_run \<Rightarrow> 'a pool_run \<Rightarrow> bool" where
  take: "i < length (workers (the_pool s)) \<Longrightarrow> workers (the_pool s) ! i = Waiting \<Longrightarrow>
     worker_wake (the_pool s) = Some (Running t, p) \<Longrightarrow>
     worker_step s (s\<lparr>the_pool := p\<lparr>workers := (workers p)[i := Running t]\<rparr>, started := started s @ [t]\<rparr>)"
| return: "i < length (workers (the_pool s)) \<Longrightarrow> workers (the_pool s) ! i = Waiting \<Longrightarrow>
     worker_wake (the_pool s) = Some (Returned, p) \<Longrightarrow>
     worker_step s (s\<lparr>the_pool := p\<lparr>workers := (workers p)[i := Returned]\<rparr>\<rparr>)"
| execute: "i < length (workers (the_pool s)) \<Longrightarrow> workers (the_pool s) ! i = Running t \<Longrightarrow>
     worker_step s (s\<lparr>the_pool := (the_pool s)\<lparr>workers := (workers (the_pool s))[i := Waiting]\<rparr>,
                      finished := finished s @ [t]\<rparr>)"

inductive pool_step :: "'a pool_run \<Rightarrow> 'a pool_run \<Rightarrow> bool" where
  submit: "\<not> stop (the_pool s) \<Longrightarrow>
     pool_step s (s\<lparr>the_pool := enqueue t (the_pool s), submitted := submitted s @ [t]\<rparr>)"
| stop: "pool_step s (s\<lparr>the_pool := request_stop (the_pool s)\<rparr>)"
| worker: "worker_step s t \<Longrightarrow> pool_step s t"

section \<open>Every task runs once, in the order of submission\<close>

fun running :: "'a worker \<Rightarrow> 'a multiset" where
  "running (Running t) = {#t#}"
| "running _ = {#}"

definition in_flight :: "'a worker list \<Rightarrow> 'a multiset" where
  "in_flight ws = sum_list (map running ws)"

lemma in_flight_update:
  "i < length ws \<Longrightarrow> in_flight (ws[i := w]) + running (ws ! i) = in_flight ws + running w"
  unfolding in_flight_def by (rule sum_list_update_swap)

definition pool_inv :: "nat \<Rightarrow> 'a pool_run \<Rightarrow> bool" where
  "pool_inv n s \<longleftrightarrow>
     submitted s = started s @ task_queue (the_pool s) \<and>
     mset (started s) = mset (finished s) + in_flight (workers (the_pool s)) \<and>
     length (workers (the_pool s)) = n \<and>
     (Returned \<in> set (workers (the_pool s)) \<longrightarrow> stop (the_pool s) \<and> task_queue (the_pool s) = [])"

lemma worker_wake_simps:
  "worker_wake p = Some (Running t, q) \<longleftrightarrow>
     task_queue p \<noteq> [] \<and> t = hd (task_queue p) \<and> q = p\<lparr>task_queue := tl (task_queue p)\<rparr>"
  "worker_wake p = Some (Returned, q) \<longleftrightarrow> stop p \<and> task_queue p = [] \<and> q = p"
  by (auto simp: worker_wake_def)

lemma worker_step_inv:
  assumes "worker_step s t" and "pool_inv n s"
  shows "pool_inv n t"
  using assms
proof (induction rule: worker_step.induct)
  case (take i s t p)
  let ?ws = "workers (the_pool s)"
  have "in_flight (?ws[i := Running t]) = in_flight ?ws + {#t#}"
    using in_flight_update [of i ?ws "Running t"] take by simp
  moreover have "Returned \<notin> set (?ws[i := Running t])"
    using take set_update_subset_insert [of ?ws i "Running t"]
    by (auto simp: pool_inv_def worker_wake_simps)
  ultimately show ?case
    using take by (auto simp: pool_inv_def worker_wake_simps)
next
  case (return i s p)
  let ?ws = "workers (the_pool s)"
  have "in_flight (?ws[i := Returned]) = in_flight ?ws"
    using in_flight_update [of i ?ws Returned] return by simp
  with return show ?case
    by (auto simp: pool_inv_def worker_wake_simps)
next
  case (execute i s t)
  let ?ws = "workers (the_pool s)"
  have "in_flight (?ws[i := Waiting]) + {#t#} = in_flight ?ws"
    using in_flight_update [of i ?ws Waiting] execute by simp
  moreover have "Returned \<in> set (?ws[i := Waiting]) \<Longrightarrow> Returned \<in> set ?ws"
    using set_update_subset_insert [of ?ws i Waiting] by auto
  ultimately show ?case
    using execute by (auto simp: pool_inv_def ac_simps)
qed

lemma pool_step_inv:
  assumes "pool_inv n s" and "pool_step s t"
  shows "pool_inv n t"
  using assms(2,1)
proof (induction rule: pool_step.induct)
  case (submit s u)
  then show ?case by (auto simp: pool_inv_def enqueue_def)
next
  case (stop s)
  then show ?case by (auto simp: pool_inv_def request_stop_def)
next
  case (worker s t)
  then show ?case by (auto intro: worker_step_inv)
qed

lemma pool_inv_init: "pool_inv n (run_init n)"
  by (induction n) (auto simp: pool_inv_def run_init_def Threadpool_def in_flight_def)

interpretation pools: step_invariant pool_step "pool_inv n"
  for n
  by unfold_locales (rule pool_step_inv)

lemma pool_reachable: "pool_step\<^sup>*\<^sup>* (run_init n) s \<Longrightarrow> pool_inv n s"
  by (erule pools.run_inv) (rule pool_inv_init)

text \<open>
  C30. In every run of the pool the tasks are started in the order of their submission, a task
  is never started twice or dropped (the submitted tasks are the started ones followed by the
  queue), and a task that was started is finished or being executed by exactly one worker.
\<close>

theorem pool_fifo_exactly_once:
  assumes "pool_step\<^sup>*\<^sup>* (run_init n) s"
  shows "submitted s = started s @ task_queue (the_pool s) \<and>
     mset (started s) = mset (finished s) + in_flight (workers (the_pool s))"
  using pool_reachable [OF assms] by (simp add: pool_inv_def)

text \<open>A run used by the witnesses: one task submitted, taken, executed; then the pool stops.\<close>

definition demo_run :: "nat pool_run" where
  "demo_run = \<lparr>the_pool = \<lparr>task_queue = [], stop = True, workers = [Returned]\<rparr>,
     submitted = [7], started = [7], finished = [7]\<rparr>"

lemma demo_reachable: "pool_step\<^sup>*\<^sup>* (run_init 1) demo_run"
proof -
  let ?s = "\<lambda>q b w st f. \<lparr>the_pool = \<lparr>task_queue = q, stop = b, workers = [w]\<rparr>,
     submitted = [7], started = st, finished = f\<rparr> :: nat pool_run"
  have 0: "pool_step (run_init 1) (?s [7] False Waiting [] [])"
    using pool_step.submit [of "run_init 1" "7::nat"]
    by (simp add: run_init_def Threadpool_def enqueue_def)
  have 1: "pool_step (?s [7] False Waiting [] []) (?s [] False (Running 7) [7] [])"
    using worker_step.take [of 0 "?s [7] False Waiting [] []" 7, THEN pool_step.worker]
    by (simp add: worker_wake_def)
  have 2: "pool_step (?s [] False (Running 7) [7] []) (?s [] False Waiting [7] [7])"
    using worker_step.execute [of 0 "?s [] False (Running 7) [7] []" 7, THEN pool_step.worker]
    by simp
  have 3: "pool_step (?s [] False Waiting [7] [7]) (?s [] True Waiting [7] [7])"
    using pool_step.stop [of "?s [] False Waiting [7] [7]"] by (simp add: request_stop_def)
  have 4: "pool_step (?s [] True Waiting [7] [7]) demo_run"
    using worker_step.return [of 0 "?s [] True Waiting [7] [7]", THEN pool_step.worker]
    by (simp add: worker_wake_def demo_run_def)
  show ?thesis
    using 0 1 2 3 4 by (meson converse_rtranclp_into_rtranclp rtranclp.rtrancl_refl)
qed

theorem pool_fifo_exactly_once_witness:
  "submitted demo_run = started demo_run @ task_queue (the_pool demo_run)"
  using pool_fifo_exactly_once [OF demo_reachable] by blast

end
