(* ===== verification/Vertex.thy ===== *)
theory Vertex
  imports Prelude
begin

text \<open>
  \<open>vertex.h\<close> and \<open>vertex.cpp\<close>: the unit that a validator proposes in a round, its hash, and
  its representation on the wire. Buffers are explicit: every copy into or out of a buffer of
  a given size is checked against the size, and a copy that would leave it is the fault
  \<open>Out_Of_Bounds\<close> instead of the silent corruption of the C++ code.
\<close>

section \<open>The class\<close>

record vertex =
  vround :: i32
  peer_id :: u64
  payload :: string
  references :: "string list"

definition Vertex :: "i32 \<Rightarrow> u64 \<Rightarrow> string \<Rightarrow> vertex" where
  "Vertex r pid pl = \<lparr>vround = r, peer_id = pid, payload = pl, references = []\<rparr>"

definition get_payload :: "vertex \<Rightarrow> string" where
  [simp]: "get_payload v = payload v"

definition get_refs :: "vertex \<Rightarrow> string list" where
  [simp]: "get_refs v = references v"

definition get_round :: "vertex \<Rightarrow> i32" where
  [simp]: "get_round v = vround v"

definition get_pid :: "vertex \<Rightarrow> u64" where
  [simp]: "get_pid v = peer_id v"

text \<open>The state that the move operations leave behind in their source.\<close>

definition moved_from :: vertex where
  "moved_from = \<lparr>vround = 0, peer_id = 0, payload = [], references = []\<rparr>"

definition vertex_move :: "vertex \<Rightarrow> vertex \<times> vertex" where
  "vertex_move source = (source, moved_from)"

text \<open>Move assignment, on two distinct objects or on one (\<open>this == &source\<close>).\<close>

definition vertex_move_assign :: "bool \<Rightarrow> vertex \<Rightarrow> vertex \<Rightarrow> vertex \<times> vertex" where
  "vertex_move_assign same this source = (if same then (this, this) else (source, moved_from))"

text \<open>
  \<open>add_ref\<close> appends the elements of a set in its iteration order. That order is unspecified
  for \<open>std::unordered_set\<close>; it is the parameter \<open>iter\<close>, of which \<open>iter_ok\<close> says what the
  standard promises: an iteration visits each element once.
\<close>

definition iter_ok :: "(string set \<Rightarrow> string list) \<Rightarrow> bool" where
  "iter_ok iter \<longleftrightarrow> (\<forall>S. finite S \<longrightarrow> distinct (iter S) \<and> set (iter S) = S)"

definition add_ref :: "(string set \<Rightarrow> string list) \<Rightarrow> string set \<Rightarrow> u64 \<Rightarrow> vertex \<Rightarrow> bool \<times> vertex" where
  "add_ref iter S pid v =
     (if pid = peer_id v then (True, v\<lparr>references := references v @ iter S\<rparr>) else (False, v))"

lemma iter_ok_sorted: "iter_ok sorted_list_of_set"
  by (simp add: iter_ok_def)

lemma iter_okD:
  assumes "iter_ok iter" and "finite S"
  shows "distinct (iter S)" and "set (iter S) = S" and "length (iter S) = card S"
  using assms distinct_card [of "iter S"] by (auto simp: iter_ok_def)

section \<open>Hashing\<close>

text \<open>
  CryptoPP is not part of the repository: its SHA-256 and its hexadecimal encoder are the two
  fields of \<open>crypto\<close>. \<open>crypto_ok\<close> is their documented behaviour: a digest has 32 bytes and the
  encoder writes two upper-case hexadecimal digits for each byte.
\<close>

record crypto =
  sha256 :: "string \<Rightarrow> string"
  hex_encode :: "string \<Rightarrow> string"

definition hex_digits :: string where
  "hex_digits = ''0123456789ABCDEF''"

definition crypto_ok :: "crypto \<Rightarrow> bool" where
  "crypto_ok C \<longleftrightarrow> (\<forall>x. length (sha256 C x) = 32) \<and>
     (\<forall>d. length (hex_encode C d) = 2 * length d \<and> set (hex_encode C d) \<subseteq> set hex_digits)"

definition hash_256 :: "crypto \<Rightarrow> string \<Rightarrow> string" where
  "hash_256 C input = (let digest = sha256 C input in hex_encode C digest)"

lemma length_hash_256: "crypto_ok C \<Longrightarrow> length (hash_256 C x) = HEX_HASH"
  by (simp add: crypto_ok_def hash_256_def HEX_HASH_def)

lemma set_hash_256: "crypto_ok C \<Longrightarrow> set (hash_256 C x) \<subseteq> set hex_digits"
  by (simp add: crypto_ok_def hash_256_def)

lemma DELIM_hash_256: "crypto_ok C \<Longrightarrow> DELIM \<notin> set (hash_256 C x)"
  using set_hash_256 [of C x] by (auto simp: hex_digits_def DELIM_def)

text \<open>Functions for the witnesses, with a short cut in the place of SHA-256.\<close>

definition hex_byte :: "char \<Rightarrow> string" where
  "hex_byte c = [hex_digits ! (of_char c div 16), hex_digits ! (of_char c mod 16)]"

definition demo_crypto :: crypto where
  "demo_crypto = \<lparr>sha256 = (\<lambda>x. take 32 (x @ replicate 32 NUL)), hex_encode = (\<lambda>d. concat (map hex_byte d))\<rparr>"

lemma crypto_ok_demo: "crypto_ok demo_crypto"
proof -
  have "length (concat (map hex_byte d)) = 2 * length d" for d
    by (induction d) (auto simp: hex_byte_def)
  moreover have "set (hex_byte c) \<subseteq> set hex_digits" for c
  proof -
    have len: "length hex_digits = 16" by (simp add: hex_digits_def)
    have "of_char c < (256 :: nat)" by (rule nat_of_char_less_256)
    then have "of_char c div 16 < (16 :: nat)" by (simp add: div_less_iff_less_mult)
    then show ?thesis by (simp add: hex_byte_def len nth_mem)
  qed
  ultimately show ?thesis by (auto simp: crypto_ok_def demo_crypto_def)
qed

text \<open>What identifies a vertex: the text that is hashed is the round followed by the peer id.\<close>

definition vertex_key :: "int \<Rightarrow> u64 \<Rightarrow> string" where
  "vertex_key r pid = to_string r @ to_string (uint pid)"

definition vertex_hash :: "crypto \<Rightarrow> vertex \<Rightarrow> string" where
  "vertex_hash C v = hash_256 C (to_string (sint (vround v)) @ to_string (uint (peer_id v)))"

definition print :: "vertex \<Rightarrow> string" where
  "print v = to_string (sint (vround v)) @ '' - '' @ to_string (uint (peer_id v))"

lemma vertex_hash_key: "vertex_hash C v = hash_256 C (vertex_key (sint (vround v)) (peer_id v))"
  by (simp add: vertex_hash_def vertex_key_def)

text \<open>
  The text that is hashed tells two vertices apart, round and creator, as long as the ids
  of the two creators have the same number of decimal digits (ids are clock readings in
  nanoseconds, all of 19 digits today).
\<close>

theorem vertex_key_injective:
  assumes "length (to_string (uint p)) = length (to_string (uint q))"
    and "vertex_key r p = vertex_key r' q"
  shows "r = r' \<and> p = q"
proof -
  from assms have "to_string r = to_string r'" and "to_string (uint p) = to_string (uint q)"
    by (auto simp: vertex_key_def)
  then show ?thesis by (simp add: word_uint_eq_iff)
qed

theorem vertex_key_injective_witness:
  "vertex_key 12 1700 = vertex_key 12 1700 \<and> (12 :: int) = 12 \<and> (1700 :: u64) = 1700"
  using vertex_key_injective [of 1700 1700 12 12] by simp

text \<open>
  Without that, it does not: the round and the id are concatenated with no separator, so
  round 1 of peer 11 and round 11 of peer 1 have the same hash, whatever the hash function.
\<close>

theorem vertex_hash_ambiguous:
  "\<exists>v w. vround v \<noteq> vround w \<and> peer_id v \<noteq> peer_id w \<and> vertex_hash C v = vertex_hash C w"
proof (intro exI conjI)
  show "vround (Vertex 1 11 pl) \<noteq> vround (Vertex 11 1 pl)" for pl
    by (simp add: Vertex_def)
  show "peer_id (Vertex 1 11 pl) \<noteq> peer_id (Vertex 11 1 pl)" for pl
    by (simp add: Vertex_def)
  show "vertex_hash C (Vertex 1 11 pl) = vertex_hash C (Vertex 11 1 pl)" for pl
    by (simp add: vertex_hash_def Vertex_def to_string_def dec_digits.simps)
qed

section \<open>Serialisation\<close>

text \<open>
  The buffer is filled from the front, so its state is what has been written so far (the rest
  is zero, by the \<open>memset\<close>); \<open>put\<close> is a \<open>memcpy\<close> at \<open>buffer + data_size\<close>.
\<close>

definition put :: "nat \<Rightarrow> string \<Rightarrow> string \<Rightarrow> string res" where
  "put cap bs buf = (if length buf + length bs \<le> cap then Inr (buf @ bs) else Inl Out_Of_Bounds)"

text \<open>
  The loop over the references. After each copy the code reads the byte 50 places after the
  start of the copy (to report a failed copy); that read must be inside the buffer as well.
\<close>

fun put_refs :: "nat \<Rightarrow> string list \<Rightarrow> string \<Rightarrow> string res" where
  "put_refs cap [] buf = Inr buf"
| "put_refs cap (ref # rs) buf =
     bindR (put cap ref buf) (\<lambda>buf'.
     if length buf + 50 < cap then put_refs cap rs buf' else Inl Out_Of_Bounds)"

fun put_delims :: "nat \<Rightarrow> nat \<Rightarrow> string \<Rightarrow> string res" where
  "put_delims cap 0 buf = Inr buf"
| "put_delims cap (Suc i) buf = bindR (put cap [DELIM] buf) (put_delims cap i)"

definition serialize_data :: "nat \<Rightarrow> vertex \<Rightarrow> string res" where
  "serialize_data cap v =
     (let buf = replicate 4 NUL in
      bindR (put cap (be_enc 4 (unat (vround v))) buf) (\<lambda>buf.
      bindR (put cap (be_enc 8 (unat (peer_id v))) buf) (\<lambda>buf.
      bindR (put cap (be_enc 4 (length (payload v))) buf) (\<lambda>buf.
      bindR (put cap (payload v) buf) (\<lambda>buf.
      bindR (put cap (be_enc 4 (length (references v))) buf) (\<lambda>buf.
      bindR (if 0 < length (references v)
             then bindR (put cap (be_enc 4 (length (references v ! 0))) buf) (put_refs cap (references v))
             else Inr buf)
        (put_delims cap 4)))))))"

text \<open>
  Reading from a buffer of \<open>cap\<close> bytes of which the first are \<open>buf\<close> and the others zero, as
  \<open>chunk_buffer\<close> in \<open>c_recvn\<close>: \<open>get cap buf off n\<close> copies \<open>n\<close> bytes from \<open>buffer + off\<close>.
\<close>

definition get :: "nat \<Rightarrow> string \<Rightarrow> nat \<Rightarrow> nat \<Rightarrow> string res" where
  "get cap buf off n =
     (if off + n \<le> cap then Inr (take n (drop off buf @ replicate n NUL)) else Inl Out_Of_Bounds)"

fun read_refs :: "nat \<Rightarrow> string \<Rightarrow> nat \<Rightarrow> nat \<Rightarrow> nat \<Rightarrow> string list res" where
  "read_refs cap buf off ref_length 0 = Inr []"
| "read_refs cap buf off ref_length (Suc n) =
     bindR (get cap buf off ref_length) (\<lambda>ref.
     bindR (read_refs cap buf (off + length ref) ref_length n) (\<lambda>rs. Inr (ref # rs)))"

definition deserialize_data :: "nat \<Rightarrow> string \<Rightarrow> vertex res" where
  "deserialize_data cap buf =
     bindR (get cap buf 4 4) (\<lambda>r.
     bindR (get cap buf 8 8) (\<lambda>p_id.
     bindR (get cap buf 16 4) (\<lambda>payload_length.
     bindR (get cap buf 20 (be_dec payload_length)) (\<lambda>pl.
     let data = 20 + length pl in
     bindR (get cap buf data 4) (\<lambda>vector_size.
     bindR (if 0 < be_dec vector_size
            then bindR (get cap buf (data + 4) 4) (\<lambda>ref_length.
                 read_refs cap buf (data + 8) (be_dec ref_length) (be_dec vector_size))
            else Inr [])
       (\<lambda>rs. Inr \<lparr>vround = word_of_nat (be_dec r), peer_id = word_of_nat (be_dec p_id),
                 payload = pl, references = rs\<rparr>))))))"


subsection \<open>The format, and that the code writes it\<close>

definition wire_body :: "vertex \<Rightarrow> string" where
  "wire_body v =
     be_enc 4 (unat (vround v)) @ be_enc 8 (unat (peer_id v)) @ be_enc 4 (length (payload v)) @
     payload v @ be_enc 4 (length (references v)) @
     (if references v = [] then [] else be_enc 4 (length (hd (references v))) @ concat (references v))"

definition wire :: "vertex \<Rightarrow> string" where
  "wire v = replicate 4 NUL @ wire_body v @ replicate 4 DELIM"

text \<open>References that are hashes, and the weaker demand that they have one length.\<close>

definition hash_refs :: "vertex \<Rightarrow> bool" where
  "hash_refs v \<longleftrightarrow> (\<forall>r \<in> set (references v). length r = HEX_HASH)"

definition uniform_refs :: "vertex \<Rightarrow> bool" where
  "uniform_refs v \<longleftrightarrow> (\<forall>r \<in> set (references v). length r = length (hd (references v)))"

lemma hash_refs_uniform: "hash_refs v \<Longrightarrow> uniform_refs v"
  by (cases "references v") (auto simp: hash_refs_def uniform_refs_def)

lemma length_concat_uniform: "\<forall>r \<in> set rs. length r = n \<Longrightarrow> length (concat rs) = n * length rs"
  by (induction rs) auto

lemma length_wire:
  "hash_refs v \<Longrightarrow> length (wire v) =
     28 + length (payload v) + (if references v = [] then 0 else 4 + HEX_HASH * length (references v))"
  by (auto simp: wire_def wire_body_def hash_refs_def length_concat_uniform)

lemma put_Inr_iff: "put cap bs buf = Inr out \<longleftrightarrow> length buf + length bs \<le> cap \<and> out = buf @ bs"
  by (auto simp: put_def)

lemma put_refs_Inr: "put_refs cap rs buf = Inr out \<Longrightarrow> out = buf @ concat rs"
  by (induction rs arbitrary: buf) (fastforce simp: bindR_Inr_iff put_Inr_iff split: if_splits)+

lemma put_refs_eq:
  assumes "\<forall>r \<in> set rs. 50 < length r"
  shows "put_refs cap rs buf =
    (if rs = [] \<or> length buf + length (concat rs) \<le> cap then Inr (buf @ concat rs) else Inl Out_Of_Bounds)"
  using assms by (induction rs arbitrary: buf) (auto simp: put_def)

lemma put_delims_eq:
  "put_delims cap n buf =
     (if n = 0 \<or> length buf + n \<le> cap then Inr (buf @ replicate n DELIM) else Inl Out_Of_Bounds)"
  by (induction n arbitrary: buf) (auto simp: put_def replicate_append_same [symmetric])

lemma serialize_data_wire:
  assumes "serialize_data cap v = Inr bs"
  shows "bs = wire v" and "length bs \<le> cap"
  using assms
  by (auto simp: serialize_data_def Let_def bindR_Inr_iff put_Inr_iff put_delims_eq wire_def
      wire_body_def hd_conv_nth dest!: put_refs_Inr split: if_splits)

lemma serialize_wire:
  assumes "hash_refs v"
  shows "serialize_data cap v = (if length (wire v) \<le> cap then Inr (wire v) else Inl Out_Of_Bounds)"
proof (cases "references v")
  case Nil
  then show ?thesis
    by (simp add: serialize_data_def Let_def put_def put_delims_eq wire_def wire_body_def)
next
  case (Cons r rs)
  with assms have "\<forall>r \<in> set (references v). 50 < length r"
    by (simp add: hash_refs_def HEX_HASH_def)
  with Cons show ?thesis
    by (simp add: serialize_data_def Let_def put_def put_delims_eq put_refs_eq wire_def wire_body_def)
qed

text \<open>
  Serialising a vertex whose references are hashes writes exactly the documented layout
  (length field left zero, round, creator, payload with its length, references with their
  number and common length, four delimiters) when that fits the buffer, and writes outside the
  buffer otherwise: no check of the code stops it.
\<close>

theorem serialize_data_layout:
  assumes "hash_refs v"
  shows "serialize_data cap v = (if length (wire v) \<le> cap then Inr (wire v) else Inl Out_Of_Bounds)"
  using assms by (rule serialize_wire)

text \<open>
  C38. Capacity of the 64 KiB stream buffers: with a payload of at most 32 bytes (all that an
  honest peer writes) a vertex fits with up to 1023 references, and with one more the
  serialiser runs past the end of the caller's array.
\<close>

theorem serialize_data_capacity:
  assumes "hash_refs v" and "length (payload v) \<le> 32"
  shows "serialize_data MAX_STREAM_SIZE v =
    (if length (references v) \<le> 1023 then Inr (wire v) else Inl Out_Of_Bounds)"
  using serialize_wire [OF assms(1)] length_wire [OF assms(1)] assms(2)
  by (auto simp: MAX_STREAM_SIZE_def HEX_HASH_def)

definition demo_vertex :: vertex where
  "demo_vertex = Vertex 2 17 ''2-17''\<lparr>references := [replicate 64 CHR ''A'', replicate 64 CHR ''B'']\<rparr>"

lemma hash_refs_demo: "hash_refs demo_vertex"
  by (simp add: hash_refs_def demo_vertex_def Vertex_def HEX_HASH_def)

theorem serialize_data_layout_witness:
  "serialize_data 164 demo_vertex = Inr (wire demo_vertex) \<and> serialize_data 163 demo_vertex = Inl Out_Of_Bounds"
  using serialize_data_layout [OF hash_refs_demo] length_wire [OF hash_refs_demo]
  by (simp add: demo_vertex_def Vertex_def HEX_HASH_def)

theorem serialize_data_capacity_witness:
  "serialize_data MAX_STREAM_SIZE (demo_vertex\<lparr>references := replicate 1024 (replicate 64 CHR ''A'')\<rparr>)
     = Inl Out_Of_Bounds"
proof -
  have "hash_refs (demo_vertex\<lparr>references := replicate 1024 (replicate 64 CHR ''A'')\<rparr>)"
    by (simp add: hash_refs_def HEX_HASH_def)
  from serialize_data_capacity [OF this] show ?thesis
    by (simp add: demo_vertex_def Vertex_def)
qed

subsection \<open>Reading back\<close>

lemma get_at:
  "length pre = off \<Longrightarrow> length bs = n \<Longrightarrow> off + n \<le> cap \<Longrightarrow> get cap (pre @ bs @ post) off n = Inr bs"
  by (auto simp: get_def)

lemma read_refs_at:
  assumes "\<forall>r \<in> set rs. length r = n" and "length pre = off" and "off + length (concat rs) \<le> cap"
  shows "read_refs cap (pre @ concat rs @ post) off n (length rs) = Inr rs"
  using assms
proof (induction rs arbitrary: pre off)
  case Nil
  then show ?case by simp
next
  case (Cons r rs)
  then have "get cap (pre @ r @ concat rs @ post) off n = Inr r"
    by (intro get_at) auto
  moreover from Cons have "read_refs cap ((pre @ r) @ concat rs @ post) (off + n) n (length rs) = Inr rs"
    by (intro Cons.IH) auto
  ultimately show ?case using Cons.prems by simp
qed

lemma deserialize_wire_body:
  assumes "uniform_refs v" and h: "length h = 4" and fits: "4 + length (wire_body v) \<le> cap"
    and cap: "cap < 2 ^ 32" and few: "length (references v) < 2 ^ 32"
  shows "deserialize_data cap (h @ wire_body v @ post) = Inr v"
proof -
  let ?r = "be_enc 4 (unat (vround v))" and ?p = "be_enc 8 (unat (peer_id v))"
  let ?q = "be_enc 4 (length (payload v))" and ?n = "be_enc 4 (length (references v))"
  define rest where "rest = (if references v = [] then [] else be_enc 4 (length (hd (references v))) @ concat (references v))"
  let ?buf = "h @ ?r @ ?p @ ?q @ payload v @ ?n @ rest @ post"
  have buf: "h @ wire_body v @ post = ?buf"
    by (simp add: wire_body_def rest_def)
  have len: "24 + length (payload v) + length rest \<le> cap"
    using fits by (simp add: wire_body_def rest_def)
  have 1: "get cap ?buf 4 4 = Inr ?r"
    using h len by (intro get_at) auto
  have 2: "get cap ?buf 8 8 = Inr ?p"
    using h len get_at [of "h @ ?r" 8 ?p 8 cap] by simp
  have 3: "get cap ?buf 16 4 = Inr ?q"
    using h len get_at [of "h @ ?r @ ?p" 16 ?q 4 cap] by simp
  have 4: "get cap ?buf 20 (length (payload v)) = Inr (payload v)"
    using h len get_at [of "h @ ?r @ ?p @ ?q" 20 "payload v" _ cap] by simp
  have 5: "get cap ?buf (20 + length (payload v)) 4 = Inr ?n"
    using h len get_at [of "h @ ?r @ ?p @ ?q @ payload v" _ ?n 4 cap] by simp
  have pl: "length (payload v) < 256 ^ 4"
    using len cap by simp
  have round: "be_dec ?r = unat (vround v)" and pid: "be_dec ?p = unat (peer_id v)"
    using unsigned_less [of "vround v", where ?'a = nat] unsigned_less [of "peer_id v", where ?'a = nat]
    by (auto intro!: be_dec_enc)
  show ?thesis
  proof (cases "references v = []")
    case True
    then show ?thesis
      unfolding buf deserialize_data_def using 1 2 3 4 5 pl round pid True by (simp add: Let_def)
  next
    case False
    let ?l = "length (hd (references v))"
    have body: "rest = be_enc 4 ?l @ concat (references v)"
      using False by (simp add: rest_def)
    have conc: "length (concat (references v)) = ?l * length (references v)"
      using assms(1) by (simp add: uniform_refs_def length_concat_uniform)
    have l: "?l < 256 ^ 4"
    proof -
      have "?l \<le> length (concat (references v))"
        using conc False by (cases "length (references v)") auto
      then show ?thesis using len cap body by simp
    qed
    have 6: "get cap ?buf (24 + length (payload v)) 4 = Inr (be_enc 4 ?l)"
      using h len body get_at [of "h @ ?r @ ?p @ ?q @ payload v @ ?n" _ "be_enc 4 ?l" 4 cap "concat (references v) @ post"]
      by simp
    have 7: "read_refs cap ?buf (28 + length (payload v)) ?l (length (references v)) = Inr (references v)"
      using h len body assms(1) read_refs_at [of "references v" ?l "h @ ?r @ ?p @ ?q @ payload v @ ?n @ be_enc 4 ?l" _ cap post]
      by (simp add: uniform_refs_def)
    have n: "length (references v) < 256 ^ 4"
      using few by simp
    show ?thesis
      unfolding buf deserialize_data_def using 1 2 3 4 5 6 7 pl round pid l n False by (simp add: Let_def)
  qed
qed

text \<open>
  C26. Round trip: what one peer serialises, with the first four bytes overwritten by any length
  field and whatever follows it in the receiver's zeroed buffer, is deserialised to the same
  vertex.
\<close>

theorem serialize_deserialize:
  assumes "serialize_data cap v = Inr bs" and "hash_refs v" and "cap < 2 ^ 32" and "length h = 4"
  shows "deserialize_data cap (h @ drop 4 bs @ post) = Inr v"
proof -
  have bs: "bs = wire v" "length (wire v) \<le> cap"
    using serialize_data_wire [OF assms(1)] by auto
  have "length (concat (references v)) = HEX_HASH * length (references v)"
    using assms(2) by (simp add: hash_refs_def length_concat_uniform)
  with bs(2) assms(3) have "length (references v) < 2 ^ 32"
    by (cases "references v = []") (auto simp: wire_def wire_body_def HEX_HASH_def)
  with bs assms show ?thesis
    using deserialize_wire_body [OF hash_refs_uniform [OF assms(2)] assms(4), of cap "replicate 4 DELIM @ post"]
    by (simp add: wire_def)
qed

theorem serialize_deserialize_witness:
  "deserialize_data 1000 (''....'' @ drop 4 (wire demo_vertex) @ ''rest'') = Inr demo_vertex"
proof -
  have "serialize_data 1000 demo_vertex = Inr (wire demo_vertex)"
    using serialize_wire [OF hash_refs_demo, of 1000] length_wire [OF hash_refs_demo]
    by (simp add: demo_vertex_def Vertex_def HEX_HASH_def)
  then show ?thesis
    by (rule serialize_deserialize) (simp_all add: hash_refs_demo)
qed

section \<open>Where the delimiter can appear\<close>

text \<open>
  The receiver takes a \<open>#\<close> with another one three places further for the end of a vertex.
  \<open>clean s\<close>: no such pair inside \<open>s\<close>.
\<close>

fun clean :: "string \<Rightarrow> bool" where
  "clean (a # b # c # d # s) = (\<not> (a = DELIM \<and> d = DELIM) \<and> clean (b # c # d # s))"
| "clean s = True"

lemma clean_iff: "clean s \<longleftrightarrow> (\<forall>i. i + 3 < length s \<longrightarrow> \<not> (s ! i = DELIM \<and> s ! (i + 3) = DELIM))"
proof (induction s rule: clean.induct)
  case (1 a b c d s)
  show ?case (is "_ \<longleftrightarrow> (\<forall>i. ?P i)")
  proof -
    have "(\<forall>i. ?P i) \<longleftrightarrow> ?P 0 \<and> (\<forall>i. ?P (Suc i))"
      by (metis not0_implies_Suc)
    with 1 show ?thesis by (simp add: numeral_3_eq_3)
  qed
qed auto

lemma clean_no_delim: "DELIM \<notin> set s \<Longrightarrow> clean s"
  by (auto simp: clean_iff) (metis nth_mem add_lessD1)

text \<open>Three bytes without the delimiter separate what comes before from what comes after.\<close>

lemma clean_append_iff:
  assumes "DELIM \<notin> set s" and "3 \<le> length s"
  shows "clean (p @ s @ q) \<longleftrightarrow> clean p \<and> clean q"
proof
  assume L: "clean (p @ s @ q)"
  have "clean p"
    unfolding clean_iff
  proof (intro allI impI)
    fix i assume "i + 3 < length p"
    then show "\<not> (p ! i = DELIM \<and> p ! (i + 3) = DELIM)"
      using L [unfolded clean_iff, rule_format, of i] by (simp add: nth_append)
  qed
  moreover have "clean q"
    unfolding clean_iff
  proof (intro allI impI)
    fix i assume "i + 3 < length q"
    then show "\<not> (q ! i = DELIM \<and> q ! (i + 3) = DELIM)"
      using L [unfolded clean_iff, rule_format, of "length p + length s + i"] by (simp add: nth_append)
  qed
  ultimately show "clean p \<and> clean q" ..
next
  assume R: "clean p \<and> clean q"
  have no: "s ! j \<noteq> DELIM" if "j < length s" for j
    using assms(1) that nth_mem by metis
  show "clean (p @ s @ q)"
    unfolding clean_iff
  proof (intro allI impI notI, elim conjE)
    fix i
    assume i: "i + 3 < length (p @ s @ q)" "(p @ s @ q) ! i = DELIM" "(p @ s @ q) ! (i + 3) = DELIM"
    consider "i + 3 < length p" | "i < length p" "length p \<le> i + 3"
      | "length p \<le> i" "i < length p + length s" | "length p + length s \<le> i"
      by linarith
    then show False
    proof cases
      case 1
      with i R show False by (auto simp: nth_append clean_iff)
    next
      case 2
      then have "i + 3 - length p < length s" using assms(2) by linarith
      with 2 i no show False by (auto simp: nth_append)
    next
      case 3
      then have "i - length p < length s" by linarith
      with 3 i no show False by (auto simp: nth_append)
    next
      case 4
      then obtain j where "i = length p + length s + j" using le_Suc_ex by blast
      with i R show False by (auto simp: nth_append clean_iff)
    qed
  qed
qed

text \<open>
  The header of a message, everything before the payload: the length field \<open>h\<close> that the sender
  attached, the round, the creator and the payload's length.
\<close>

definition wire_header :: "string \<Rightarrow> vertex \<Rightarrow> string" where
  "wire_header h v = h @ be_enc 4 (unat (vround v)) @ be_enc 8 (unat (peer_id v)) @ be_enc 4 (length (payload v))"

text \<open>Vertices as honest peers build them: a text payload and hexadecimal references.\<close>

definition text_vertex :: "vertex \<Rightarrow> bool" where
  "text_vertex v \<longleftrightarrow> hash_refs v \<and> 3 \<le> length (payload v) \<and> DELIM \<notin> set (payload v) \<and>
     (\<forall>r \<in> set (references v). DELIM \<notin> set r) \<and> length (references v) < 2 ^ 24"

definition framed :: "string \<Rightarrow> bool" where
  "framed body \<longleftrightarrow> clean (body @ replicate 3 DELIM)"

lemma framed_header_iff:
  assumes "text_vertex v"
  shows "framed (h @ wire_body v) \<longleftrightarrow> clean (wire_header h v)"
proof -
  let ?n = "be_enc 4 (length (references v))"
  have dd: "clean (replicate 3 DELIM)" by (simp add: numeral_3_eq_3)
  show ?thesis
  proof (cases "references v = []")
    case True
    then have "h @ wire_body v @ replicate 3 DELIM = wire_header h v @ (payload v @ replicate 4 NUL) @ replicate 3 DELIM"
      by (simp add: wire_body_def wire_header_def)
    moreover have "DELIM \<notin> set (payload v @ replicate 4 NUL)"
      using assms by (auto simp: text_vertex_def NUL_def DELIM_def)
    ultimately show ?thesis
      using clean_append_iff [of "payload v @ replicate 4 NUL" "wire_header h v" "replicate 3 DELIM"] assms dd
      by (simp add: framed_def text_vertex_def)
  next
    case False
    let ?l = "be_enc 4 (length (hd (references v)))"
    have "length (hd (references v)) = HEX_HASH"
      using assms False by (auto simp: text_vertex_def hash_refs_def)
    moreover have "be_enc 4 HEX_HASH = [NUL, NUL, NUL, CHR ''@'']"
      by code_simp
    ultimately have l: "?l = [NUL, NUL, NUL, CHR ''@'']"
      by simp
    have n: "clean ?n"
    proof -
      have "length (references v) div 256 ^ 3 = 0"
        using assms by (simp add: text_vertex_def)
      then have "?n = NUL # be_enc 3 (length (references v))"
        using be_enc_Suc_Cons [of 3 "length (references v)"] by simp
      moreover have "clean (NUL # s)" if "length s = 3" for s
        using that by (cases s rule: clean.cases) (auto simp: NUL_def DELIM_def)
      ultimately show ?thesis by simp
    qed
    have "h @ wire_body v @ replicate 3 DELIM = wire_header h v @ payload v @ ?n @ (?l @ concat (references v)) @ replicate 3 DELIM"
      using False by (simp add: wire_body_def wire_header_def)
    moreover have "DELIM \<notin> set (?l @ concat (references v))"
      using assms l by (auto simp: text_vertex_def NUL_def DELIM_def)
    ultimately show ?thesis
      using clean_append_iff [of "payload v" "wire_header h v"] assms dd n
        clean_append_iff [of "?l @ concat (references v)" ?n "replicate 3 DELIM"]
      by (simp add: framed_def text_vertex_def)
  qed
qed

end
