(* ===== verification/Messages.thy ===== *)
theory Messages
  imports Vertex
begin

text \<open>
  The free functions of \<open>networking.cpp\<close>: sending and receiving byte streams, telling requests
  from vertices, and the fields of a request. A connection is the list of the bytes that have
  arrived on it and are still to be read, and how it stands behind them (\<open>conn_end\<close>).
\<close>

section \<open>Building messages\<close>

text \<open>
  The length field replaces the first four bytes; a length of zero (modulo \<open>2 ^ 32\<close>) makes the
  process exit.
\<close>

definition attach_length_to_msg :: "string \<Rightarrow> nat \<Rightarrow> string res" where
  "attach_length_to_msg buffer msg_len =
     (if length buffer < 4 then Inl Out_Of_Bounds
      else if msg_len mod 2 ^ 32 = 0 then Inl Exit_Failure
      else Inr (be_enc 4 msg_len @ drop 4 buffer))"

lemma attach_length_ok [res_intro]:
  "28 \<le> length bs \<Longrightarrow> length bs < 2 ^ 32 \<Longrightarrow>
     attach_length_to_msg bs (length bs) = Inr (be_enc 4 (length bs) @ drop 4 bs)"
  by (auto simp: attach_length_to_msg_def)

definition dynamic_copy :: "string \<Rightarrow> nat \<Rightarrow> string res" where
  "dynamic_copy buffer len = (if len \<le> length buffer then Inr (take len buffer) else Inl Out_Of_Bounds)"

lemma dynamic_copy_all [simp]: "dynamic_copy buf (length buf) = Inr buf"
  by (simp add: dynamic_copy_def)

section \<open>c\_sendn\<close>

text \<open>
  The send loop, driven by the values that \<open>send\<close> returns (one \<open>ssize_t\<close> per call, stored in
  the \<open>size_t\<close> variable \<open>bytes_sent\<close>; the error value is the largest word). The state is
  \<open>bytes_left\<close>, the offset \<open>ptr - buf\<close> and the bytes that reached the connection. \<open>None\<close>: the
  loop waits for a further return value. The comparison \<open>bytes_sent < 0\<close> of the code is kept
  although it compares an unsigned value.
\<close>

fun send_loop :: "string \<Rightarrow> u64 \<Rightarrow> u64 \<Rightarrow> string \<Rightarrow> u64 list \<Rightarrow> string comp" where
  "send_loop buf bytes_left ptr out rs =
     (if 0 < bytes_left then
        (case rs of
           [] \<Rightarrow> None
         | bytes_sent # rs' \<Rightarrow>
             if bytes_sent < 0 then Some (Inl Exit_Failure)
             else
               let out' = (if bytes_sent = - 1 then out
                           else out @ take (unat bytes_sent) (drop (unat ptr) buf));
                   left' = bytes_left - bytes_sent;
                   ptr' = ptr + bytes_sent
               in if 0 < left' \<and> bytes_sent = - 1 then Some (Inr out')
                  else send_loop buf left' ptr' out' rs')
      else Some (Inr out))"

declare send_loop.simps [simp del]

text \<open>
  A whole call: \<open>probability\<close> is the first random draw (1 to 100). The result is what was sent;
  \<open>buf\<close> is freed on both ways out, which the second component counts.
\<close>

definition c_sendn :: "int \<Rightarrow> u64 list \<Rightarrow> string \<Rightarrow> (string \<times> nat) comp" where
  "c_sendn probability rs buf =
     (if probability \<le> 4 then Some (Inr ([], 1))
      else bindC (send_loop buf (of_nat (length buf)) 0 [] rs) (\<lambda>out. Some (Inr (out, 1))))"

text \<open>
  What the kernel may answer: an error, or a count between one and what was asked. After an
  error no further call is made.
\<close>

fun send_results :: "u64 \<Rightarrow> u64 list \<Rightarrow> bool" where
  "send_results bytes_left [] = (bytes_left = 0)"
| "send_results bytes_left (r # rs) =
     (0 < bytes_left \<and> (if r = - 1 then rs = [] else 0 < r \<and> r \<le> bytes_left \<and> send_results (bytes_left - r) rs))"

lemma send_loop_sent:
  assumes "send_results left rs" and "unat left + unat ptr = length buf" and "length buf < 2 ^ 63"
  shows "\<exists>k \<le> unat left. send_loop buf left ptr out rs = Some (Inr (out @ take k (drop (unat ptr) buf))) \<and>
    (- 1 \<notin> set rs \<longrightarrow> k = unat left)"
  using assms
proof (induction rs arbitrary: left ptr out)
  case Nil
  then show ?case by (simp add: send_loop.simps)
next
  case (Cons r rs)
  have small: "unat left < 2 ^ 63" using Cons.prems(2,3) by linarith
  show ?case
  proof (cases "r = - 1")
    case True
    have "left + 1 \<noteq> 0"
    proof
      assume "left + 1 = 0"
      then have "left = - 1" by (simp add: eq_neg_iff_add_eq_0)
      with small show False by (simp add: unsigned_minus_1_eq_mask mask_eq_exp_minus_1)
    qed
    with True Cons.prems(1) show ?thesis
      by (intro exI [of _ 0]) (simp add: send_loop.simps word_neq_0_conv)
  next
    case False
    with Cons.prems(1) have r: "0 < r" "r \<le> left" "0 < left" "send_results (left - r) rs"
      by auto
    have sub: "unat (left - r) = unat left - unat r" and le: "unat r \<le> unat left"
      using r(2) by (auto simp: unat_sub word_le_nat_alt)
    have add: "unat (ptr + r) = unat ptr + unat r"
      using Cons.prems(2,3) le by (simp add: unat_word_ariths)
    have "unat (left - r) + unat (ptr + r) = length buf"
      using Cons.prems(2) sub add le by simp
    from Cons.IH [OF r(4) this Cons.prems(3), of "out @ take (unat r) (drop (unat ptr) buf)"]
    obtain k where k: "k \<le> unat (left - r)"
      "send_loop buf (left - r) (ptr + r) (out @ take (unat r) (drop (unat ptr) buf)) rs =
         Some (Inr ((out @ take (unat r) (drop (unat ptr) buf)) @ take k (drop (unat (ptr + r)) buf)))"
      "- 1 \<notin> set rs \<longrightarrow> k = unat (left - r)"
      by blast
    have "take (unat r + k) (drop (unat ptr) buf) =
        take (unat r) (drop (unat ptr) buf) @ take k (drop (unat ptr + unat r) buf)"
      by (simp add: take_add add.commute [of "unat r" "unat ptr"])
    then have "send_loop buf left ptr out (r # rs) =
        Some (Inr (out @ take (unat r + k) (drop (unat ptr) buf)))"
      using r False k(2) by (simp add: send_loop.simps [of buf left] add)
    with k le sub False show ?thesis
      by (intro exI [of _ "unat r + k"]) auto
  qed
qed

lemma c_sendn_complete:
  assumes "send_results (of_nat (length buf)) rs" and "length buf < 2 ^ 63"
  shows "\<exists>k \<le> length buf. c_sendn probability rs buf = Some (Inr (take k buf, 1)) \<and>
    (4 < probability \<and> - 1 \<notin> set rs \<longrightarrow> k = length buf)"
proof -
  have u: "unat (of_nat (length buf) :: u64) = length buf"
    using assms(2) by (simp add: unat_of_nat)
  show ?thesis
  proof (cases "probability \<le> 4")
    case True
    then show ?thesis by (intro exI [of _ 0]) (simp add: c_sendn_def)
  next
    case False
    from send_loop_sent [OF assms(1), of 0 buf "[]"] u assms(2)
    show ?thesis by (auto simp: c_sendn_def)
  qed
qed

text \<open>A message that the kernel takes at once arrives whole.\<close>

lemma c_sendn_whole:
  assumes "buf \<noteq> []" and "length buf < 2 ^ 63"
  shows "c_sendn 50 [of_nat (length buf)] buf = Some (Inr (buf, 1))"
proof -
  have u: "unat (of_nat (length buf) :: u64) = length buf"
    using assms(2) by (simp add: unat_of_nat)
  have "(of_nat (length buf) :: u64) \<noteq> - 1"
  proof
    assume "(of_nat (length buf) :: u64) = - 1"
    then have "length buf = unat (- 1 :: u64)" using u by simp
    with assms(2) show False by (simp add: unsigned_minus_1_eq_mask mask_eq_exp_minus_1)
  qed
  moreover have "(0 :: u64) < of_nat (length buf)" using u assms(1) by (simp add: word_less_nat_alt)
  ultimately have "send_results (of_nat (length buf)) [of_nat (length buf)]" by simp
  from c_sendn_complete [OF this assms(2), of 50] \<open>(of_nat (length buf) :: u64) \<noteq> - 1\<close> show ?thesis by auto
qed

text \<open>
  C39. \<open>c_sendn\<close> returns, frees its buffer once and never exits the process: a message is lost
  whole (the simulated loss), cut short at a prefix when the kernel reports an error, and
  otherwise sent completely and in order, however the kernel splits it.
\<close>

theorem c_sendn_sends:
  assumes "send_results (of_nat (length buf)) rs" and "length buf < 2 ^ 63"
  shows "\<exists>k \<le> length buf. c_sendn probability rs buf = Some (Inr (take k buf, 1)) \<and>
    (4 < probability \<and> - 1 \<notin> set rs \<longrightarrow> k = length buf)"
  using assms by (rule c_sendn_complete)

theorem c_sendn_sends_witness:
  "c_sendn 50 [2, 3] ''hello'' = Some (Inr (''hello'', 1))"
proof -
  have "send_results (of_nat (length ''hello'')) [2, 3]" by simp
  from c_sendn_sends [OF this, of 50] show ?thesis by auto
qed

section \<open>c\_recvn\<close>

text \<open>
  A connection is still open behind the bytes that have arrived, or closed by the other side, or
  it fails. \<open>recv\<close> with \<open>MSG_WAITALL\<close> blocks on an open connection until all bytes that it asks
  for are there (the outer \<open>None\<close>), takes what there is from a closed one, and returns -1 from a
  failing one (the inner \<open>None\<close>). Of the size of the buffer, \<open>cap\<close>, it knows nothing.
\<close>

datatype conn_end = Still_Open | Closed | Failing

definition recv_waitall :: "nat \<Rightarrow> conn_end \<Rightarrow> string \<Rightarrow> nat \<Rightarrow> string option comp" where
  "recv_waitall cap en stream len =
     (if en = Failing then Some (Inr None)
      else if cap < min len (length stream) then Some (Inl Out_Of_Bounds)
      else if en = Still_Open \<and> length stream < len then None
      else Some (Inr (Some (take len stream))))"

lemma recv_waitall_all [simp]:
  "en \<noteq> Failing \<Longrightarrow> len \<le> length stream \<Longrightarrow> len \<le> cap \<Longrightarrow>
     recv_waitall cap en stream len = Some (Inr (Some (take len stream)))"
  by (simp add: recv_waitall_def)

text \<open>
  \<open>buf\<close> has \<open>MAX_STREAM_SIZE\<close> bytes, of which the received ones come first and the others are
  zero.
\<close>

definition buf_at :: "string \<Rightarrow> nat \<Rightarrow> char res" where
  "buf_at bs i =
     (if i < length bs then Inr (bs ! i) else if i < MAX_STREAM_SIZE then Inr NUL else Inl Out_Of_Bounds)"

text \<open>
  The \<open>for\<close> loop over the received bytes. A segment ends at a \<open>#\<close> that has another \<open>#\<close> three
  bytes later; it is copied to \<open>chunk_buffer\<close> (a negative size becomes a huge \<open>size_t\<close>) and
  deserialised. The result is \<open>delimeter_found\<close>, \<open>segment_start\<close> and the vertices.
\<close>

function scan_segments :: "string \<Rightarrow> nat \<Rightarrow> int \<Rightarrow> vertex list \<Rightarrow> (bool \<times> int \<times> vertex list) res" where
  "scan_segments bs byte_counter segment_start vertices =
     (if byte_counter < length bs then
        (if bs ! byte_counter = DELIM then
           bindR (buf_at bs (byte_counter + 3)) (\<lambda>c.
           if c = DELIM then
             let byte_counter' = byte_counter + 3;
                 segment_size = int byte_counter' - segment_start + 1
             in if segment_size < 0 then Inl Out_Of_Bounds
                else bindR (deserialize_data MAX_STREAM_SIZE
                             (take (nat segment_size) (drop (nat segment_start) bs))) (\<lambda>v.
                     let segment_start' = int byte_counter' + 1
                     in if byte_counter' + 1 < length bs
                        then scan_segments bs (byte_counter' + 1) segment_start' (vertices @ [v])
                        else Inr (True, segment_start', vertices @ [v]))
           else scan_segments bs (byte_counter + 1) segment_start vertices)
         else scan_segments bs (byte_counter + 1) segment_start vertices)
      else Inr (False, segment_start, vertices))"
  by pat_completeness auto
termination
  by (relation "measure (\<lambda>(bs, i, _). length bs - i)") auto

declare scan_segments.simps [simp del]

text \<open>
  The outer loop. It receives \<open>len\<close> bytes again and again until the last delimiter ends a
  batch; \<open>segment_start\<close> is not reset between the batches. A result of \<open>recv\<close> other than \<open>len\<close>
  (fewer bytes or the error value) makes the process exit. The result is the vertices and what
  is left of the stream; \<open>None\<close>: the call does not come back on the bytes that have arrived.
\<close>

partial_function (option) recv_loop ::
    "conn_end \<Rightarrow> string \<Rightarrow> nat \<Rightarrow> int \<Rightarrow> vertex list \<Rightarrow> (fault + vertex list \<times> string) option" where
  "recv_loop en stream len segment_start vertices =
     (case recv_waitall MAX_STREAM_SIZE en stream len of
        None \<Rightarrow> None
      | Some (Inl e) \<Rightarrow> Some (Inl e)
      | Some (Inr None) \<Rightarrow> Some (Inl Exit_Failure)
      | Some (Inr (Some bs)) \<Rightarrow>
          if length bs \<noteq> len then Some (Inl Exit_Failure)
          else (case scan_segments bs 0 segment_start vertices of
                  Inl e \<Rightarrow> Some (Inl e)
                | Inr (found, segment_start', vertices') \<Rightarrow>
                    if found then Some (Inr (vertices', drop len stream))
                    else recv_loop en (drop len stream) len segment_start' vertices'))"

definition c_recvn :: "conn_end \<Rightarrow> string \<Rightarrow> nat \<Rightarrow> vertex list \<Rightarrow> (vertex list \<times> string) comp" where
  "c_recvn en stream len vertices = recv_loop en stream len 0 vertices"

lemma recv_loop_batch:
  assumes "en \<noteq> Failing" and "len \<le> length stream" and "len \<le> MAX_STREAM_SIZE"
  shows "recv_loop en stream len seg vs =
    (case scan_segments (take len stream) 0 seg vs of
       Inl e \<Rightarrow> Some (Inl e)
     | Inr (found, seg', vs') \<Rightarrow>
         if found then Some (Inr (vs', drop len stream)) else recv_loop en (drop len stream) len seg' vs')"
  using assms by (subst recv_loop.simps) (simp split: sum.split)

lemma c_recvn_failing [simp]: "c_recvn Failing stream len vs = Some (Inl Exit_Failure)"
  by (simp add: c_recvn_def recv_loop.simps [of Failing] recv_waitall_def)

lemma recv_loop_short:
  assumes "length stream < len" and "len \<le> MAX_STREAM_SIZE"
  shows "recv_loop en stream len seg vs = (if en = Still_Open then None else Some (Inl Exit_Failure))"
  using assms by (cases en) (simp_all add: recv_loop.simps [of _ stream] recv_waitall_def)

text \<open>
  A message whose length field is zero (four zero bytes, or a header of which only
  leading zero bytes have arrived when it is peeked) makes the server thread loop for ever.
\<close>

theorem c_recvn_zero_length_diverges:
  assumes "en \<noteq> Failing"
  shows "c_recvn en stream 0 vertices = None"
proof -
  have "\<not> (recv_loop en stream 0 seg vs = Some r)" for seg vs r
  proof
    assume *: "recv_loop en stream 0 seg vs = Some r"
    have "\<And>en s l seg vs r. recv_loop en s l seg vs = Some r \<Longrightarrow> l \<noteq> 0 \<or> en = Failing"
    proof -
      fix en s l seg vs r
      assume "recv_loop en s l seg vs = Some r"
      then show "l \<noteq> 0 \<or> en = Failing"
      proof (rule recv_loop.raw_induct [where P = "\<lambda>en s l seg vs r. l \<noteq> 0 \<or> en = Failing", rotated])
        fix f en s l seg vs r
        assume IH: "\<And>en s l seg vs r. f en s l seg vs = Some r \<Longrightarrow> l \<noteq> 0 \<or> en = Failing"
          and eq: "(case recv_waitall MAX_STREAM_SIZE en s l of
              None \<Rightarrow> None
            | Some (Inl e) \<Rightarrow> Some (Inl e)
            | Some (Inr None) \<Rightarrow> Some (Inl Exit_Failure)
            | Some (Inr (Some bs)) \<Rightarrow>
                if length bs \<noteq> l then Some (Inl Exit_Failure)
                else (case scan_segments bs 0 seg vs of
                  Inl e \<Rightarrow> Some (Inl e)
                | Inr (found, seg', vs') \<Rightarrow>
                    if found then Some (Inr (vs', drop l s)) else f en (drop l s) l seg' vs')) = Some r"
        show "l \<noteq> 0 \<or> en = Failing"
        proof (rule ccontr)
          assume "\<not> (l \<noteq> 0 \<or> en = Failing)"
          then have l: "l = 0" "en \<noteq> Failing" by simp_all
          with eq have "f en s 0 seg vs = Some r"
            by (simp add: scan_segments.simps)
          with IH l show False by blast
        qed
      qed
    qed
    with * assms show False by blast
  qed
  then show ?thesis
    unfolding c_recvn_def by (cases "recv_loop en stream 0 0 vertices") auto
qed

subsection \<open>A packet of vertices is split where its vertices end\<close>

text \<open>The scan runs over bytes where no delimiter pattern begins.\<close>

lemma scan_segments_skip:
  assumes "\<forall>j. i \<le> j \<and> j < m \<longrightarrow> bs ! j \<noteq> DELIM \<or> j + 3 < length bs \<and> bs ! (j + 3) \<noteq> DELIM"
    and "i \<le> m" and "m \<le> length bs"
  shows "scan_segments bs i seg vs = scan_segments bs m seg vs"
  using assms
proof (induction "m - i" arbitrary: i)
  case 0
  then show ?case by simp
next
  case (Suc n)
  then have i: "i < m" by simp
  have "n = m - Suc i"
    using Suc.hyps(2) by simp
  from Suc.hyps(1) [OF this] Suc.prems i
  have IH: "scan_segments bs (Suc i) seg vs = scan_segments bs m seg vs"
    by simp
  have "bs ! i \<noteq> DELIM \<or> i + 3 < length bs \<and> bs ! (i + 3) \<noteq> DELIM"
    using Suc.prems(1) i by simp
  moreover have "i < length bs" using i Suc.prems(3) by simp
  ultimately have "scan_segments bs i seg vs = scan_segments bs (Suc i) seg vs"
    by (subst scan_segments.simps) (auto simp: buf_at_def)
  with IH show ?case by simp
qed

text \<open>Where the pattern begins, the segment is deserialised, and the scan goes on behind it or stops.\<close>

lemma scan_segments_hit:
  assumes "bs ! m = DELIM" and "bs ! (m + 3) = DELIM" and "m + 3 < length bs" and "seg \<le> m + 4"
  shows "scan_segments bs m (int seg) vs =
    bindR (deserialize_data MAX_STREAM_SIZE (take (m + 4 - seg) (drop seg bs))) (\<lambda>v.
      if m + 4 < length bs then scan_segments bs (m + 4) (int (m + 4)) (vs @ [v])
      else Inr (True, int (m + 4), vs @ [v]))"
proof -
  have "nat (int (m + 3) - int seg + 1) = m + 4 - seg"
    by (simp add: nat_diff_distrib' algebra_simps)
  moreover have "\<not> int (m + 3) - int seg + 1 < 0"
    using assms(4) by simp
  ultimately show ?thesis
    using assms by (subst scan_segments.simps) (simp add: buf_at_def Let_def add.commute cong: if_cong)
qed

lemma framed_no_hit:
  assumes "framed body" and "bs = pre @ body @ replicate 4 DELIM @ post" and "length pre \<le> j"
    and "j < length pre + length body"
  shows "bs ! j \<noteq> DELIM \<or> j + 3 < length bs \<and> bs ! (j + 3) \<noteq> DELIM"
proof (rule disjCI)
  assume *: "\<not> (j + 3 < length bs \<and> bs ! (j + 3) \<noteq> DELIM)"
  obtain i where i: "j = length pre + i" using assms(3) le_Suc_ex by blast
  with assms(4) have "i < length body" by simp
  moreover have "bs ! (length pre + k) = (body @ replicate 3 DELIM) ! k" if "k < length body + 3" for k
    using that by (auto simp: assms(2) nth_append)
  ultimately show "bs ! j \<noteq> DELIM"
    using assms(1) * i
    by (simp add: framed_def clean_iff assms(2) add.assoc) (metis add_less_cancel_right trans_less_add1)
qed

lemma scan_segments_segment:
  assumes "framed body" and "bs = pre @ body @ replicate 4 DELIM @ post"
    and "deserialize_data MAX_STREAM_SIZE (body @ replicate 4 DELIM) = Inr v"
  shows "scan_segments bs (length pre) (int (length pre)) vs =
    (let next = length pre + length body + 4 in
     if post = [] then Inr (True, int next, vs @ [v]) else scan_segments bs next (int next) (vs @ [v]))"
proof -
  let ?n = "length pre + length body"
  have "scan_segments bs (length pre) (int (length pre)) vs = scan_segments bs ?n (int (length pre)) vs"
    using framed_no_hit [OF assms(1,2)] by (intro scan_segments_skip) (auto simp: assms(2))
  moreover have "bs ! ?n = DELIM" "bs ! (?n + 3) = DELIM" "?n + 3 < length bs"
    and "take (?n + 4 - length pre) (drop (length pre) bs) = body @ replicate 4 DELIM"
    and "?n + 4 < length bs \<longleftrightarrow> post \<noteq> []"
    by (auto simp: assms(2) nth_append)
  ultimately show ?thesis
    using scan_segments_hit [of bs ?n "length pre" vs] assms(3) by (auto simp: Let_def)
qed

text \<open>A segment of a packet: four bytes in front (the length of the packet, or zeros) and a vertex.\<close>

definition segment :: "string \<times> vertex \<Rightarrow> string" where
  "segment = (\<lambda>(h, v). h @ wire_body v @ replicate 4 DELIM)"

definition good_segment :: "string \<times> vertex \<Rightarrow> bool" where
  "good_segment = (\<lambda>(h, v). length h = 4 \<and> hash_refs v \<and> framed (h @ wire_body v))"

lemma good_segment_decodes:
  assumes "good_segment (h, v)" and "length (segment (h, v)) \<le> MAX_STREAM_SIZE"
  shows "deserialize_data MAX_STREAM_SIZE ((h @ wire_body v) @ replicate 4 DELIM) = Inr v"
proof -
  have refs: "hash_refs v" and h: "length h = 4"
    using assms(1) by (auto simp: good_segment_def)
  have "length (concat (references v)) = HEX_HASH * length (references v)"
    using refs by (simp add: hash_refs_def length_concat_uniform)
  then have "length (references v) < 2 ^ 32"
    using assms(2) by (cases "references v = []") (auto simp: segment_def wire_body_def HEX_HASH_def MAX_STREAM_SIZE_def)
  then show ?thesis
    using deserialize_wire_body [OF hash_refs_uniform [OF refs] h, of MAX_STREAM_SIZE "replicate 4 DELIM"] assms(2)
    by (simp add: segment_def h MAX_STREAM_SIZE_def)
qed

lemma scan_segments_packet:
  assumes "\<forall>p \<in> set ps. good_segment p" and "ps \<noteq> []"
    and "bs = pre @ concat (map segment ps)" and "length bs \<le> MAX_STREAM_SIZE"
  shows "scan_segments bs (length pre) (int (length pre)) vs =
    Inr (True, int (length bs), vs @ map snd ps)"
  using assms
proof (induction ps arbitrary: pre vs)
  case Nil
  then show ?case by simp
next
  case (Cons p ps)
  obtain h v where p: "p = (h, v)" by force
  let ?rest = "concat (map segment ps)" and ?b = "h @ wire_body v"
  have good: "good_segment (h, v)" and framed: "framed ?b"
    using Cons.prems(1) by (auto simp: p good_segment_def)
  have bs: "bs = pre @ ?b @ replicate 4 DELIM @ ?rest"
    using Cons.prems(3) by (simp add: p segment_def)
  have "length (segment (h, v)) \<le> MAX_STREAM_SIZE"
    using Cons.prems(4) by (simp add: bs segment_def)
  from scan_segments_segment [OF framed bs good_segment_decodes [OF good this], of vs]
  have step: "scan_segments bs (length pre) (int (length pre)) vs =
    (let next = length pre + length ?b + 4 in
     if ?rest = [] then Inr (True, int next, vs @ [v]) else scan_segments bs next (int next) (vs @ [v]))" .
  show ?case
  proof (cases "ps = []")
    case True
    with step bs show ?thesis by (simp add: p Let_def)
  next
    case False
    then have "?rest \<noteq> []" by (cases ps) (auto simp: segment_def split: prod.splits)
    with step have "scan_segments bs (length pre) (int (length pre)) vs =
        scan_segments bs (length (pre @ segment p)) (int (length (pre @ segment p))) (vs @ [v])"
      by (simp only: Let_def if_False) (simp add: p segment_def add.assoc)
    moreover have "scan_segments bs (length (pre @ segment p)) (int (length (pre @ segment p))) (vs @ [v]) =
        Inr (True, int (length bs), (vs @ [v]) @ map snd ps)"
      using Cons.prems False by (intro Cons.IH) auto
    ultimately show ?thesis by (simp add: p)
  qed
qed

lemma c_recvn_segments:
  assumes "\<forall>p \<in> set ps. good_segment p" and "ps \<noteq> []"
    and "length (concat (map segment ps)) \<le> MAX_STREAM_SIZE"
    and "en \<noteq> Failing"
  shows "c_recvn en (concat (map segment ps) @ rest) (length (concat (map segment ps))) [] =
    Some (Inr (map snd ps, rest))"
  using scan_segments_packet [of ps "concat (map segment ps)" "[]" "[]"] assms
  by (simp add: c_recvn_def recv_loop_batch)

text \<open>
  C27. Framing: a packet of one or more vertices, of at most 64 KiB, in which no delimiter
  pattern occurs before the end of a vertex, is received as exactly these vertices, in order,
  and the bytes behind the packet are left on the stream.
\<close>

theorem c_recvn_packet:
  assumes "\<forall>p \<in> set ps. good_segment p" and "ps \<noteq> []"
    and "length (concat (map segment ps)) \<le> MAX_STREAM_SIZE" and "en \<noteq> Failing"
  shows "c_recvn en (concat (map segment ps) @ rest) (length (concat (map segment ps))) [] =
    Some (Inr (map snd ps, rest))"
  using assms by (rule c_recvn_segments)

lemma good_segment_demo: "good_segment (replicate 4 NUL, demo_vertex)"
  using hash_refs_demo framed_header_iff [of demo_vertex "replicate 4 NUL"]
proof -
  have "text_vertex demo_vertex"
    using hash_refs_demo by (simp add: text_vertex_def) (simp add: demo_vertex_def Vertex_def DELIM_def)
  moreover have "clean (wire_header (replicate 4 NUL) demo_vertex)"
    by code_simp
  ultimately show ?thesis
    using hash_refs_demo framed_header_iff by (simp add: good_segment_def)
qed

lemma length_segment_demo: "length (segment (replicate 4 NUL, demo_vertex)) = 164"
  using length_wire [OF hash_refs_demo]
  by (simp add: segment_def wire_def demo_vertex_def Vertex_def HEX_HASH_def)

theorem c_recvn_packet_witness:
  "c_recvn Still_Open (segment (replicate 4 NUL, demo_vertex) @ segment (replicate 4 NUL, demo_vertex) @ ''next'') 328 [] =
     Some (Inr ([demo_vertex, demo_vertex], ''next''))"
proof -
  let ?ps = "[(replicate 4 NUL, demo_vertex), (replicate 4 NUL, demo_vertex)]"
  have "length (concat (map segment ?ps)) = 328"
    by (simp only: list.map concat.simps append_Nil2 length_append length_segment_demo)
  with c_recvn_packet [of ?ps Still_Open "''next''"] good_segment_demo show ?thesis
    by (simp add: MAX_STREAM_SIZE_def)
qed

text \<open>A vertex for the next property, and its bytes.\<close>

definition unlucky_vertex :: vertex where
  "unlucky_vertex = Vertex 1 0x1723000023000000 ''1-1667176287644418048''"

lemma wire_unlucky: "wire unlucky_vertex =
   [NUL, NUL, NUL, NUL, NUL, NUL, NUL, CHR 0x01, CHR 0x17, CHR ''#'', NUL, NUL, CHR ''#'', NUL, NUL, NUL,
    NUL, NUL, NUL, CHR 0x15] @ ''1-1667176287644418048'' @ [NUL, NUL, NUL, NUL] @ ''####''"
proof -
  have "length (payload unlucky_vertex) = 21"
    by (simp add: unlucky_vertex_def Vertex_def)
  moreover have "be_enc 4 21 = [NUL, NUL, NUL, CHR 0x15]" and "be_enc 4 1 = [NUL, NUL, NUL, CHR 0x01]"
    by code_simp+
  moreover have "be_enc 8 0x1723000023000000 = [CHR 0x17, CHR ''#'', NUL, NUL, CHR ''#'', NUL, NUL, NUL]"
    by (simp add: be_enc_numeral char_of_def bit_0 NUL_def)
  ultimately show ?thesis
    by (simp add: wire_def wire_body_def) (simp add: unlucky_vertex_def Vertex_def replicate_num DELIM_def)
qed

lemma scan_unlucky: "scan_segments (wire unlucky_vertex) 0 0 [] = Inl Out_Of_Bounds"
proof -
  let ?v = "\<lparr>vround = 1, peer_id = 0x1723000023000000, payload = [], references = []\<rparr> :: vertex"
  let ?w = "wire unlucky_vertex"
  have skip1: "scan_segments ?w 0 0 [] = scan_segments ?w 9 0 []"
    by (rule scan_segments_skip) (auto simp: wire_unlucky less_Suc_eq numeral_eq_Suc DELIM_def NUL_def)
  have chunk1: "deserialize_data MAX_STREAM_SIZE (take 13 ?w) = Inr ?v"
    by (simp add: wire_unlucky deserialize_data_def get_def MAX_STREAM_SIZE_def be_dec_def NUL_def Let_def replicate_num)
  have hit1: "scan_segments ?w 9 0 [] = scan_segments ?w 13 13 [?v]"
    using scan_segments_hit [of ?w 9 0 "[]"] chunk1 by (simp add: wire_unlucky DELIM_def)
  have skip2: "scan_segments ?w 13 13 [?v] = scan_segments ?w 45 13 [?v]"
    by (rule scan_segments_skip) (auto simp: wire_unlucky less_Suc_eq numeral_eq_Suc DELIM_def NUL_def)
  have chunk2: "deserialize_data MAX_STREAM_SIZE (drop 13 ?w) = Inl Out_Of_Bounds"
    by (simp add: wire_unlucky deserialize_data_def get_def MAX_STREAM_SIZE_def be_dec_def NUL_def Let_def replicate_num)
  have "scan_segments ?w 45 13 [?v] = Inl Out_Of_Bounds"
    using scan_segments_hit [of ?w 45 13 "[?v]"] chunk2 by (simp add: wire_unlucky DELIM_def)
  with skip1 hit1 skip2 show ?thesis by simp
qed

text \<open>
  A delimiter pattern inside the binary header breaks the framing: a vertex that is valid in
  every respect but whose creator id has two bytes \<open>#\<close> three places apart (an id is a clock
  reading, and this one is a time of October 2022) makes the receiver read outside its buffer.
\<close>

theorem c_recvn_misframes:
  "text_vertex unlucky_vertex \<and>
   serialize_data MAX_STREAM_SIZE unlucky_vertex = Inr (wire unlucky_vertex) \<and>
   c_recvn Still_Open (wire unlucky_vertex) (length (wire unlucky_vertex)) [] = Some (Inl Out_Of_Bounds)"
proof (intro conjI)
  have refs: "hash_refs unlucky_vertex"
    by (simp add: hash_refs_def unlucky_vertex_def Vertex_def)
  show "text_vertex unlucky_vertex"
    using refs by (simp add: text_vertex_def) (simp add: unlucky_vertex_def Vertex_def DELIM_def)
  show "serialize_data MAX_STREAM_SIZE unlucky_vertex = Inr (wire unlucky_vertex)"
    using serialize_wire [OF refs] length_wire [OF refs]
    by (simp add: unlucky_vertex_def Vertex_def MAX_STREAM_SIZE_def)
  have len: "length (wire unlucky_vertex) = 49"
    using length_wire [OF refs] by (simp add: unlucky_vertex_def Vertex_def)
  from len scan_unlucky show "c_recvn Still_Open (wire unlucky_vertex) (length (wire unlucky_vertex)) [] = Some (Inl Out_Of_Bounds)"
    by (simp add: c_recvn_def recv_loop_batch MAX_STREAM_SIZE_def)
qed

subsection \<open>When c\_recvn comes back\<close>

lemma scan_segments_adds:
  assumes "scan_segments bs i seg vs = Inr (found, seg', vs')"
  shows "\<exists>new. vs' = vs @ new \<and>
    (found \<longrightarrow> new \<noteq> [] \<and> 4 \<le> length bs \<and> bs ! (length bs - 4) = DELIM \<and> bs ! (length bs - 1) = DELIM)"
  using assms
proof (induction bs i seg vs rule: scan_segments.induct)
  case (1 bs i seg vs)
  show ?case
  proof (cases "i < length bs \<and> bs ! i = DELIM \<and> buf_at bs (i + 3) = Inr DELIM")
    case False
    with 1 show ?thesis
      by (subst (asm) (3) scan_segments.simps) (auto simp: bindR_Inr_iff split: if_splits)
  next
    case True
    then have i: "i + 3 < length bs" "bs ! i = DELIM" "bs ! (i + 3) = DELIM" "i < length bs"
      by (auto simp: buf_at_def NUL_def DELIM_def split: if_splits)
    let ?size = "int (i + 3) - seg + 1"
    from "1.prems" i obtain v where size: "\<not> ?size < 0"
      and v: "deserialize_data MAX_STREAM_SIZE (take (nat ?size) (drop (nat seg) bs)) = Inr v"
      and rest: "(if i + 4 < length bs then scan_segments bs (i + 4) (int (i + 3) + 1) (vs @ [v])
         else Inr (True, int (i + 3) + 1, vs @ [v])) = Inr (found, seg', vs')"
      by (subst (asm) scan_segments.simps) (auto simp: buf_at_def bindR_Inr_iff Let_def add.commute split: if_split_asm)
    show ?thesis
    proof (cases "i + 4 < length bs")
      case more: True
      from "1.IH"(1) [OF i(4,2) refl refl refl size refl, of v] more rest
      show ?thesis by (auto simp: add.commute)
    next
      case False
      then have "length bs - 4 = i" "length bs - 1 = i + 3" using i(1) by simp_all
      then show ?thesis using False rest i by auto
    qed
  qed
qed

text \<open>
  A call that comes back has taken a whole number of batches, of which the last ends with the
  delimiter pattern, and has found a vertex.
\<close>

definition took_batches :: "string \<Rightarrow> nat \<Rightarrow> string \<Rightarrow> bool" where
  "took_batches stream len rest \<longleftrightarrow> (\<exists>n > 0. n * len \<le> length stream \<and> 4 \<le> len \<and> rest = drop (n * len) stream \<and>
     stream ! (n * len - 4) = DELIM \<and> stream ! (n * len - 1) = DELIM)"

lemma took_batches_more:
  assumes "took_batches (drop len stream) len rest" and "len \<le> length stream"
  shows "took_batches stream len rest"
proof -
  obtain n where n: "0 < n" "n * len \<le> length stream - len" "4 \<le> len" "rest = drop (n * len) (drop len stream)"
    "drop len stream ! (n * len - 4) = DELIM" "drop len stream ! (n * len - 1) = DELIM"
    using assms(1) by (auto simp: took_batches_def)
  then have "len \<le> n * len" by simp
  with n(3) have "4 \<le> n * len" by linarith
  then have "len + (n * len - 4) = Suc n * len - 4" "len + (n * len - 1) = Suc n * len - 1"
    by simp_all
  then have "stream ! (Suc n * len - 4) = DELIM" "stream ! (Suc n * len - 1) = DELIM"
    using n(5,6) assms(2) by simp_all
  then show ?thesis
    unfolding took_batches_def using n assms(2) by (intro exI [of _ "Suc n"]) (simp add: add.commute)
qed

lemma recv_loop_takes:
  assumes "recv_loop en stream len seg vs = Some (Inr (vs', rest))"
  shows "took_batches stream len rest \<and> (\<exists>new. vs' = vs @ new \<and> new \<noteq> [])"
proof -
  let ?P = "\<lambda>en stream len seg vs r. r = Inr (vs', rest) \<longrightarrow>
      took_batches stream len rest \<and> (\<exists>new. vs' = vs @ new \<and> new \<noteq> [])"
  have "recv_loop en stream len seg vs = Some r \<Longrightarrow> ?P en stream len seg vs r" for en stream len seg vs r
  proof (erule recv_loop.raw_induct [where P = ?P, rotated])
    fix f en stream len seg vs r
    assume IH: "\<And>en stream len seg vs r. f en stream len seg vs = Some r \<Longrightarrow> ?P en stream len seg vs r"
      and step: "(case recv_waitall MAX_STREAM_SIZE en stream len of
          None \<Rightarrow> None
        | Some (Inl e) \<Rightarrow> Some (Inl e)
        | Some (Inr None) \<Rightarrow> Some (Inl Exit_Failure)
        | Some (Inr (Some bs)) \<Rightarrow>
            if length bs \<noteq> len then Some (Inl Exit_Failure)
            else (case scan_segments bs 0 seg vs of
              Inl e \<Rightarrow> Some (Inl e)
            | Inr (found, seg', vs') \<Rightarrow>
                if found then Some (Inr (vs', drop len stream)) else f en (drop len stream) len seg' vs')) = Some r"
    show "?P en stream len seg vs r"
    proof
      assume r: "r = Inr (vs', rest)"
      from step r obtain bs where bs: "recv_waitall MAX_STREAM_SIZE en stream len = Some (Inr (Some bs))" "length bs = len"
        by (auto split: option.splits sum.splits if_splits)
      then have take: "bs = take len stream"
        by (auto simp: recv_waitall_def split: if_splits)
      then have le: "len \<le> length stream" using bs(2) by (metis length_take min.cobounded1)
      from step r bs obtain found seg' mid where scan: "scan_segments bs 0 seg vs = Inr (found, seg', mid)"
        and out: "(if found then Some (Inr (mid, drop len stream)) else f en (drop len stream) len seg' mid) = Some (Inr (vs', rest))"
        by (auto split: sum.splits prod.splits)
      from scan_segments_adds [OF scan] obtain new where new: "mid = vs @ new"
        "found \<longrightarrow> new \<noteq> [] \<and> 4 \<le> len \<and> bs ! (len - 4) = DELIM \<and> bs ! (len - 1) = DELIM"
        using bs(2) by auto
      show "took_batches stream len rest \<and> (\<exists>new. vs' = vs @ new \<and> new \<noteq> [])"
      proof (cases found)
        case True
        with new(2) take le have "took_batches stream len (drop len stream)"
          unfolding took_batches_def by (intro exI [of _ 1]) auto
        with True out new show ?thesis by auto
      next
        case False
        with out have "f en (drop len stream) len seg' mid = Some (Inr (vs', rest))" by simp
        from IH [OF this] new(1) took_batches_more [OF _ le] show ?thesis by auto
      qed
    qed
  qed
  with assms show ?thesis by blast
qed

lemma recv_loop_ends:
  assumes "0 < len" and "en \<noteq> Still_Open"
  shows "recv_loop en stream len seg vs \<noteq> None"
  using assms(1)
proof (induction stream arbitrary: seg vs rule: length_induct)
  case (1 stream)
  show ?case
  proof (cases "recv_waitall MAX_STREAM_SIZE en stream len")
    case None
    then show ?thesis using assms(2) by (auto simp: recv_waitall_def split: if_splits)
  next
    case (Some received)
    have "recv_loop en (drop len stream) len seg' vs' \<noteq> None" if "len = length bs" "take len stream = bs" for seg' vs' bs
    proof -
      have "len \<le> length stream" using that by (metis length_take min.cobounded1)
      with 1 assms(1) show ?thesis by auto
    qed
    with Some show ?thesis
      by (subst recv_loop.simps) (auto simp: recv_waitall_def split: sum.split option.split if_splits)
  qed
qed

text \<open>
  C37. The framing of a vertex is right exactly if its header is: for a vertex with a text payload
  and hexadecimal references, of what \<open>serialize_data\<close> and \<open>attach_length_to_msg\<close> make of it
  \<open>c_recvn\<close> reads back this vertex and leaves the rest of the stream if and only if the twenty
  binary bytes in front of the payload (length, round, creator, payload length) contain no two
  \<open>#\<close> three places apart. The payload, the references and the counters around them never matter.
\<close>

theorem c_recvn_reads_vertex_iff:
  assumes "text_vertex v" and "serialize_data MAX_STREAM_SIZE v = Inr stream"
    and "attach_length_to_msg stream (length stream) = Inr msg" and "en \<noteq> Failing"
  shows "c_recvn en (msg @ rest) (length stream) [] = Some (Inr ([v], rest)) \<longleftrightarrow>
    clean (wire_header (be_enc 4 (length stream)) v)"
proof -
  let ?h = "be_enc 4 (length stream)" and ?b = "be_enc 4 (length stream) @ wire_body v"
  have refs: "hash_refs v" using assms(1) by (simp add: text_vertex_def)
  then have stream: "stream = wire v" "length stream \<le> MAX_STREAM_SIZE"
    using assms(2) serialize_wire [OF refs] by (auto split: if_splits)
  have msg: "msg = ?b @ replicate 4 DELIM"
    using assms(3) by (auto simp: attach_length_to_msg_def stream(1) wire_def split: if_splits)
  have len: "length stream = length msg" by (simp add: msg stream(1) wire_def)
  show ?thesis
  proof
    assume "clean (wire_header ?h v)"
    then have "good_segment (?h, v)"
      using framed_header_iff [OF assms(1)] refs by (simp add: good_segment_def)
    moreover have "segment (?h, v) = msg" by (simp add: segment_def msg)
    ultimately show "c_recvn en (msg @ rest) (length stream) [] = Some (Inr ([v], rest))"
      using c_recvn_segments [of "[(?h, v)]" en rest] assms(4) stream(2) by (simp add: len)
  next
    assume reads: "c_recvn en (msg @ rest) (length stream) [] = Some (Inr ([v], rest))"
    show "clean (wire_header ?h v)"
    proof (rule ccontr)
      assume "\<not> clean (wire_header ?h v)"
      then have "\<not> framed ?b" using framed_header_iff [OF assms(1)] by simp
      then have "\<exists>i. i < length ?b \<and> msg ! i = DELIM \<and> msg ! (i + 3) = DELIM"
      proof -
        have pat: "msg ! j = (?b @ replicate 3 DELIM) ! j" if "j < length ?b + 3" for j
        proof -
          have "replicate 4 DELIM = replicate 3 DELIM @ [DELIM]" by (simp add: numeral_eq_Suc)
          then have "msg = (?b @ replicate 3 DELIM) @ [DELIM]" unfolding msg by simp
          with that show ?thesis by (simp only: nth_append_left length_append length_replicate)
        qed
        from \<open>\<not> framed ?b\<close> obtain i where i: "i + 3 < length (?b @ replicate 3 DELIM)"
          "(?b @ replicate 3 DELIM) ! i = DELIM" "(?b @ replicate 3 DELIM) ! (i + 3) = DELIM"
          unfolding framed_def clean_iff by blast
        then have "i < length ?b" by simp
        with i pat [of i] pat [of "i + 3"] show ?thesis by auto
      qed
      then obtain m where m: "m < length ?b" "msg ! m = DELIM" "msg ! (m + 3) = DELIM"
        and first: "\<forall>j < m. \<not> (j < length ?b \<and> msg ! j = DELIM \<and> msg ! (j + 3) = DELIM)"
        using exists_least_iff [of "\<lambda>i. i < length ?b \<and> msg ! i = DELIM \<and> msg ! (i + 3) = DELIM"] by blast
      have more: "m + 4 < length msg" using m(1) by (simp add: msg)
      then have skip: "scan_segments msg 0 0 [] = scan_segments msg m 0 []"
        using first m(1) by (intro scan_segments_skip) auto
      from more m(2,3) have hit: "scan_segments msg m 0 [] =
          bindR (deserialize_data MAX_STREAM_SIZE (take (m + 4) msg)) (\<lambda>w. scan_segments msg (m + 4) (int (m + 4)) [w])"
        using scan_segments_hit [of msg m 0 "[]"] by simp
      have "recv_loop en (msg @ rest) (length msg) 0 [] = Some (Inr ([v], rest))"
        using reads by (simp add: c_recvn_def len)
      moreover have "recv_loop en (msg @ rest) (length msg) 0 [] =
          (case scan_segments msg 0 0 [] of Inl e \<Rightarrow> Some (Inl e)
           | Inr (found, seg', vs') \<Rightarrow> if found then Some (Inr (vs', rest)) else recv_loop en rest (length msg) seg' vs')"
      proof -
        have "drop (length msg) (msg @ rest) = rest" "take (length msg) (msg @ rest) = msg"
          "length msg \<le> length (msg @ rest)" by simp_all
        with recv_loop_batch [OF assms(4) this(3), of 0 "[]"] stream(2) show ?thesis by (simp only: len)
      qed
      ultimately obtain found seg' vs' where scan: "scan_segments msg 0 0 [] = Inr (found, seg', vs')"
        and out: "(if found then Some (Inr (vs', rest)) else recv_loop en rest (length msg) seg' vs') = Some (Inr ([v], rest))"
        by (auto split: sum.splits)
      from scan obtain w where "scan_segments msg (m + 4) (int (m + 4)) [w] = Inr (found, seg', vs')"
        unfolding skip hit by (auto simp: bindR_Inr_iff)
      from scan_segments_adds [OF this] obtain new where new: "vs' = w # new" "found \<longrightarrow> new \<noteq> []" by auto
      with out show False
        by (cases found) (auto dest!: recv_loop_takes)
    qed
  qed
qed

theorem c_recvn_reads_vertex_iff_witness:
  "c_recvn Still_Open ((be_enc 4 164 @ drop 4 (wire demo_vertex)) @ ''next'') 164 [] = Some (Inr ([demo_vertex], ''next''))"
proof -
  have tv: "text_vertex demo_vertex"
    using hash_refs_demo by (simp add: text_vertex_def) (simp add: demo_vertex_def Vertex_def DELIM_def)
  have len: "length (wire demo_vertex) = 164"
    using length_wire [OF hash_refs_demo] by (simp add: demo_vertex_def Vertex_def HEX_HASH_def)
  then have wire: "serialize_data MAX_STREAM_SIZE demo_vertex = Inr (wire demo_vertex)"
    using serialize_wire [OF hash_refs_demo] by (simp add: MAX_STREAM_SIZE_def)
  have msg: "attach_length_to_msg (wire demo_vertex) (length (wire demo_vertex)) = Inr (be_enc 4 164 @ drop 4 (wire demo_vertex))"
    by (simp add: attach_length_to_msg_def len)
  have "clean (wire_header (be_enc 4 164) demo_vertex)" by code_simp
  with c_recvn_reads_vertex_iff [OF tv wire msg, of Still_Open "''next''"] show ?thesis by (simp add: len)
qed

text \<open>
  C40. \<open>c_recvn\<close> waits for a packet and for nothing else: of a well-formed packet of at most
  64 KiB of which \<open>k\<close> bytes (or all, and bytes behind it) have arrived, it comes back with the
  vertices exactly if the packet is complete; before that it blocks while the connection is
  open and makes the process exit when it is closed. In general, whatever is on the connection,
  a call that comes back has taken a whole number of batches of the length asked for, the last of
  which ends with the delimiter pattern, and on a connection that has ended it never blocks.
\<close>

theorem c_recvn_waits:
  assumes "\<forall>p \<in> set ps. good_segment p" and "ps \<noteq> []" and "msg = concat (map segment ps)"
    and "length msg \<le> MAX_STREAM_SIZE" and "0 < len"
  shows "c_recvn Still_Open (take k (msg @ rest)) (length msg) [] =
      (if length msg \<le> k then Some (Inr (map snd ps, take (k - length msg) rest)) else None) \<and>
    c_recvn Closed (take k (msg @ rest)) (length msg) [] =
      (if length msg \<le> k then Some (Inr (map snd ps, take (k - length msg) rest)) else Some (Inl Exit_Failure)) \<and>
    (c_recvn en stream len vs = Some (Inr (vs', left)) \<longrightarrow>
      (\<exists>n > 0. n * len \<le> length stream \<and> left = drop (n * len) stream \<and>
        stream ! (n * len - 4) = DELIM \<and> stream ! (n * len - 1) = DELIM)) \<and>
    (en \<noteq> Still_Open \<longrightarrow> c_recvn en stream len vs \<noteq> None)"
proof (intro conjI impI)
  have whole: "c_recvn en' (msg @ rest') (length msg) [] = Some (Inr (map snd ps, rest'))" if "en' \<noteq> Failing" for en' rest'
    using c_recvn_segments [OF assms(1,2) _ that] assms(3,4) by simp
  show "c_recvn Still_Open (take k (msg @ rest)) (length msg) [] =
      (if length msg \<le> k then Some (Inr (map snd ps, take (k - length msg) rest)) else None)"
    using whole [of Still_Open] recv_loop_short [of "take k (msg @ rest)" "length msg"] assms(4)
    by (simp add: c_recvn_def)
  show "c_recvn Closed (take k (msg @ rest)) (length msg) [] =
      (if length msg \<le> k then Some (Inr (map snd ps, take (k - length msg) rest)) else Some (Inl Exit_Failure))"
    using whole [of Closed] recv_loop_short [of "take k (msg @ rest)" "length msg"] assms(4)
    by (simp add: c_recvn_def)
next
  assume "c_recvn en stream len vs = Some (Inr (vs', left))"
  then show "\<exists>n > 0. n * len \<le> length stream \<and> left = drop (n * len) stream \<and>
      stream ! (n * len - 4) = DELIM \<and> stream ! (n * len - 1) = DELIM"
    using recv_loop_takes [of en stream len 0 vs vs' left] by (auto simp: c_recvn_def took_batches_def)
next
  assume "en \<noteq> Still_Open"
  then show "c_recvn en stream len vs \<noteq> None"
    using recv_loop_ends [OF assms(5)] by (simp add: c_recvn_def)
qed

theorem c_recvn_waits_witness:
  "c_recvn Still_Open (take 100 (segment (replicate 4 NUL, demo_vertex) @ ''next'')) 164 [] = None \<and>
   c_recvn Still_Open (take 166 (segment (replicate 4 NUL, demo_vertex) @ ''next'')) 164 [] = Some (Inr ([demo_vertex], ''ne''))"
proof -
  let ?ps = "[(replicate 4 NUL, demo_vertex)]"
  have good: "\<forall>p \<in> set ?ps. good_segment p" "?ps \<noteq> []" "segment (replicate 4 NUL, demo_vertex) = concat (map segment ?ps)"
    "length (segment (replicate 4 NUL, demo_vertex)) \<le> MAX_STREAM_SIZE" "(0 :: nat) < 164"
    using good_segment_demo by (simp_all add: length_segment_demo MAX_STREAM_SIZE_def)
  show ?thesis
    using c_recvn_waits [OF good, of 100 "''next''"] c_recvn_waits [OF good, of 166 "''next''"]
    by (simp add: length_segment_demo)
qed

section \<open>examine\_msg and process\_request\<close>

datatype msg_type = REQ_MSG | REG_MSG | FIN_MSG

text \<open>
  \<open>peeked\<close> is what \<open>recv\<close> with \<open>MSG_PEEK\<close> found: an error, or the bytes that had arrived (none
  when the other side has closed). Of a vertex message the first four bytes are stored in
  \<open>bytes\<close>; if fewer have arrived, the rest are the zeros that were in the buffer.
\<close>

definition examine_msg :: "string option \<Rightarrow> string \<Rightarrow> (msg_type \<times> string) res" where
  "examine_msg peeked bytes =
     (case peeked of
        None \<Rightarrow> Inl Exit_Failure
      | Some buffer \<Rightarrow>
          if buffer = [] then Inr (FIN_MSG, bytes)
          else if hd buffer = PREFIX then Inr (REQ_MSG, bytes)
          else Inr (REG_MSG, take 4 (buffer @ replicate 4 NUL)))"

text \<open>
  A request is \<open>?\<close>, a hash in hexadecimal and the id of the peer that asks. Of a request that is
  cut short by the end of the connection the missing bytes are the zeros that were in the buffer.
\<close>

definition process_request :: "conn_end \<Rightarrow> string \<Rightarrow> ((string \<times> u64) \<times> string) comp" where
  "process_request en stream =
     (let len = 8 + HEX_HASH + 1 in
      bindC (recv_waitall MAX_STREAM_SIZE en stream len) (\<lambda>received.
      case received of
        None \<Rightarrow> Some (Inl Exit_Failure)
      | Some bs \<Rightarrow>
          let buffer = bs @ replicate (len - length bs) NUL;
              hash = take HEX_HASH (drop 1 buffer);
              peer_ID = take 8 (drop (HEX_HASH + 1) buffer)
          in Some (Inr ((hash, word_of_nat (be_dec peer_ID)), drop len stream))))"

lemma process_request_failing [simp]: "process_request Failing stream = Some (Inl Exit_Failure)"
  by (simp add: process_request_def recv_waitall_def Let_def)

lemma examine_msg_packet:
  assumes "attach_length_to_msg buf n = Inr msg" and "n < 2 ^ 24" and "4 \<le> k"
  shows "\<exists>bytes. examine_msg (Some (take k (msg @ rest))) old = Inr (REG_MSG, bytes) \<and> be_dec bytes = n"
proof -
  have msg: "msg = be_enc 4 n @ drop 4 buf"
    using assms(1) by (auto simp: attach_length_to_msg_def split: if_splits)
  have first: "be_enc 4 n = NUL # be_enc 3 n"
    using be_enc_Suc_Cons [of 3 n] assms(2) by simp
  have four: "take 4 (take k (msg @ rest) @ replicate 4 NUL) = be_enc 4 n"
    using assms(3) by (simp add: msg)
  have "take k (msg @ rest) \<noteq> []" and "hd (take k (msg @ rest)) = NUL"
    using assms(3) by (auto simp: msg first)
  then have "examine_msg (Some (take k (msg @ rest))) old = Inr (REG_MSG, be_enc 4 n)"
    using four by (simp add: examine_msg_def PREFIX_def NUL_def)
  moreover have "be_dec (be_enc 4 n) = n"
    using assms(2) by simp
  ultimately show ?thesis by blast
qed

text \<open>
  Requests and vertex messages cannot be confused: with the length of a message of less than
  \<open>2 ^ 24\<close> bytes in front, \<open>examine_msg\<close> reports a vertex message and the length, once the four
  bytes of the length have arrived.
\<close>

theorem examine_msg_regular:
  assumes "attach_length_to_msg buf n = Inr msg" and "n < 2 ^ 24" and "4 \<le> k"
  shows "\<exists>bytes. examine_msg (Some (take k (msg @ rest))) old = Inr (REG_MSG, bytes) \<and> be_dec bytes = n"
  using assms by (rule examine_msg_packet)

theorem examine_msg_regular_witness:
  "\<exists>bytes. examine_msg (Some (take 6 (be_enc 4 164 @ drop 4 (wire demo_vertex) @ []))) [] = Inr (REG_MSG, bytes) \<and>
     be_dec bytes = 164"
proof -
  have "attach_length_to_msg (wire demo_vertex) 164 = Inr (be_enc 4 164 @ drop 4 (wire demo_vertex))"
    by (simp add: attach_length_to_msg_def wire_def)
  from examine_msg_regular [OF this, of 6 "[]" "[]"] show ?thesis by simp
qed

end
