(* ===== verification/Client.thy ===== *)
theory Client
  imports Prelude
begin

text \<open>
  The class \<open>Client\<close> of \<open>networking.h\<close> and \<open>networking.cpp\<close>: the outgoing connections of a
  peer. \<open>peers\<close> lists the ids of the other validators in the order of the address file,
  \<open>c_sockets\<close> the connections in the same order, and \<open>socket_map\<close> leads from an id to its
  connection.
\<close>

record client =
  cl_domain :: int
  cl_type :: int
  cl_protocol :: int
  peers :: "u64 list"
  cl_termination_round :: int
  c_sockets :: "int list"
  socket_map :: "u64 \<rightharpoonup> int"

definition Client :: "int \<Rightarrow> int \<Rightarrow> int \<Rightarrow> int \<Rightarrow> client" where
  "Client domain type protocol termination_round =
     \<lparr>cl_domain = domain, cl_type = type, cl_protocol = protocol, peers = [],
      cl_termination_round = termination_round, c_sockets = [], socket_map = Map.empty\<rparr>"

section \<open>Operations\<close>

text \<open>\<open>socket\<close>: a negative descriptor makes the process exit.\<close>

definition c_socket :: "int \<Rightarrow> int res" where
  "c_socket fd = (if fd < 0 then Inl Exit_Failure else Inr fd)"

text \<open>The connections that are shut down, and the client afterwards.\<close>

definition close_sockets :: "client \<Rightarrow> int list \<times> client" where
  "close_sockets c = (c_sockets c, c\<lparr>c_sockets := []\<rparr>)"

definition c_connect :: "int \<Rightarrow> unit res" where
  "c_connect a = (if a < 0 then Inl Exit_Failure else Inr ())"

text \<open>
  What the environment answers for one address: the results of \<open>socket\<close> and \<open>connect\<close>, and
  the content of \<open>value\<close> after reading the file that the other peer has named after its port.
  (When the file cannot be opened, this is whatever the variable held before; the model leaves
  it open.)
\<close>

record conn =
  conn_socket :: int
  conn_connect :: int
  conn_value :: u64

fun connect_loop :: "(nat \<Rightarrow> conn) \<Rightarrow> nat \<Rightarrow> (string \<times> int) list \<Rightarrow> client \<Rightarrow> client res" where
  "connect_loop os i [] c = Inr c"
| "connect_loop os i (server # servers) c =
     bindR (c_socket (conn_socket (os i))) (\<lambda>new_socket.
     bindR (c_connect (conn_connect (os i))) (\<lambda>_.
     connect_loop os (Suc i) servers
       (c\<lparr>c_sockets := c_sockets c @ [new_socket],
          socket_map := (socket_map c)(conn_value (os i) \<mapsto> new_socket),
          peers := peers c @ [conn_value (os i)]\<rparr>)))"

definition connect_to :: "(nat \<Rightarrow> conn) \<Rightarrow> (string \<times> int) list \<Rightarrow> client \<Rightarrow> client res" where
  "connect_to os servers c = connect_loop os 0 servers c"

text \<open>
  \<open>operator[]\<close> of \<open>std::unordered_map\<close> inserts a value-initialised element for a key that is
  absent: an unknown id yields descriptor 0 and changes the map.
\<close>

definition get_socket :: "u64 \<Rightarrow> client \<Rightarrow> int \<times> client" where
  "get_socket peer_ID c =
     (case socket_map c peer_ID of
        Some s \<Rightarrow> (s, c)
      | None \<Rightarrow> (0, c\<lparr>socket_map := (socket_map c)(peer_ID \<mapsto> 0)\<rparr>))"

definition get_peer_id_at :: "int \<Rightarrow> client \<Rightarrow> u64 res" where
  "get_peer_id_at index c = vec_at (peers c) index"

section \<open>Move operations\<close>

text \<open>
  \<open>g\<close> is the indeterminate value of a member that the constructor does not initialise. The
  pair is the new object and the source afterwards.
\<close>

definition client_move :: "int \<Rightarrow> client \<Rightarrow> client \<times> client" where
  "client_move g source =
     (\<lparr>cl_domain = cl_domain source, cl_type = cl_type source, cl_protocol = cl_protocol source,
       peers = [], cl_termination_round = g, c_sockets = c_sockets source, socket_map = Map.empty\<rparr>,
      source\<lparr>cl_domain := - 1, cl_protocol := - 1, cl_type := - 1, c_sockets := []\<rparr>)"

definition client_move_assign :: "client \<Rightarrow> client \<Rightarrow> client \<times> client" where
  "client_move_assign this source =
     (this\<lparr>cl_domain := cl_domain source, cl_protocol := cl_protocol source,
           cl_type := cl_type source, c_sockets := c_sockets source\<rparr>,
      source\<lparr>cl_domain := - 1, cl_protocol := - 1, cl_type := - 1, c_sockets := []\<rparr>)"

section \<open>A connected client\<close>

text \<open>
  What the peer relies on after \<open>connect_to\<close>: ids and connections correspond position by
  position. Removing connections from \<open>c_sockets\<close> later leaves \<open>peers\<close> and \<open>socket_map\<close> alone.
\<close>

definition connected :: "(nat \<Rightarrow> conn) \<Rightarrow> nat \<Rightarrow> client \<Rightarrow> bool" where
  "connected os n c \<longleftrightarrow>
     peers c = map (\<lambda>i. conn_value (os i)) [0..<n] \<and>
     c_sockets c = map (\<lambda>i. conn_socket (os i)) [0..<n] \<and>
     dom (socket_map c) = set (peers c) \<and>
     (\<forall>i < n. (\<forall>j < n. conn_value (os i) = conn_value (os j) \<longrightarrow> j \<le> i) \<longrightarrow>
        socket_map c (conn_value (os i)) = Some (conn_socket (os i)))"

lemma connect_loop_connected:
  assumes "connected os i c" and "connect_loop os i servers c = Inr c'"
  shows "connected os (i + length servers) c'"
  using assms
proof (induction servers arbitrary: i c)
  case Nil
  then show ?case by simp
next
  case (Cons s servers)
  let ?c = "c\<lparr>c_sockets := c_sockets c @ [conn_socket (os i)],
      socket_map := (socket_map c)(conn_value (os i) \<mapsto> conn_socket (os i)),
      peers := peers c @ [conn_value (os i)]\<rparr>"
  have "connect_loop os (Suc i) servers ?c = Inr c'"
    using Cons.prems(2) by (auto simp: bindR_Inr_iff c_socket_def split: if_splits)
  moreover have "connected os (Suc i) ?c"
    using Cons.prems(1) by (auto simp: connected_def less_Suc_eq)
  ultimately show ?case
    using Cons.IH by fastforce
qed

lemma connect_loop_Inr:
  assumes "\<And>j. i \<le> j \<Longrightarrow> j < i + length servers \<Longrightarrow> 0 \<le> conn_socket (os j) \<and> 0 \<le> conn_connect (os j)"
  shows "\<exists>c'. connect_loop os i servers c = Inr c'"
  using assms
proof (induction servers arbitrary: i c)
  case (Cons s servers)
  from Cons.prems [of i] have "0 \<le> conn_socket (os i)" "0 \<le> conn_connect (os i)"
    by auto
  moreover have "\<exists>c'. connect_loop os (Suc i) servers d = Inr c'" for d
    using Cons.prems by (intro Cons.IH) auto
  ultimately show ?case
    by (simp add: c_socket_def c_connect_def)
qed simp

text \<open>
  \<open>connect_to\<close>, when every call of the system succeeds, leaves one id and one connection for
  each address, in the order of the addresses, and looking up an id that no later address
  repeats finds the connection made for it.
\<close>

theorem connect_to_connects:
  assumes "\<forall>i < length servers. 0 \<le> conn_socket (os i) \<and> 0 \<le> conn_connect (os i)"
  shows "\<exists>c. connect_to os servers (Client d t p r) = Inr c \<and> connected os (length servers) c \<and>
    (\<forall>i < length servers.
       get_peer_id_at (int i) c = Inr (conn_value (os i)) \<and>
       ((\<forall>j < length servers. conn_value (os i) = conn_value (os j) \<longrightarrow> j \<le> i) \<longrightarrow>
        get_socket (conn_value (os i)) c = (conn_socket (os i), c)))"
proof -
  obtain c where c: "connect_loop os 0 servers (Client d t p r) = Inr c"
    using connect_loop_Inr [of 0 servers os] assms by auto
  have "connected os 0 (Client d t p r)"
    by (simp add: connected_def Client_def)
  from connect_loop_connected [OF this c] have "connected os (length servers) c"
    by simp
  then show ?thesis
    using c by (auto simp: connect_to_def connected_def get_peer_id_at_def vec_at_def get_socket_def)
qed

theorem connect_to_connects_witness:
  "\<exists>c. connect_to (\<lambda>i. \<lparr>conn_socket = 5, conn_connect = 0, conn_value = 77\<rparr>) [(''127.0.0.1'', 4999)] (Client 2 1 6 9) = Inr c \<and>
     get_socket 77 c = (5, c)"
  using connect_to_connects [of "[(''127.0.0.1'', 4999)]" "\<lambda>i. \<lparr>conn_socket = 5, conn_connect = 0, conn_value = 77\<rparr>" 2 1 6 9]
  by auto

text \<open>
  The move constructor and the move assignment of \<open>Client\<close> transfer the connections but not
  the table of ids: after a move the new object has connections to peers of which it can
  name none.
\<close>

theorem client_move_loses_ids:
  assumes "client_move g source = (new, old)"
  shows "c_sockets new = c_sockets source \<and> c_sockets old = [] \<and> socket_map new = Map.empty \<and>
    (\<forall>i. get_peer_id_at i new = Inl Out_Of_Bounds)"
  using assms by (auto simp: client_move_def get_peer_id_at_def vec_at_def)

theorem client_move_loses_ids_witness:
  "get_peer_id_at 0 (fst (client_move 0 ((Client 2 1 6 9)\<lparr>peers := [77], c_sockets := [5]\<rparr>))) = Inl Out_Of_Bounds"
  using client_move_loses_ids [of 0 "(Client 2 1 6 9)\<lparr>peers := [77], c_sockets := [5]\<rparr>"]
  by (auto simp: client_move_def)

end
