(* ===== verification/Server.thy ===== *)
theory Server
  imports Threadsafe Messages Client
begin

unbundle bit_operations_syntax

text \<open>
  The class \<open>Server\<close> of \<open>networking.h\<close> and \<open>networking.cpp\<close>: the thread that accepts
  connections, receives requests and vertices, keeps the map from hashes to vertices and hands
  what is new to the peer's main thread. The loop of \<open>start\<close> is split into the handling of one
  epoll event (\<open>handle_event\<close>), of all events of one wait (\<open>poll_once\<close>) and the hand-over
  (\<open>hand_over\<close>); the flag and the lock that guard the hand-over are the theory \<open>Handshake\<close>.
\<close>

section \<open>State\<close>

record server =
  s_domain :: int
  s_type :: int
  s_protocol :: int
  listen_q :: int
  s_socket :: int
  s_port :: int
  s_termination_round :: int
  in_address :: "int \<times> int \<times> int"
  scan_buffer_thread_ready :: bool
  vertex_map :: "(string, vertex) umap"
  is_up :: bool

text \<open>
  The local variables of \<open>start\<close>. \<open>watched\<close> is the set of descriptors registered with epoll,
  \<open>net\<close> what is still to be read from each connection.
\<close>

record server_vars =
  watched :: "int set"
  net :: "int \<Rightarrow> string"
  temp_list :: "vertex list"
  temp_request_list :: "(u64 \<times> vertex) list"
  bytes_to_recv :: string

text \<open>\<open>Server::MAXSIZE\<close> and the event bit for input.\<close>

definition MAXSIZE :: nat where "MAXSIZE = 1024"
definition EPOLLIN :: u32 where "EPOLLIN = 1"

text \<open>The constructor, given the results of \<open>socket\<close> and \<open>bind\<close>; \<open>htons\<close> keeps 16 bits of the port.\<close>

definition Server :: "int \<Rightarrow> int \<Rightarrow> int \<Rightarrow> int \<Rightarrow> int \<Rightarrow> int \<Rightarrow> int \<Rightarrow> int \<Rightarrow> server res" where
  "Server fd bound domain type protocol port q termination_round =
     bindR (c_socket fd) (\<lambda>sock.
     if bound < 0 then Inl Exit_Failure
     else Inr \<lparr>s_domain = domain, s_type = type, s_protocol = protocol, listen_q = q,
               s_socket = sock, s_port = port, s_termination_round = termination_round,
               in_address = (domain, port mod 2 ^ 16, 0), scan_buffer_thread_ready = False,
               vertex_map = Map.empty, is_up = True\<rparr>)"

definition server_init :: "server \<Rightarrow> (int \<Rightarrow> string) \<Rightarrow> server_vars" where
  "server_init s streams =
     \<lparr>watched = {s_socket s}, net = streams, temp_list = [], temp_request_list = [],
      bytes_to_recv = replicate 4 NUL\<rparr>"

section \<open>Small operations\<close>

definition getport :: "server \<Rightarrow> int" where
  "getport s = s_port s"

definition set_thread_ready :: "bool \<Rightarrow> server \<Rightarrow> server" where
  "set_thread_ready state s = s\<lparr>scan_buffer_thread_ready := state\<rparr>"

definition get_thread_flag :: "server \<Rightarrow> bool" where
  "get_thread_flag s = scan_buffer_thread_ready s"

definition add_to_map :: "string \<Rightarrow> vertex \<Rightarrow> server \<Rightarrow> server" where
  "add_to_map key value s = s\<lparr>vertex_map := umap_insert key value (vertex_map s)\<rparr>"

definition find_in_map :: "string \<Rightarrow> vertex option \<Rightarrow> server \<Rightarrow> bool \<times> vertex option" where
  "find_in_map h vertex s = umap_find h vertex (vertex_map s)"

definition c_accept :: "int \<Rightarrow> int res" where
  "c_accept fd = (if fd < 0 then Inl Exit_Failure else Inr fd)"

text \<open>
  \<open>epoll_ctl\<close> fails when a descriptor to add is registered, or one to delete is not.
\<close>

datatype epoll_op = EPOLL_CTL_ADD | EPOLL_CTL_DEL

fun c_epoll_ctl :: "epoll_op \<Rightarrow> int \<Rightarrow> int set \<Rightarrow> int set res" where
  "c_epoll_ctl EPOLL_CTL_ADD fd w = (if fd \<in> w then Inl Exit_Failure else Inr (insert fd w))"
| "c_epoll_ctl EPOLL_CTL_DEL fd w = (if fd \<in> w then Inr (w - {fd}) else Inl Exit_Failure)"

definition c_epoll_wait :: "int \<Rightarrow> nat res" where
  "c_epoll_wait nfds = (if nfds < 0 then Inl Exit_Failure else Inr (nat nfds))"

definition c_epoll_create :: "int \<Rightarrow> int res" where
  "c_epoll_create epfd = (if epfd < 0 then Inl Exit_Failure else Inr epfd)"

text \<open>
  The beginning of \<open>start\<close>, given the result of \<open>epoll_create1\<close>: the listening socket is
  registered with the new epoll instance, and the local variables are set up.
\<close>

definition server_start :: "int \<Rightarrow> server \<Rightarrow> (int \<Rightarrow> string) \<Rightarrow> server_vars res" where
  "server_start epfd s streams =
     bindR (c_epoll_create epfd) (\<lambda>ep_fd.
     bindR (c_epoll_ctl EPOLL_CTL_ADD (s_socket s) {}) (\<lambda>w.
     Inr \<lparr>watched = w, net = streams, temp_list = [], temp_request_list = [],
          bytes_to_recv = replicate 4 NUL\<rparr>))"

lemma server_start_eq:
  "server_start epfd s streams = (if epfd < 0 then Inl Exit_Failure else Inr (server_init s streams))"
  by (simp add: server_start_def c_epoll_create_def server_init_def)

text \<open>
  The descriptors that are closed: by \<open>close_socket\<close>, which leaves the member as it is, and at the
  end of \<open>start\<close>, behind its loop.
\<close>

definition close_socket :: "server \<Rightarrow> int list" where
  "close_socket s = [s_socket s]"

definition server_stop :: "int \<Rightarrow> server \<Rightarrow> int list" where
  "server_stop ep_fd s = [s_socket s, ep_fd]"

section \<open>Move operations\<close>

text \<open>
  Neither transfers the vertex map; \<open>g\<close> is the indeterminate \<open>is_up\<close> of a move-constructed
  server.
\<close>

definition server_drop :: "server \<Rightarrow> server" where
  "server_drop s = s\<lparr>s_domain := - 1, s_protocol := - 1, s_type := - 1, listen_q := - 1,
     s_socket := - 1, s_port := - 1, s_termination_round := - 1,
     scan_buffer_thread_ready := False, in_address := (0, 0, 0)\<rparr>"

definition server_move :: "bool \<Rightarrow> server \<Rightarrow> server \<times> server" where
  "server_move g source =
     (source\<lparr>vertex_map := Map.empty, is_up := g\<rparr>, server_drop source)"

definition server_move_assign :: "server \<Rightarrow> server \<Rightarrow> server \<times> server" where
  "server_move_assign this source =
     (source\<lparr>vertex_map := vertex_map this, is_up := is_up this\<rparr>, server_drop source)"

section \<open>Quorums\<close>

text \<open>
  \<open>std::ceil((double)crowd / 3 - 1)\<close>. The quotient of an \<open>int\<close> by 3 is far enough from an
  integer, when it is not one, for the rounding of \<open>double\<close> not to matter, so it is taken
  exactly.
\<close>

definition max_byzantines :: "int \<Rightarrow> int" where
  "max_byzantines crowd = \<lceil>of_int crowd / (3 :: rat) - 1\<rceil>"

definition majority :: "int \<Rightarrow> int" where
  "majority crowd = size_t (2 * max_byzantines crowd + 1)"

lemma max_byzantines_div: "max_byzantines crowd = (crowd - 1) div 3"
proof -
  define q where "q = (crowd - 1) div 3"
  have "crowd = 3 * q + 1 + (crowd - 1) mod 3"
    unfolding q_def by (metis add.commute add_diff_cancel_left' diff_add_cancel mult_div_mod_eq add.assoc)
  moreover have "0 \<le> (crowd - 1) mod 3" "(crowd - 1) mod 3 < 3" by simp_all
  ultimately have "3 * q + 1 \<le> crowd" "crowd \<le> 3 * q + 3" by linarith+
  then have "(of_int (3 * q + 1) :: rat) \<le> of_int crowd" "(of_int crowd :: rat) \<le> of_int (3 * q + 3)"
    by (simp_all only: of_int_le_iff)
  then have "\<lceil>of_int crowd / (3 :: rat) - 1\<rceil> = q"
    by (intro ceiling_unique) (simp_all add: field_simps)
  then show ?thesis by (simp add: max_byzantines_def q_def)
qed

lemma majority_eq:
  assumes "1 \<le> crowd" and "crowd < 2 ^ 31"
  shows "majority crowd = 2 * ((crowd - 1) div 3) + 1"
  using assms by (simp add: majority_def max_byzantines_div)

section \<open>One event\<close>

text \<open>
  What epoll reports, with the answers of the system that go with it: the descriptor that
  \<open>accept\<close> would return; how many bytes have arrived on the connection when it is peeked, unless
  the peek fails (\<open>Unreadable\<close>) or the \<open>recv\<close> that follows it (\<open>Broken\<close>); and whether the other
  side has closed the connection behind what is to be read.
\<close>

datatype arrival = Unreadable | Arrived nat | Broken nat

record epoll_event =
  ev_fd :: int
  ev_events :: u32
  ev_accepted :: int
  ev_arrived :: arrival
  ev_closed :: bool

fun peeked :: "arrival \<Rightarrow> string \<Rightarrow> string option" where
  "peeked Unreadable bytes = None"
| "peeked (Arrived n) bytes = Some (take (min n MAX_STREAM_SIZE) bytes)"
| "peeked (Broken n) bytes = Some (take (min n MAX_STREAM_SIZE) bytes)"

fun conn_of :: "arrival \<Rightarrow> bool \<Rightarrow> conn_end" where
  "conn_of (Arrived n) ended = (if ended then Closed else Still_Open)"
| "conn_of _ ended = Failing"

lemma conn_of_Failing [simp]: "conn_of a ended = Failing \<longleftrightarrow> (\<forall>n. a \<noteq> Arrived n)"
  by (cases a) auto

type_synonym server_state = "server \<times> server_vars"

text \<open>The loop over the vertices of a message: a quorum of references or round 1, and not seen before.\<close>

definition admissible :: "int \<Rightarrow> vertex \<Rightarrow> bool" where
  "admissible maj v \<longleftrightarrow> maj \<le> int (length (get_refs v)) \<or> get_round v = 1"

definition admit :: "crypto \<Rightarrow> int \<Rightarrow> server_state \<Rightarrow> vertex \<Rightarrow> server_state" where
  "admit C maj = (\<lambda>(s, l) v.
     if admissible maj v then
       (if \<not> fst (umap_find (vertex_hash C v) None (vertex_map s))
        then (s\<lparr>vertex_map := umap_insert (vertex_hash C v) v (vertex_map s)\<rparr>,
              l\<lparr>temp_list := v # temp_list l\<rparr>)
        else (s, l))
     else (s, l))"

definition handle_request :: "conn_end \<Rightarrow> int \<Rightarrow> server_state \<Rightarrow> server_state comp" where
  "handle_request en fd = (\<lambda>(s, l).
     bindC (process_request en (net l fd)) (\<lambda>((hash, pid), rest).
     let l' = l\<lparr>net := (net l)(fd := rest)\<rparr> in
     case umap_find hash (Some moved_from) (vertex_map s) of
       (True, Some v) \<Rightarrow> Some (Inr (s, l'\<lparr>temp_request_list := (pid, v) # temp_request_list l'\<rparr>))
     | _ \<Rightarrow> Some (Inr (s, l'))))"

definition handle_vertices :: "crypto \<Rightarrow> int \<Rightarrow> conn_end \<Rightarrow> int \<Rightarrow> server_state \<Rightarrow> server_state comp" where
  "handle_vertices C maj en fd = (\<lambda>(s, l).
     bindC (c_recvn en (net l fd) (be_dec (bytes_to_recv l)) []) (\<lambda>(vertices, rest).
     Some (Inr (foldl (admit C maj) (s, l\<lparr>net := (net l)(fd := rest)\<rparr>) vertices))))"

definition handle_event :: "crypto \<Rightarrow> int \<Rightarrow> epoll_event \<Rightarrow> server_state \<Rightarrow> server_state comp" where
  "handle_event C maj e = (\<lambda>(s, l).
     let fd = ev_fd e; en = conn_of (ev_arrived e) (ev_closed e) in
     if ev_events e AND EPOLLIN = EPOLLIN then
       (if fd = s_socket s then
          Some (bindR (c_accept (ev_accepted e)) (\<lambda>client_handler_fd.
                bindR (c_epoll_ctl EPOLL_CTL_ADD client_handler_fd (watched l)) (\<lambda>w.
                Inr (s, l\<lparr>watched := w\<rparr>))))
        else
          (case examine_msg (peeked (ev_arrived e) (net l fd)) (bytes_to_recv l) of
             Inl f \<Rightarrow> Some (Inl f)
           | Inr (REQ_MSG, _) \<Rightarrow> handle_request en fd (s, l)
           | Inr (REG_MSG, bytes) \<Rightarrow> handle_vertices C maj en fd (s, l\<lparr>bytes_to_recv := bytes\<rparr>)
           | Inr (FIN_MSG, _) \<Rightarrow>
               Some (bindR (c_epoll_ctl EPOLL_CTL_DEL fd (watched l)) (\<lambda>w.
                     Inr (s, l\<lparr>watched := w\<rparr>)))))
     else Some (Inr (s, l)))"

text \<open>One wait and its events; the second component tells whether there is something to hand over.\<close>

definition poll_once :: "crypto \<Rightarrow> int \<Rightarrow> int \<Rightarrow> (nat \<Rightarrow> epoll_event) \<Rightarrow> server_state \<Rightarrow> (server_state \<times> bool) comp" where
  "poll_once C crowd nfds events st =
     (case c_epoll_wait nfds of
        Inl f \<Rightarrow> Some (Inl f)
      | Inr n \<Rightarrow>
          bindC (foldC (handle_event C (majority crowd)) (map events [0..<n]) st) (\<lambda>(s, l).
          Some (Inr ((s, l), temp_list l \<noteq> [] \<or> temp_request_list l \<noteq> [] \<or> n = 0))))"

text \<open>
  The hand-over, once the flag has been seen: \<open>None\<close> while the server busy-waits for it.
\<close>

definition hand_over ::
    "server_state \<Rightarrow> vertex list \<Rightarrow> (u64 \<times> vertex) list
       \<Rightarrow> (server_state \<times> vertex list \<times> (u64 \<times> vertex) list) option" where
  "hand_over st buffer requests =
     (case st of (s, l) \<Rightarrow>
        if scan_buffer_thread_ready s then
          Some ((s\<lparr>scan_buffer_thread_ready := False\<rparr>, l\<lparr>temp_list := [], temp_request_list := []\<rparr>),
                buffer @ temp_list l, requests @ temp_request_list l)
        else None)"

lemma poll_once_one:
  assumes "handle_event C (majority crowd) (events 0) st = Some (Inr (s, l))"
  shows "poll_once C crowd 1 events st = Some (Inr ((s, l), temp_list l \<noteq> [] \<or> temp_request_list l \<noteq> []))"
  using assms by (simp add: poll_once_def c_epoll_wait_def)

text \<open>What the server has found once, it will find again: vertices are never replaced.\<close>

lemma admit_keeps_found:
  assumes "find_in_map h vertex s = (True, r)"
  shows "find_in_map h vertex (fst (admit C maj (s, l) v)) = (True, r)"
  using vm.first_wins [of h vertex "vertex_map s" r "vertex_hash C v" v] assms
  by (auto simp: admit_def find_in_map_def split: if_splits)

section \<open>What an event changes\<close>

text \<open>
  \<open>grows C maj st st'\<close>: from \<open>st\<close> to \<open>st'\<close> the server has put some vertices in front of its
  list for the main thread, each of them admissible, with a hash that was not in the map and
  is not shared by another of them, and has stored exactly these; what was stored stays.
\<close>

definition grows :: "crypto \<Rightarrow> int \<Rightarrow> server_state \<Rightarrow> server_state \<Rightarrow> bool" where
  "grows C maj st st' \<longleftrightarrow>
     (\<exists>new. temp_list (snd st') = new @ temp_list (snd st) \<and>
        distinct (map (vertex_hash C) new) \<and>
        (\<forall>v \<in> set new. admissible maj v \<and> vertex_hash C v \<notin> dom (vertex_map (fst st)) \<and>
           vertex_map (fst st') (vertex_hash C v) = Some v) \<and>
        dom (vertex_map (fst st')) = dom (vertex_map (fst st)) \<union> vertex_hash C ` set new \<and>
        vertex_map (fst st) \<subseteq>\<^sub>m vertex_map (fst st'))"

lemma grows_refl:
  "vertex_map (fst st') = vertex_map (fst st) \<Longrightarrow> temp_list (snd st') = temp_list (snd st) \<Longrightarrow> grows C maj st st'"
  by (auto simp: grows_def intro: exI [of _ "[]"])

lemma grows_trans:
  assumes "grows C maj st st'" and "grows C maj st' st''"
  shows "grows C maj st st''"
proof -
  let ?h = "vertex_hash C"
  obtain new where new: "temp_list (snd st') = new @ temp_list (snd st)" "distinct (map ?h new)"
    "\<forall>v \<in> set new. admissible maj v \<and> ?h v \<notin> dom (vertex_map (fst st)) \<and> vertex_map (fst st') (?h v) = Some v"
    "dom (vertex_map (fst st')) = dom (vertex_map (fst st)) \<union> ?h ` set new"
    "vertex_map (fst st) \<subseteq>\<^sub>m vertex_map (fst st')"
    using assms(1) unfolding grows_def by blast
  obtain more where more: "temp_list (snd st'') = more @ temp_list (snd st')" "distinct (map ?h more)"
    "\<forall>v \<in> set more. admissible maj v \<and> ?h v \<notin> dom (vertex_map (fst st')) \<and> vertex_map (fst st'') (?h v) = Some v"
    "dom (vertex_map (fst st'')) = dom (vertex_map (fst st')) \<union> ?h ` set more"
    "vertex_map (fst st') \<subseteq>\<^sub>m vertex_map (fst st'')"
    using assms(2) unfolding grows_def by blast
  have "\<forall>v \<in> set new. vertex_map (fst st'') (?h v) = Some v"
    using new(3) more(5) by (metis domI map_le_def)
  moreover have "distinct (map ?h (more @ new))"
    using new more by auto
  ultimately show ?thesis
    unfolding grows_def using new more
    by (intro exI [of _ "more @ new"]) (auto intro: map_le_trans)
qed

lemma admit_grows: "grows C maj st (admit C maj st v)"
proof -
  obtain s l where st: "st = (s, l)" by force
  show ?thesis
  proof (cases "admissible maj v \<and> vertex_map s (vertex_hash C v) = None")
    case True
    then have "vertex_map s \<subseteq>\<^sub>m (vertex_map s)(vertex_hash C v \<mapsto> v)"
      by (auto simp: map_le_def)
    with True show ?thesis
      by (auto simp: st admit_def grows_def umap_insert_def domIff intro: exI [of _ "[v]"])
  next
    case False
    then have "admit C maj st v = st"
      by (auto simp: st admit_def domIff)
    then show ?thesis by (simp add: grows_refl)
  qed
qed

lemma admit_all_grows: "grows C maj st (foldl (admit C maj) st vs)"
proof (induction vs arbitrary: st)
  case Nil
  then show ?case by (simp add: grows_refl)
next
  case (Cons v vs)
  show ?case
    using grows_trans [OF admit_grows Cons.IH] by simp
qed

lemma grows_cong:
  "vertex_map (fst st) = vertex_map (fst st1) \<Longrightarrow> temp_list (snd st) = temp_list (snd st1) \<Longrightarrow>
     grows C maj st st' = grows C maj st1 st'"
  by (simp add: grows_def)

text \<open>A request changes neither the map nor the list of new vertices.\<close>

lemma handle_request_Inr:
  "handle_request en fd (s, l) = Some (Inr st') \<longleftrightarrow>
     (\<exists>hash pid rest. process_request en (net l fd) = Some (Inr ((hash, pid), rest)) \<and>
        st' = (s, l\<lparr>net := (net l)(fd := rest),
                    temp_request_list := (case vertex_map s hash of
                        Some v \<Rightarrow> (pid, v) # temp_request_list l
                      | None \<Rightarrow> temp_request_list l)\<rparr>))"
  unfolding handle_request_def
  by (cases "vertex_map s (fst (fst (projr (the (process_request en (net l fd))))))")
    (force simp: umap_find_def Let_def bindC_Inr_iff split: option.splits prod.splits)+

lemma handle_request_grows: "handle_request en fd st = Some (Inr st') \<Longrightarrow> grows C maj st st'"
  by (cases st) (auto simp: handle_request_Inr intro: grows_refl)

lemma handle_vertices_grows:
  assumes "handle_vertices C maj en fd st = Some (Inr st')"
  shows "grows C maj st st'"
proof -
  obtain s l where st: "st = (s, l)" by force
  from assms obtain vs rest where "st' = foldl (admit C maj) (s, l\<lparr>net := (net l)(fd := rest)\<rparr>) vs"
    by (auto simp: st handle_vertices_def bindC_Inr_iff split: prod.splits)
  then show ?thesis
    using admit_all_grows [of C maj "(s, l\<lparr>net := (net l)(fd := rest)\<rparr>)" vs]
    by (simp add: st grows_cong [of "(s, l)" "(s, l\<lparr>net := (net l)(fd := rest)\<rparr>)"])
qed

lemma event_grows:
  assumes "handle_event C maj e st = Some (Inr st')"
  shows "grows C maj st st'"
proof -
  obtain s l where st: "st = (s, l)" by force
  have "grows C maj (s, l) st'" if "handle_vertices C maj en fd (s, l\<lparr>bytes_to_recv := b\<rparr>) = Some (Inr st')" for en fd b
    using handle_vertices_grows [OF that] by (simp add: grows_cong [of "(s, l)" "(s, l\<lparr>bytes_to_recv := b\<rparr>)"])
  with assms show ?thesis
    unfolding st handle_event_def
    by (auto simp: Let_def bindR_Inr_iff st split: if_splits sum.splits prod.splits msg_type.splits
        intro: grows_refl handle_request_grows)
qed

text \<open>
  C28. Handling an event, whatever it is, hands a vertex to the main thread only if it has a
  quorum of references or belongs to round 1, and only the first time its hash is seen; that
  vertex and no other is stored under the hash, and nothing stored is ever replaced.
\<close>

theorem handle_event_grows:
  assumes "handle_event C maj e st = Some (Inr st')"
  shows "grows C maj st st'"
  using assms by (rule event_grows)

text \<open>A state and an event for the witnesses: a vertex arrives whole on connection 9.\<close>

definition demo_server :: "string \<Rightarrow> server_state" where
  "demo_server bytes =
     (\<lparr>s_domain = 2, s_type = 1, s_protocol = 6, listen_q = 1024, s_socket = 4, s_port = 4999,
       s_termination_round = 20, in_address = (2, 4999, 0), scan_buffer_thread_ready = True,
       vertex_map = Map.empty, is_up = True\<rparr>,
      \<lparr>watched = {4, 9}, net = (\<lambda>_. [])(9 := bytes), temp_list = [], temp_request_list = [],
       bytes_to_recv = replicate 4 NUL\<rparr>)"

definition demo_event :: "nat \<Rightarrow> epoll_event" where
  "demo_event n = \<lparr>ev_fd = 9, ev_events = EPOLLIN, ev_accepted = - 1, ev_arrived = Arrived n, ev_closed = False\<rparr>"

lemma poll_once_grows:
  assumes "poll_once C crowd nfds events st = Some (Inr (st', ready))"
  shows "grows C (majority crowd) st st'"
proof -
  have "foldC (handle_event C (majority crowd)) es st = Some (Inr st') \<Longrightarrow> grows C (majority crowd) st st'" for es
    by (erule foldC_inv [where I = "grows C (majority crowd) st"])
      (auto intro: grows_refl grows_trans event_grows)
  with assms show ?thesis
    by (auto simp: poll_once_def bindC_Inr_iff split: sum.splits prod.splits)
qed

text \<open>The map only ever relates a vertex to its own hash.\<close>

definition keyed :: "crypto \<Rightarrow> server \<Rightarrow> bool" where
  "keyed C s \<longleftrightarrow> (\<forall>h v. vertex_map s h = Some v \<longrightarrow> vertex_hash C v = h)"

lemma grows_keyed:
  assumes "grows C maj st st'" and "keyed C (fst st)"
  shows "keyed C (fst st')"
  unfolding keyed_def
proof (intro allI impI)
  fix h v
  assume v: "vertex_map (fst st') h = Some v"
  from assms(1) obtain new where new:
    "\<forall>w \<in> set new. vertex_map (fst st') (vertex_hash C w) = Some w"
    "dom (vertex_map (fst st')) = dom (vertex_map (fst st)) \<union> vertex_hash C ` set new"
    "vertex_map (fst st) \<subseteq>\<^sub>m vertex_map (fst st')"
    unfolding grows_def by blast
  show "vertex_hash C v = h"
  proof (cases "h \<in> vertex_hash C ` set new")
    case True
    with v new(1) show ?thesis by auto
  next
    case False
    with v new(2) obtain w where w: "vertex_map (fst st) h = Some w" by blast
    with new(3) v have "w = v" by (auto simp: map_le_def dom_def)
    with w assms(2) show ?thesis by (simp add: keyed_def)
  qed
qed

text \<open>
  C29. The vertex map of a server stays a content-addressed store: if every entry is filed under
  the hash of its own vertex, so is every entry after any number of waits and events.
\<close>

theorem poll_once_keyed:
  assumes "poll_once C crowd nfds events st = Some (Inr (st', ready))" and "keyed C (fst st)"
  shows "keyed C (fst st')"
  using grows_keyed [OF poll_once_grows [OF assms(1)] assms(2)] .

section \<open>Quorum arithmetic\<close>

lemma quorum_size:
  assumes "1 \<le> crowd" and "crowd < 2 ^ 31"
  shows "0 \<le> max_byzantines crowd \<and> 3 * max_byzantines crowd < crowd \<and>
    crowd \<le> 3 * (max_byzantines crowd + 1) \<and>
    majority crowd = 2 * max_byzantines crowd + 1 \<and> majority crowd \<le> crowd - max_byzantines crowd"
  using assms majority_eq [OF assms] by (simp add: max_byzantines_div) presburger

text \<open>
  For every number of validators the tolerated number \<open>f\<close> of faulty ones is less than a
  third of them, it is the largest such number, and a quorum of \<open>2 f + 1\<close> can be formed by the
  correct ones alone.
\<close>

theorem majority_bounds:
  assumes "1 \<le> crowd" and "crowd < 2 ^ 31"
  shows "0 \<le> max_byzantines crowd \<and> 3 * max_byzantines crowd < crowd \<and>
    crowd \<le> 3 * (max_byzantines crowd + 1) \<and>
    majority crowd = 2 * max_byzantines crowd + 1 \<and> majority crowd \<le> crowd - max_byzantines crowd"
  using assms by (rule quorum_size)

theorem majority_bounds_witness: "max_byzantines 10 = 3 \<and> majority 10 = 7"
  using majority_bounds [of 10] by (simp add: max_byzantines_div majority_eq)

lemma quorum_overlap_any:
  assumes "finite U" and "int (card U) \<le> crowd"
    and "A \<subseteq> U" and "B \<subseteq> U" and "majority crowd \<le> int (card A)" and "majority crowd \<le> int (card B)"
  shows "2 * majority crowd \<le> int (card (A \<inter> B)) + crowd"
proof -
  have "finite A" "finite B"
    using assms(1,3,4) finite_subset by auto
  then have "card A + card B = card (A \<union> B) + card (A \<inter> B)"
    by (rule card_Un_Int)
  moreover have "card (A \<union> B) \<le> card U"
    using assms(1,3,4) by (intro card_mono) auto
  ultimately show ?thesis using assms(2,5,6) by linarith
qed

lemma quorum_overlap:
  assumes "finite U" and "int (card U) \<le> crowd" and "crowd = 3 * max_byzantines crowd + 1"
    and "1 \<le> crowd" and "crowd < 2 ^ 31"
    and "A \<subseteq> U" and "B \<subseteq> U" and "majority crowd \<le> int (card A)" and "majority crowd \<le> int (card B)"
  shows "max_byzantines crowd + 1 \<le> int (card (A \<inter> B))"
  using quorum_overlap_any [OF assms(1,2,6-9)] quorum_size [OF assms(4,5)] assms(3) by linarith

text \<open>
  Quorum intersection: among \<open>3 f + 1\<close> validators any two quorums share at least \<open>f + 1\<close>,
  so a correct one.
\<close>

theorem quorums_intersect:
  assumes "finite U" and "int (card U) = crowd" and "crowd = 3 * max_byzantines crowd + 1"
    and "1 \<le> crowd" and "crowd < 2 ^ 31"
    and "A \<subseteq> U" and "B \<subseteq> U" and "majority crowd \<le> int (card A)" and "majority crowd \<le> int (card B)"
  shows "max_byzantines crowd + 1 \<le> int (card (A \<inter> B))"
  by (rule quorum_overlap [OF assms(1) _ assms(3-9)]) (simp add: assms(2))

theorem quorums_intersect_witness:
  "max_byzantines 4 + 1 \<le> int (card ({0, 1, 2} \<inter> {1, 2, 3 :: nat}))"
  by (rule quorums_intersect [of "{0, 1, 2, 3 :: nat}"]) (simp_all add: max_byzantines_div majority_eq)

text \<open>
  For other numbers of validators they need not: with six, a quorum is three, and two
  disjoint sets of validators are each a quorum.
\<close>

theorem quorums_may_be_disjoint:
  "\<exists>A B. A \<subseteq> {0..<6 :: nat} \<and> B \<subseteq> {0..<6} \<and> majority 6 \<le> int (card A) \<and> majority 6 \<le> int (card B) \<and> A \<inter> B = {}"
  by (intro exI [of _ "{0, 1, 2}"] exI [of _ "{3, 4, 5}"]) (simp add: majority_eq)

text \<open>
  The quorum test counts references, not different references: a vertex that names one and
  the same vertex often enough is admitted, whatever the quorum is.
\<close>

theorem repeated_reference_admitted:
  assumes "vertex_map s (vertex_hash C v) = None"
    and "references v = replicate (nat maj) r"
  shows "v \<in> set (temp_list (snd (admit C maj (s, l) v))) \<and> card (set (references v)) \<le> 1"
  using assms by (auto simp: admit_def admissible_def domIff set_replicate_conv_if)

theorem repeated_reference_admitted_witness:
  "demo_vertex\<lparr>references := [''A'', ''A'', ''A'']\<rparr>
     \<in> set (temp_list (snd (admit demo_crypto 3 (demo_server []) (demo_vertex\<lparr>references := [''A'', ''A'', ''A'']\<rparr>))))"
proof -
  have "references (demo_vertex\<lparr>references := [''A'', ''A'', ''A'']\<rparr>) = replicate (nat 3) ''A''"
    by (simp add: numeral_3_eq_3)
  from repeated_reference_admitted [OF _ this, of "fst (demo_server [])" demo_crypto "snd (demo_server [])"]
  show ?thesis by (simp add: demo_server_def)
qed

text \<open>
  Moving a \<open>Server\<close>, by construction or assignment, does not move its vertices: the new
  object does not know the vertices of the old one.
\<close>

theorem server_move_loses_vertices:
  "vertex_map (fst (server_move g source)) = Map.empty \<and>
   vertex_map (fst (server_move_assign this source)) = vertex_map this \<and>
   s_socket (fst (server_move_assign this source)) = s_socket source \<and>
   s_socket (snd (server_move_assign this source)) = - 1"
  by (simp add: server_move_def server_move_assign_def server_drop_def)

end
