(* ===== verification/Peer.thy ===== *)
theory Peer
  imports Threadpool Server
begin

text \<open>
  The class \<open>Peer\<close> of \<open>peer.h\<close> and \<open>peer.cpp\<close>: a validator, with its state as a record and one
  definition per method. The loop of \<open>buffer_scan_move_round\<close> is split where the code blocks:
  \<open>move_round\<close> is the part before the wait on the condition variable (advance to the next
  round, or ask for help), \<open>after_wait\<close> the part behind it (answer requests, add buffered
  vertices to the DAG, decide whether to stop, write a record).
\<close>

section \<open>State\<close>

text \<open>A task of the thread pool: the closure that calls \<open>c_sendn\<close> on a heap copy of a message.\<close>

datatype task = Sendn int string

record peer =
  cur_round :: int
  crowd :: int
  last_round :: int
  byzantines :: int
  own_id :: u64
  server :: server
  client :: client
  buffer :: "vertex list"
  requests :: "(u64 \<times> vertex) list"
  known_peers :: "(string \<times> int) list"
  black_list :: "u64 set"
  requests_asked :: int
  fail :: bool
  dag_image :: "string set list"
  pool :: "task pool"
  detached :: "int list"

text \<open>
  \<open>detached\<close> are the arguments of the \<open>check_round\<close> threads that \<open>dag_scan\<close> has launched and
  that have not run yet.

  The environment: the cryptographic library, the iteration order of \<open>std::unordered_set\<close>,
  what \<open>std::shuffle\<close> makes of a list in the \<open>k\<close>-th request, the \<open>k\<close>-th draw of the uniform
  distribution on 1 to 100, and the indeterminate content of a default-constructed vertex.
\<close>

record env =
  crypt :: crypto
  iter :: "string set \<Rightarrow> string list"
  shuffle :: "int \<Rightarrow> int list \<Rightarrow> int list"
  coin :: "nat \<Rightarrow> int"
  junk :: vertex

text \<open>The local variables of \<open>buffer_scan_move_round\<close> that live across iterations.\<close>

record row =
  r_round :: int
  r_total_vertices :: int
  r_total_absent :: int
  r_total_messages :: int
  r_times_help :: int
  r_on_round :: int
  r_help :: bool
  r_answered :: int
  r_missing :: int
  r_broadcasts :: int
  r_multicasts :: int
  r_failed :: int

record scan_vars =
  missing_set :: "string set"
  requests_answered :: int
  missing_vertices :: int
  need_help :: bool
  help_counter :: int
  stop_round :: int
  draws :: nat
  rows :: "row list"

definition Peer :: "int \<Rightarrow> int \<Rightarrow> u64 \<Rightarrow> int \<Rightarrow> int \<Rightarrow> int \<Rightarrow> int \<Rightarrow> int \<Rightarrow> int \<Rightarrow> int \<Rightarrow> bool \<Rightarrow> peer res" where
  "Peer fd bound clock domain type protocol port listen_queue n final fails =
     bindR (Server fd bound domain type protocol port listen_queue final) (\<lambda>s.
     Inr \<lparr>cur_round = 0, crowd = n, last_round = final, byzantines = max_byzantines n, own_id = clock,
          server = s, client = Client domain type protocol final, buffer = [], requests = [],
          known_peers = [], black_list = {}, requests_asked = 0, fail = fails, dag_image = [],
          pool = Threadpool 160, detached = []\<rparr>)"

definition scan_init :: "peer \<Rightarrow> scan_vars" where
  "scan_init p =
     \<lparr>missing_set = {}, requests_answered = 0, missing_vertices = 0, need_help = False,
      help_counter = 0, stop_round = last_round p, draws = 0, rows = []\<rparr>"

section \<open>Sending\<close>

definition enqueue_send :: "int \<Rightarrow> string \<Rightarrow> peer \<Rightarrow> peer" where
  "enqueue_send sockfd msg p = p\<lparr>pool := enqueue (Sendn sockfd msg) (pool p)\<rparr>"

text \<open>
  \<open>broadcast\<close>: one copy and one task per connection; \<open>heap_ptrs\<close> has \<open>crowd - 1\<close> places and is
  indexed by the running count.
\<close>

definition broadcast :: "string \<Rightarrow> peer \<Rightarrow> peer res" where
  "broadcast data p =
     bindR (foldR (\<lambda>socket_fd (p', count).
              if count < crowd p - 1
              then bindR (dynamic_copy data (length data)) (\<lambda>ptr.
                   Inr (enqueue_send socket_fd ptr p', count + 1))
              else Inl Out_Of_Bounds)
            (c_sockets (client p)) (p, 0))
       (\<lambda>(p', count). Inr p')"

definition lookup_socket :: "u64 \<Rightarrow> peer \<Rightarrow> int \<times> peer" where
  "lookup_socket pid p = (case get_socket pid (client p) of (s, c) \<Rightarrow> (s, p\<lparr>client := c\<rparr>))"

definition deliver_request :: "u64 \<times> vertex \<Rightarrow> peer \<Rightarrow> peer res" where
  "deliver_request request p =
     (case lookup_socket (fst request) p of
        (sockfd, p') \<Rightarrow>
          bindR (serialize_data MAX_STREAM_SIZE (snd request)) (\<lambda>buf.
          bindR (attach_length_to_msg buf (length buf)) (\<lambda>msg.
          bindR (dynamic_copy msg (length buf)) (\<lambda>ptr.
          Inr (enqueue_send sockfd ptr p')))))"

text \<open>
  The loop of \<open>send_missing_vertices\<close> over the hashes in the order in which \<open>extract(begin())\<close>
  yields them. \<open>vertex\<close> keeps its value when a hash is not found. The state is
  \<open>packet_stream\<close> and the messages sent so far.
\<close>

fun missing_loop :: "server \<Rightarrow> string list \<Rightarrow> vertex \<Rightarrow> string \<Rightarrow> string list \<Rightarrow> (string \<times> string list) res" where
  "missing_loop s [] vertex packet_stream out = Inr (packet_stream, out)"
| "missing_loop s (h # hs) vertex packet_stream out =
     (let vertex' = (case find_in_map h (Some vertex) s of (_, Some v) \<Rightarrow> v | _ \<Rightarrow> vertex) in
      bindR (serialize_data MAX_STREAM_SIZE vertex') (\<lambda>vertex_stream.
      let packet_stream' = packet_stream @ vertex_stream in
      if 40000 \<le> length packet_stream' then
        bindR (attach_length_to_msg packet_stream' (length packet_stream')) (\<lambda>msg.
        bindR (dynamic_copy msg (length packet_stream')) (\<lambda>ptr.
        missing_loop s hs vertex' [] (out @ [ptr])))
      else missing_loop s hs vertex' packet_stream' out))"

definition missing_packets :: "server \<Rightarrow> string list \<Rightarrow> vertex \<Rightarrow> string list res" where
  "missing_packets s hs vertex =
     bindR (missing_loop s hs vertex [] []) (\<lambda>(packet_stream, out).
     if packet_stream \<noteq> [] then
       bindR (attach_length_to_msg packet_stream (length packet_stream)) (\<lambda>msg.
       bindR (dynamic_copy msg (length packet_stream)) (\<lambda>ptr. Inr (out @ [ptr])))
     else Inr out)"

definition send_missing_vertices :: "env \<Rightarrow> int \<Rightarrow> string set \<Rightarrow> peer \<Rightarrow> peer res" where
  "send_missing_vertices E peer_socket reference_set p =
     bindR (missing_packets (server p) (iter E reference_set) (junk E)) (\<lambda>packets.
     Inr (foldl (\<lambda>p m. enqueue_send peer_socket m p) p packets))"

section \<open>Asking for vertices\<close>

text \<open>
  The destinations of one request: the first \<open>f + 1\<close> of the shuffled connections, and the
  connection of the vertex's owner unless it is among them. Beside each destination stands the
  index of the heap copy that its task will free; the second list are the copies freed here.
\<close>

definition request_sends :: "int \<Rightarrow> int list \<Rightarrow> int \<Rightarrow> ((int \<times> int) list \<times> int list) res" where
  "request_sends f sockets owner =
     bindR (foldR (\<lambda>i (acc, sent).
              bindR (vec_at sockets i) (\<lambda>sockfd.
              Inr (acc @ [(sockfd, i)], sent \<or> sockfd = owner)))
            [0..f] ([], False))
       (\<lambda>(acc, sent). if \<not> sent then Inr (acc @ [(owner, f + 1)], []) else Inr (acc, [f + 1]))"

definition request_msg :: "string \<Rightarrow> u64 \<Rightarrow> string" where
  "request_msg hash pid = PREFIX # hash @ be_enc 8 (unat pid)"

text \<open>The message is built in an array of 75 bytes.\<close>

definition make_request :: "env \<Rightarrow> string \<Rightarrow> int \<Rightarrow> peer \<Rightarrow> peer res" where
  "make_request E hash owner p =
     (let p' = p\<lparr>requests_asked := requests_asked p + 1\<rparr>;
          len = length hash + 8 + 1
      in if 75 < len then Inl Out_Of_Bounds
         else
           bindR (dynamic_copy (request_msg hash (own_id p)) len) (\<lambda>ptr.
           bindR (request_sends (byzantines p) (shuffle E (requests_asked p) (c_sockets (client p))) owner) (\<lambda>(sends, freed).
           Inr (foldl (\<lambda>p (sockfd, i). enqueue_send sockfd ptr p) p' sends))))"

definition check_round :: "env \<Rightarrow> int \<Rightarrow> peer \<Rightarrow> peer res" where
  "check_round E r p =
     foldR (\<lambda>j p.
       bindR (get_peer_id_at j (client p)) (\<lambda>peerID.
       if \<not> uset_find peerID (black_list p) then
         (let hash = hash_256 (crypt E) (to_string (r + 1) @ to_string (uint peerID)) in
          if \<not> fst (find_in_map hash None (server p)) then
            (case lookup_socket peerID p of (socket, p') \<Rightarrow> make_request E hash socket p')
          else Inr p)
       else Inr p))
     [0..crowd p - 2] p"

definition dag_scan :: "int \<Rightarrow> int \<Rightarrow> peer \<Rightarrow> peer res" where
  "dag_scan end start p =
     (let start' = (if start < 0 then 0 else start) in
      foldR (\<lambda>i p.
        bindR (vec_at (dag_image p) i) (\<lambda>D.
        if int (card D) < size_t (crowd p) then Inr (p\<lparr>detached := detached p @ [i]\<rparr>) else Inr p))
      [start'..end - 1] p)"

section \<open>Ordering a wave\<close>

text \<open>
  The loop that removes a connection from \<open>c_sockets\<close>: after an erasure the iterator stands on
  the next element, and the loop's increment moves it on once more. An iterator beyond the end
  never equals it: undefined behaviour.
\<close>

function erase_loop :: "int \<Rightarrow> int list \<Rightarrow> nat \<Rightarrow> int list res" where
  "erase_loop dead_socket sockets it =
     (if it = length sockets then Inr sockets
      else if length sockets < it then Inl Out_Of_Bounds
      else if sockets ! it = dead_socket
      then erase_loop dead_socket (take it sockets @ drop (Suc it) sockets) (Suc it)
      else erase_loop dead_socket sockets (Suc it))"
  by pat_completeness auto
termination
  by (relation "measure (\<lambda>(_, sockets, it). length sockets + 1 - it)") auto

declare erase_loop.simps [simp del]

definition blame :: "u64 \<Rightarrow> peer \<Rightarrow> peer res" where
  "blame peerID p =
     (case lookup_socket peerID (p\<lparr>black_list := uset_emplace peerID (black_list p)\<rparr>) of
        (dead_socket, p') \<Rightarrow>
          bindR (erase_loop dead_socket (c_sockets (client p')) 0) (\<lambda>socks.
          Inr (p'\<lparr>client := (client p')\<lparr>c_sockets := socks\<rparr>\<rparr>)))"

definition total_order :: "env \<Rightarrow> int \<Rightarrow> int \<Rightarrow> peer \<Rightarrow> peer res" where
  "total_order E end start p =
     foldR (\<lambda>i p.
       bindR (vec_at (dag_image p) i) (\<lambda>D.
       if int (card D) < size_t (crowd p) then
         foldR (\<lambda>j p.
           bindR (get_peer_id_at j (client p)) (\<lambda>peerID.
           let hash = hash_256 (crypt E) (to_string (i + 1) @ to_string (uint peerID)) in
           if hash \<notin> D then blame peerID p else Inr p))
         [0..crowd p - 2] p
       else Inr p))
     [start..end - 1] p"

section \<open>Advancing\<close>

definition can_advance :: "peer \<Rightarrow> bool res" where
  "can_advance p =
     (if cur_round p = 0 then Inr True
      else bindR (vec_at (dag_image p) (cur_round p - 1)) (\<lambda>D.
           Inr (size_t (2 * byzantines p + 1) \<le> int (card D))))"

text \<open>The scan or the ordering that is due in this round.\<close>

definition wave_work :: "env \<Rightarrow> peer \<Rightarrow> peer res" where
  "wave_work E p =
     (if cur_round p mod WAVE = 0 \<and> WAVE < cur_round p
      then dag_scan (cur_round p - WAVE) (cur_round p - 2 * WAVE) p
      else if cur_round p mod WAVE = HALF_WAVE \<and> 2 * WAVE < cur_round p
      then (let finish = cur_round p - (WAVE + HALF_WAVE) in total_order E finish (finish - WAVE) p)
      else Inr p)"

text \<open>The vertex of the new round: its payload, and references to all of the previous round.\<close>

definition make_vertex :: "env \<Rightarrow> peer \<Rightarrow> vertex res" where
  "make_vertex E p =
     (let v = Vertex (word_of_int (cur_round p)) (own_id p)
                (to_string (cur_round p) @ ''-'' @ to_string (uint (own_id p)))
      in if 1 < cur_round p
         then bindR (vec_at (dag_image p) (cur_round p - 2)) (\<lambda>D.
              Inr (snd (add_ref (iter E) D (own_id p) v)))
         else Inr v)"

definition propose :: "env \<Rightarrow> peer \<Rightarrow> peer res" where
  "propose E p0 =
     (let p = p0\<lparr>dag_image := dag_image p0 @ [{}]\<rparr> in
      bindR (make_vertex E p) (\<lambda>v.
      let h = vertex_hash (crypt E) v; p = p\<lparr>server := add_to_map h v (server p)\<rparr> in
      bindR (vec_at (dag_image p) (cur_round p - 1)) (\<lambda>D.
      let p = p\<lparr>dag_image := (dag_image p)[nat (cur_round p - 1) := insert h D]\<rparr> in
      bindR (serialize_data MAX_STREAM_SIZE v) (\<lambda>stream.
      bindR (attach_length_to_msg stream (length stream)) (\<lambda>msg.
      broadcast msg p)))))"

definition advance :: "env \<Rightarrow> peer \<Rightarrow> peer res" where
  "advance E p =
     bindR (wave_work E p) (\<lambda>p.
     let p = p\<lparr>cur_round := cur_round p + 1\<rparr> in
     if cur_round p \<le> last_round p then propose E p else Inr p)"

text \<open>The top of the loop; \<open>time_in_round\<close> are the seconds since the last broadcast or scan.\<close>

definition move_round :: "env \<Rightarrow> int \<Rightarrow> peer \<times> scan_vars \<Rightarrow> (peer \<times> scan_vars) res" where
  "move_round E time_in_round = (\<lambda>(p, l).
     if cur_round p \<le> last_round p then
       bindR (can_advance p) (\<lambda>ok.
       if ok then
         bindR (advance E p) (\<lambda>p'. Inr (p', l\<lparr>need_help := False\<rparr>))
       else if MAX_DELAY * 4 < time_in_round then
         (if cur_round p = last_round p then Inr (p, l\<lparr>stop_round := stop_round l - 1\<rparr>)
          else bindR (dag_scan (cur_round p) (cur_round p - WAVE) p) (\<lambda>p'.
               Inr (p', l\<lparr>need_help := True, help_counter := help_counter l + 1\<rparr>)))
       else Inr (p, l))
     else Inr (p, l))"

section \<open>Behind the wait\<close>

definition process_requests :: "peer \<times> scan_vars \<Rightarrow> (peer \<times> scan_vars) res" where
  "process_requests = (\<lambda>(p, l).
     bindR (foldR deliver_request (requests p) p) (\<lambda>p'.
     Inr (p'\<lparr>requests := []\<rparr>,
          l\<lparr>requests_answered := requests_answered l + int (length (requests p))\<rparr>)))"

text \<open>
  \<open>mutual_history\<close>: all references are in the previous round of the DAG; the set is what that
  round has beyond them, or empty when one is missing.
\<close>

fun history_loop :: "string set \<Rightarrow> string list \<Rightarrow> string set \<Rightarrow> bool \<times> string set" where
  "history_loop D [] temp_set = (True, temp_set)"
| "history_loop D (ref # refs) temp_set =
     (if ref \<notin> D then (False, {}) else history_loop D refs (temp_set - {ref}))"

definition mutual_history :: "int \<Rightarrow> string list \<Rightarrow> peer \<Rightarrow> (bool \<times> string set) res" where
  "mutual_history v_round v_refs p =
     bindR (vec_at (dag_image p) (v_round - 2)) (\<lambda>D. Inr (history_loop D v_refs D))"

text \<open>
  One turn of the loop over the buffer; the boolean says that the vertex stays in it. For a
  vertex of round 1 \<open>mutual_history\<close> is not called and \<open>set\<close> keeps its former content.
\<close>

definition offer_missing :: "env \<Rightarrow> vertex \<Rightarrow> peer \<times> scan_vars \<Rightarrow> (peer \<times> scan_vars) res" where
  "offer_missing E v = (\<lambda>(p, l).
     if missing_set l \<noteq> {} then
       (let d = coin E (draws l); l = l\<lparr>draws := draws l + 1\<rparr> in
        if d \<le> 60 then
          (case lookup_socket (get_pid v) p of
             (sockfd, p') \<Rightarrow>
               bindR (send_missing_vertices E sockfd (missing_set l) p') (\<lambda>p''.
               Inr (p'', l\<lparr>missing_vertices := missing_vertices l + 1, missing_set := {}\<rparr>)))
        else Inr (p, l))
     else Inr (p, l))"

definition scan_one :: "env \<Rightarrow> vertex \<Rightarrow> peer \<times> scan_vars \<Rightarrow> (bool \<times> peer \<times> scan_vars) res" where
  "scan_one E v = (\<lambda>(p, l).
     let v_round = sint (get_round v) in
     if v_round \<le> cur_round p then
       bindR (if v_round = 1 then Inr (True, missing_set l)
              else mutual_history v_round (references v) p) (\<lambda>(ok, S).
       if ok then
         bindR (offer_missing E v (p, l\<lparr>missing_set := S\<rparr>)) (\<lambda>(p, l).
         bindR (vec_at (dag_image p) (v_round - 1)) (\<lambda>D.
         Inr (False,
              p\<lparr>dag_image := (dag_image p)[nat (v_round - 1) := insert (vertex_hash (crypt E) v) D]\<rparr>, l)))
       else Inr (True, p, l\<lparr>missing_set := S\<rparr>))
     else Inr (True, p, l))"

fun scan_buffer :: "env \<Rightarrow> vertex list \<Rightarrow> peer \<times> scan_vars \<Rightarrow> (vertex list \<times> peer \<times> scan_vars) res" where
  "scan_buffer E [] st = Inr ([], st)"
| "scan_buffer E (v # vs) st =
     bindR (scan_one E v st) (\<lambda>(keep, st').
     bindR (scan_buffer E vs st') (\<lambda>(kept, st'').
     Inr (if keep then v # kept else kept, st'')))"

text \<open>
  \<open>write_record\<close>: the row appended to the records file (without the time stamp in front).
\<close>

definition write_record :: "int \<Rightarrow> int \<Rightarrow> bool \<Rightarrow> int \<Rightarrow> peer \<Rightarrow> row res" where
  "write_record answered missing help times_i_need_help p =
     bindR (foldR (\<lambda>i (total_vertices, total_absent_vertices).
              bindR (vec_at (dag_image p) i) (\<lambda>D.
              Inr (total_vertices + int (card D),
                   if int (card D) < size_t (crowd p)
                   then total_absent_vertices + (crowd p - int (card D)) else total_absent_vertices)))
            [0..cur_round p - 1] (0, 0)) (\<lambda>(total_vertices, total_absent_vertices).
     let vertex_broadcasts = cur_round p * (crowd p - 1);
         request_multicasts = requests_asked p * (2 * byzantines p + 1)
     in bindR (vec_at (dag_image p) (cur_round p - 1)) (\<lambda>D.
        Inr \<lparr>r_round = cur_round p, r_total_vertices = total_vertices,
             r_total_absent = total_absent_vertices,
             r_total_messages = vertex_broadcasts + request_multicasts + missing + answered,
             r_times_help = times_i_need_help, r_on_round = int (card D), r_help = help,
             r_answered = answered, r_missing = missing, r_broadcasts = vertex_broadcasts,
             r_multicasts = request_multicasts, r_failed = int (uset_size (black_list p))\<rparr>))"

text \<open>
  Everything between waking up and the end of the iteration. The boolean says that the loop is
  left; \<open>record_due\<close> that twelve seconds have passed since the last record.
\<close>

definition after_wait :: "env \<Rightarrow> bool \<Rightarrow> peer \<times> scan_vars \<Rightarrow> (bool \<times> peer \<times> scan_vars) res" where
  "after_wait E record_due st =
     bindR (process_requests st) (\<lambda>(p, l).
     bindR (scan_buffer E (buffer p) (p, l)) (\<lambda>(kept, p, l).
     let p = p\<lparr>buffer := kept\<rparr> in
     if stop_round l < cur_round p \<or> fail p \<and> cur_round p = 27 then
       Inr (True, p\<lparr>server := set_thread_ready True ((server p)\<lparr>is_up := False\<rparr>)\<rparr>, l)
     else if record_due then
       bindR (write_record (requests_answered l) (missing_vertices l) (need_help l) (help_counter l) p) (\<lambda>r.
       Inr (False, p, l\<lparr>rows := rows l @ [r]\<rparr>))
     else Inr (False, p, l)))"

section \<open>Hashing the DAG\<close>

definition hash_set :: "env \<Rightarrow> int \<Rightarrow> peer \<Rightarrow> string res" where
  "hash_set E index p =
     bindR (vec_at (dag_image p) index) (\<lambda>D. Inr (hash_256 (crypt E) (concat (sort (iter E D)))))"

text \<open>The subtraction in the loop bound is one of \<open>size_t\<close> values.\<close>

function hash_dag_loop :: "env \<Rightarrow> peer \<Rightarrow> int \<Rightarrow> string \<Rightarrow> string res" where
  "hash_dag_loop E p i str =
     (if i < size_t (int (length (dag_image p)) - 3 * WAVE)
      then bindR (hash_set E i p) (\<lambda>output. hash_dag_loop E p (i + 1) (str @ output))
      else Inr str)"
  by pat_completeness auto
termination
  by (relation "measure (\<lambda>(E, p, i, str). nat (size_t (int (length (dag_image p)) - 3 * WAVE) - i))") auto

declare hash_dag_loop.simps [simp del]

definition hash_dag :: "env \<Rightarrow> peer \<Rightarrow> string res" where
  "hash_dag E p = bindR (hash_dag_loop E p 0 []) (\<lambda>str. Inr (hash_256 (crypt E) str))"

section \<open>Reading the address file\<close>

text \<open>
  Formatted extraction from a line: white space is skipped, a word is read, then a decimal
  number. An extraction that finds nothing leaves its variable alone (\<open>None\<close>); characters that
  are no number store 0.
\<close>

definition isspace :: "char \<Rightarrow> bool" where
  "isspace c \<longleftrightarrow> c \<in> {CHR '' '', CHR 0x09, CHR 0x0A, CHR 0x0B, CHR 0x0C, CHR 0x0D}"

definition isdigit :: "char \<Rightarrow> bool" where
  "isdigit c \<longleftrightarrow> 48 \<le> (of_char c :: nat) \<and> (of_char c :: nat) < 58"

definition extract_word :: "string \<Rightarrow> (string \<times> string) option" where
  "extract_word s =
     (let s' = dropWhile isspace s in
      if s' = [] then None else Some (takeWhile (\<lambda>c. \<not> isspace c) s', dropWhile (\<lambda>c. \<not> isspace c) s'))"

definition extract_int :: "string \<Rightarrow> int option" where
  "extract_int s =
     (let s' = dropWhile isspace s in
      if s' = [] then None
      else
        let neg = (hd s' = CHR ''-'');
            digits = takeWhile isdigit (if neg \<or> hd s' = CHR ''+'' then tl s' else s');
            value = (if neg then - int (dec_value digits) else int (dec_value digits))
        in Some (max (- (2 ^ 31)) (min (2 ^ 31 - 1) value)))"

text \<open>\<open>ip_address\<close> and \<open>port\<close> are declared outside the loop over the lines.\<close>

definition read_line :: "string \<Rightarrow> string \<times> int \<Rightarrow> string \<times> int" where
  "read_line line = (\<lambda>(ip_address, port).
     case extract_word line of
       None \<Rightarrow> (ip_address, port)
     | Some (w, r) \<Rightarrow> (w, case extract_int r of None \<Rightarrow> port | Some n \<Rightarrow> n))"

fun read_addresses :: "int \<Rightarrow> string list \<Rightarrow> string \<times> int \<Rightarrow> (string \<times> int) list" where
  "read_addresses own [] st = []"
| "read_addresses own (line # lines) st =
     (let st' = read_line line st in
      (if own \<noteq> snd st' then [st'] else []) @ read_addresses own lines st')"

text \<open>\<open>None\<close> for a file that cannot be opened; \<open>port0\<close> is the indeterminate initial port.\<close>

definition setup_network :: "(nat \<Rightarrow> conn) \<Rightarrow> int \<Rightarrow> string list option \<Rightarrow> peer \<Rightarrow> peer res" where
  "setup_network os port0 file p =
     (case file of
        None \<Rightarrow> Inl Exit_Failure
      | Some lines \<Rightarrow>
          let p' = p\<lparr>known_peers := known_peers p @ read_addresses (getport (server p)) lines ([], port0)\<rparr> in
          bindR (connect_to os (known_peers p') (client p')) (\<lambda>c. Inr (p'\<lparr>client := c\<rparr>)))"

section \<open>Move constructor\<close>

text \<open>
  The members that the constructor does not name are default-initialised: the black list is
  empty, the pool has no threads, and \<open>byzantines\<close> and \<open>fail\<close> are indeterminate (\<open>b\<close>, \<open>f\<close>). The
  server and the client are move-assigned to default-constructed ones (\<open>s0\<close>, \<open>c0\<close>);
  \<open>requests_asked.exchange\<close> stores the source's count.
\<close>

definition peer_move :: "int \<Rightarrow> bool \<Rightarrow> server \<Rightarrow> client \<Rightarrow> peer \<Rightarrow> peer" where
  "peer_move b f s0 c0 source =
     source\<lparr>byzantines := b, fail := f, black_list := {}, pool := Threadpool 0, detached := [],
            server := fst (server_move_assign s0 (server source)),
            client := fst (client_move_assign c0 (client source))\<rparr>"

end
