(* ===== verification/Peer_Ops.thy ===== *)
theory Peer_Ops
  imports Peer
begin

text \<open>
  What each operation of a peer does, branch by branch: the history check, the removal of a
  connection, the destinations of a request, the packets of missing vertices, the broadcast
  and the schedule of the waves.
\<close>

section \<open>Samples for the witnesses\<close>

text \<open>An environment and a peer for the witnesses.\<close>

definition demo_env :: env where
  "demo_env = \<lparr>crypt = demo_crypto, iter = sorted_list_of_set, shuffle = (\<lambda>_ xs. xs), coin = (\<lambda>_. 1), junk = moved_from\<rparr>"

definition demo_peer :: peer where
  "demo_peer =
     \<lparr>cur_round = 0, crowd = 4, last_round = 20, byzantines = 1, own_id = 17, server = fst (demo_server []),
      client = (Client 2 1 6 20)\<lparr>peers := [18, 19, 20], c_sockets := [5, 6, 7],
        socket_map := [18 \<mapsto> 5, 19 \<mapsto> 6, 20 \<mapsto> 7]\<rparr>,
      buffer = [], requests = [], known_peers = [], black_list = {}, requests_asked = 0, fail = False,
      dag_image = [], pool = Threadpool 160, detached = []\<rparr>"

section \<open>The history check\<close>

lemma history_loop_eq:
  "history_loop D refs S = (if set refs \<subseteq> D then (True, S - set refs) else (False, {}))"
  by (induction refs arbitrary: S) auto

text \<open>
  \<open>mutual_history\<close> accepts a vertex exactly if all its references are in the previous round
  of the local DAG, and then yields what that round holds beyond them; it yields nothing when
  it refuses. The round must be one whose predecessor exists locally.
\<close>

lemma mutual_history_eq:
  "mutual_history r refs p =
     (if 2 \<le> r \<and> r - 2 < int (length (dag_image p)) then
        let D = dag_image p ! nat (r - 2) in
        Inr (if set refs \<subseteq> D then (True, D - set refs) else (False, {}))
      else Inl Out_Of_Bounds)"
  by (simp add: mutual_history_def vec_at_def history_loop_eq Let_def)

section \<open>Removing a connection\<close>

lemma erase_loop_skip:
  assumes "\<forall>j. it \<le> j \<and> j < k \<longrightarrow> xs ! j \<noteq> d" and "it \<le> k" and "k \<le> length xs"
  shows "erase_loop d xs it = erase_loop d xs k"
  using assms
proof (induction "k - it" arbitrary: it)
  case 0
  then show ?case by simp
next
  case (Suc n)
  then have it: "it < k" "xs ! it \<noteq> d" by auto
  have "n = k - Suc it" using Suc.hyps(2) by simp
  from Suc.hyps(1) [OF this] Suc.prems it
  have "erase_loop d xs (Suc it) = erase_loop d xs k" by simp
  with it Suc.prems(3) show ?case
    by (simp add: erase_loop.simps [of d xs it])
qed

lemma erase_loop_absent:
  assumes "d \<notin> set (drop it xs)" and "it \<le> length xs"
  shows "erase_loop d xs it = Inr xs"
proof -
  have "xs ! j \<noteq> d" if "it \<le> j" "j < length xs" for j
  proof -
    have "drop it xs ! (j - it) \<in> set (drop it xs)"
      using that by (intro nth_mem) auto
    then show ?thesis using assms(1) that by auto
  qed
  then have "erase_loop d xs it = erase_loop d xs (length xs)"
    using assms(2) by (intro erase_loop_skip) auto
  then show ?thesis by (simp add: erase_loop.simps)
qed

lemma erase_loop_eq:
  assumes "distinct sockets"
  shows "erase_loop d sockets 0 =
    (if sockets \<noteq> [] \<and> last sockets = d then Inl Out_Of_Bounds else Inr (removeAll d sockets))"
proof (cases "d \<in> set sockets")
  case False
  then have "\<not> (sockets \<noteq> [] \<and> last sockets = d)" using last_in_set by fastforce
  with False show ?thesis by (simp add: erase_loop_absent)
next
  case True
  then obtain ys zs where xs: "sockets = ys @ d # zs" and "d \<notin> set ys"
    by (meson split_list_first)
  with assms have no: "d \<notin> set ys" "d \<notin> set zs" by auto
  have "erase_loop d sockets 0 = erase_loop d sockets (length ys)"
    using no by (intro erase_loop_skip) (auto simp: xs nth_append)
  also have "\<dots> = erase_loop d (ys @ zs) (Suc (length ys))"
    by (simp add: xs erase_loop.simps [of d "ys @ d # zs"])
  also have "\<dots> = (if zs = [] then Inl Out_Of_Bounds else Inr (ys @ zs))"
  proof (cases zs)
    case Nil
    then show ?thesis by (simp add: erase_loop.simps)
  next
    case (Cons z zs')
    with no have "d \<notin> set (drop (Suc (length ys)) (ys @ zs))" by simp
    with Cons show ?thesis by (simp add: erase_loop_absent)
  qed
  finally show ?thesis using no last_in_set [of zs] by (auto simp: xs)
qed

text \<open>
  Removing the connection of a failed validator works, the others keeping their order,
  unless that connection is the last of the list: then the loop's increment carries the
  iterator past the end and the loop runs on outside the vector.
\<close>

theorem erase_loop_spec:
  assumes "distinct sockets"
  shows "erase_loop d sockets 0 =
    (if sockets \<noteq> [] \<and> last sockets = d then Inl Out_Of_Bounds else Inr (removeAll d sockets))"
  using assms by (rule erase_loop_eq)

theorem erase_loop_spec_witness:
  "erase_loop 6 [5, 6, 7] 0 = Inr [5, 7] \<and> erase_loop 7 [5, 6, 7] 0 = Inl Out_Of_Bounds"
  using erase_loop_spec [of "[5, 6, 7]" 6] erase_loop_spec [of "[5, 6, 7]" 7] by simp

section \<open>Requests\<close>

lemma request_loop:
  assumes "k \<le> length sockets"
  shows "foldR (\<lambda>i (acc, sent). bindR (vec_at sockets i) (\<lambda>sockfd.
           Inr (acc @ [(sockfd, i)], sent \<or> sockfd = owner))) [0..int k - 1] ([], False) =
    Inr (map (\<lambda>i. (sockets ! i, int i)) [0..<k], owner \<in> set (take k sockets))"
  using assms
proof (induction k)
  case 0
  then show ?case by simp
next
  case (Suc k)
  have "[0..int (Suc k) - 1] = [0..int k - 1] @ [int k]"
    by (simp add: upto_rec2)
  then show ?case
    using Suc by (auto simp: foldR_append vec_at_def take_Suc_conv_app_nth)
qed

text \<open>
  A request goes to the owner of the vertex and to \<open>f + 1\<close> of the connections (which may
  include the owner's), so to at least one correct validator; and each of the \<open>f + 2\<close> heap
  copies is either handed to exactly one task, which will free it, or freed at once.
\<close>

theorem request_sends_spec:
  assumes "0 \<le> f" and "f + 1 \<le> int (length sockets)" and "distinct sockets"
  shows "\<exists>sends freed. request_sends f sockets owner = Inr (sends, freed) \<and>
     owner \<in> fst ` set sends \<and> set (take (nat (f + 1)) sockets) \<subseteq> fst ` set sends \<and>
     distinct (map fst sends) \<and> card (fst ` set sends - {owner}) \<ge> nat f \<and>
     map snd sends @ freed = [0..f + 1]"
proof -
  define k where "k = nat (f + 1)"
  have k: "int k = f + 1" "k \<le> length sockets" using assms by (auto simp: k_def)
  let ?first = "map (\<lambda>i. (sockets ! i, int i)) [0..<k]"
  have loop: "foldR (\<lambda>i (acc, sent). bindR (vec_at sockets i) (\<lambda>sockfd.
           Inr (acc @ [(sockfd, i)], sent \<or> sockfd = owner))) [0..f] ([], False) =
    Inr (?first, owner \<in> set (take k sockets))"
    using request_loop [OF k(2), of owner] k(1) by simp
  have fst: "map fst ?first = take k sockets"
    using k(2) by (simp add: comp_def list_eq_iff_nth_eq)
  have set: "fst ` set ?first = set (take k sockets)"
    by (simp only: fst flip: set_map)
  have snd: "map snd ?first = [0..f]"
    using k(1) map_int_upt [of k] by (simp add: comp_def)
  have ends: "[0..f + 1] = [0..f] @ [f + 1]"
    using assms(1) by (simp add: upto_rec2)
  have card: "card (set (take k sockets)) = k"
    using assms(3) k(2) by (simp add: distinct_card)
  show ?thesis
  proof (cases "owner \<in> set (take k sockets)")
    case True
    then have "request_sends f sockets owner = Inr (?first, [f + 1])"
      by (simp add: request_sends_def loop)
    moreover have "nat f \<le> card (fst ` set ?first - {owner})"
      using True card k(1) by (simp only: set card_Diff_singleton)
    ultimately show ?thesis
      using True set fst snd ends assms(3) k_def by (intro exI [of _ ?first] exI [of _ "[f + 1]"]) auto
  next
    case False
    then have "request_sends f sockets owner = Inr (?first @ [(owner, f + 1)], [])"
      by (simp add: request_sends_def loop)
    moreover have "fst ` set (?first @ [(owner, f + 1)]) - {owner} = set (take k sockets)"
      using False set by auto
    ultimately show ?thesis
      using False set fst snd ends assms(3) k_def card k(1)
      by (intro exI [of _ "?first @ [(owner, f + 1)]"] exI [of _ "[]"]) auto
  qed
qed

theorem request_sends_spec_witness:
  "\<exists>sends freed. request_sends 1 [8, 5, 9] 9 = Inr (sends, freed) \<and> map snd sends @ freed = [0..2]"
  using request_sends_spec [of 1 "[8, 5, 9]" 9] by fastforce

lemma request_parse:
  assumes "length hash = HEX_HASH" and "en \<noteq> Failing"
  shows "examine_msg (Some (request_msg hash pid @ rest)) old = Inr (REQ_MSG, old) \<and>
     process_request en (request_msg hash pid @ rest) = Some (Inr ((hash, pid), rest))"
proof -
  have "be_dec (be_enc 8 (unat pid)) = unat pid"
    using unsigned_less [of pid, where ?'a = nat] by (intro be_dec_enc) simp
  then show ?thesis
    using assms by (simp add: examine_msg_def process_request_def request_msg_def HEX_HASH_def MAX_STREAM_SIZE_def Let_def)
qed

text \<open>
  Round trip of a request: what \<open>make_request\<close> queues for every destination is one message
  that the receiver recognises as a request and from which it reads the same hash and the id of
  the asking peer, leaving the rest of the stream alone.
\<close>

theorem request_roundtrip:
  assumes "length hash = HEX_HASH" and "en \<noteq> Failing"
  shows "examine_msg (Some (request_msg hash pid @ rest)) old = Inr (REQ_MSG, old) \<and>
     process_request en (request_msg hash pid @ rest) = Some (Inr ((hash, pid), rest))"
  using assms by (rule request_parse)

theorem request_roundtrip_witness:
  "process_request Still_Open (request_msg (replicate 64 CHR ''A'') 42 @ ''?next'') =
     Some (Inr ((replicate 64 CHR ''A'', 42), ''?next''))"
  using request_roundtrip [of "replicate 64 CHR ''A''" Still_Open 42 "''?next''" "[]"] by (simp add: HEX_HASH_def)

text \<open>Requests that follow each other on a connection are read one by one.\<close>

definition read_request :: "string \<Rightarrow> ((string \<times> u64) \<times> string) res" where
  "read_request s = (case process_request Still_Open s of None \<Rightarrow> Inl Out_Of_Bounds | Some r \<Rightarrow> r)"

interpretation request_codec: codec "\<lambda>(hash, pid). length hash = HEX_HASH" "\<lambda>(hash, pid). request_msg hash pid"
    read_request
  by unfold_locales (auto simp: read_request_def request_parse)

lemma requests_in_order:
  assumes "\<forall>(hash, pid) \<in> set rs. length hash = HEX_HASH"
  shows "read_all read_request (length rs) (concat (map (\<lambda>(hash, pid). request_msg hash pid) rs) @ rest) =
    Inr (rs, rest)"
  using assms by (intro request_codec.sequence) auto

lemma enqueue_sends:
  "pool (foldl (\<lambda>p (s, i). enqueue_send s msg p) p sends) =
     (pool p)\<lparr>task_queue := task_queue (pool p) @ map (\<lambda>(s, i). Sendn s msg) sends\<rparr>"
  by (induction sends arbitrary: p) (auto simp: enqueue_send_def enqueue_def)

text \<open>
  \<open>make_request\<close> counts itself and queues the same request message for every destination,
  and changes nothing else of the peer.
\<close>

lemma make_request_eq:
  assumes "length hash = HEX_HASH"
    and "request_sends (byzantines p) (shuffle E (requests_asked p) (c_sockets (client p))) owner = Inr (sends, freed)"
  shows "make_request E hash owner p =
     Inr (p\<lparr>requests_asked := requests_asked p + 1,
            pool := (pool p)\<lparr>task_queue := task_queue (pool p) @
              map (\<lambda>(s, i). Sendn s (request_msg hash (own_id p))) sends\<rparr>\<rparr>)"
proof -
  have frame: "foldl (\<lambda>p (s, i). enqueue_send s msg p) q xs =
      q\<lparr>pool := (pool q)\<lparr>task_queue := task_queue (pool q) @ map (\<lambda>(s, i). Sendn s msg) xs\<rparr>\<rparr>" for msg q xs
    by (induction xs arbitrary: q) (auto simp: enqueue_send_def enqueue_def)
  have "length (request_msg hash (own_id p)) = 73"
    using assms(1) by (simp add: request_msg_def HEX_HASH_def)
  then have "dynamic_copy (request_msg hash (own_id p)) 73 = Inr (request_msg hash (own_id p))"
    by (simp add: dynamic_copy_def)
  then show ?thesis
    using assms by (simp add: make_request_def HEX_HASH_def frame Let_def)
qed

section \<open>Packets of missing vertices\<close>

definition packet_of :: "vertex list \<Rightarrow> string" where
  "packet_of vs = (let bs = concat (map wire vs) in be_enc 4 (length bs) @ drop 4 bs)"

definition wire_length :: "vertex list \<Rightarrow> nat" where
  "wire_length vs = length (concat (map wire vs))"

lemma wire_length_simps [simp]:
  "wire_length [] = 0"
  "wire_length (v # vs) = length (wire v) + wire_length vs"
  "wire_length (vs @ ws) = wire_length vs + wire_length ws"
  by (simp_all add: wire_length_def)

lemma length_wire_ge: "28 \<le> length (wire v)"
  by (simp add: wire_def wire_body_def)

lemma wire_length_zero [simp]: "wire_length vs = 0 \<longleftrightarrow> vs = []"
  using length_wire_ge [of "hd vs"] by (cases vs) auto

text \<open>A vertex that can be sent: its references are hashes and it fits a stream buffer.\<close>

definition sendable :: "vertex \<Rightarrow> bool" where
  "sendable v \<longleftrightarrow> hash_refs v \<and> length (wire v) \<le> MAX_STREAM_SIZE"

lemma serialize_sendable: "sendable v \<Longrightarrow> serialize_data MAX_STREAM_SIZE v = Inr (wire v)"
  by (simp add: sendable_def serialize_wire)

lemma attach_length_packet:
  assumes "vs \<noteq> []" and "wire_length vs < 2 ^ 32"
  shows "attach_length_to_msg (concat (map wire vs)) (wire_length vs) = Inr (packet_of vs)"
proof -
  have "28 \<le> wire_length vs"
    using assms(1) length_wire_ge [of "hd vs"] by (cases vs) auto
  with assms(2) show ?thesis
    using attach_length_ok [of "concat (map wire vs)"] by (simp only: packet_of_def Let_def wire_length_def)
qed

lemma length_packet_of: "vs \<noteq> [] \<Longrightarrow> length (packet_of vs) = wire_length vs"
  using length_wire_ge [of "hd vs"] by (cases vs) (auto simp: packet_of_def wire_length_def Let_def)

text \<open>What a packet that is sent before the end looks like: the last vertex took it to the limit.\<close>

definition full_group :: "vertex list \<Rightarrow> bool" where
  "full_group g \<longleftrightarrow> g \<noteq> [] \<and> 40000 \<le> wire_length g \<and> wire_length (butlast g) < 40000"

lemma missing_loop_groups:
  assumes "\<forall>h \<in> set hs. \<exists>v. vertex_map s h = Some v \<and> sendable v" and "wire_length acc < 40000"
  shows "\<exists>groups acc'.
    missing_loop s hs vertex (concat (map wire acc)) out = Inr (concat (map wire acc'), out @ map packet_of groups) \<and>
    concat groups @ acc' = acc @ map (\<lambda>h. the (vertex_map s h)) hs \<and>
    (\<forall>g \<in> set groups. full_group g) \<and> wire_length acc' < 40000"
  using assms
proof (induction hs arbitrary: vertex acc out)
  case Nil
  then show ?case by (intro exI [of _ "[]"] exI [of _ acc]) simp
next
  case (Cons h hs)
  then obtain v where v: "vertex_map s h = Some v" "sendable v" by auto
  have rest: "\<forall>h \<in> set hs. \<exists>v. vertex_map s h = Some v \<and> sendable v"
    using Cons.prems(1) by simp
  have find: "find_in_map h (Some vertex) s = (True, Some v)"
    using v(1) by (simp add: find_in_map_def umap_find_def)
  have stream: "concat (map wire acc) @ wire v = concat (map wire (acc @ [v]))"
    by simp
  have len: "length (concat (map wire acc) @ wire v) = wire_length (acc @ [v])"
    by (simp add: wire_length_def)
  have small: "wire_length (acc @ [v]) < 2 ^ 32"
    using Cons.prems(2) v(2) by (simp add: sendable_def MAX_STREAM_SIZE_def)
  show ?case
  proof (cases "40000 \<le> wire_length (acc @ [v])")
    case True
    have copy: "dynamic_copy (packet_of (acc @ [v])) (wire_length (acc @ [v])) = Inr (packet_of (acc @ [v]))"
      using length_packet_of [of "acc @ [v]"] by (metis append_is_Nil_conv dynamic_copy_all not_Cons_self2)
    obtain groups acc' where IH:
      "missing_loop s hs v (concat (map wire [])) (out @ [packet_of (acc @ [v])]) =
         Inr (concat (map wire acc'), (out @ [packet_of (acc @ [v])]) @ map packet_of groups)"
      "concat groups @ acc' = [] @ map (\<lambda>h. the (vertex_map s h)) hs"
      "\<forall>g \<in> set groups. full_group g" "wire_length acc' < 40000"
      using Cons.IH [OF rest, of "[]" v "out @ [packet_of (acc @ [v])]"] by auto
    have "missing_loop s (h # hs) vertex (concat (map wire acc)) out =
        Inr (concat (map wire acc'), out @ map packet_of ((acc @ [v]) # groups))"
      using True find v(2) small copy IH(1) attach_length_packet [of "acc @ [v]"] len
      by (simp add: serialize_sendable stream [symmetric] del: wire_length_simps)
    moreover have "full_group (acc @ [v])"
      using True Cons.prems(2) by (simp add: full_group_def)
    ultimately show ?thesis
      using IH v(1) by (intro exI [of _ "(acc @ [v]) # groups"] exI [of _ acc']) auto
  next
    case False
    then obtain groups acc' where IH:
      "missing_loop s hs v (concat (map wire (acc @ [v]))) out =
         Inr (concat (map wire acc'), out @ map packet_of groups)"
      "concat groups @ acc' = (acc @ [v]) @ map (\<lambda>h. the (vertex_map s h)) hs"
      "\<forall>g \<in> set groups. full_group g" "wire_length acc' < 40000"
      using Cons.IH [OF rest, of "acc @ [v]" v out] by auto
    have "missing_loop s (h # hs) vertex (concat (map wire acc)) out =
        Inr (concat (map wire acc'), out @ map packet_of groups)"
      using False find v(2) IH(1) len
      by (simp add: serialize_sendable stream [symmetric] del: wire_length_simps)
    with IH v(1) show ?thesis
      by (intro exI [of _ groups] exI [of _ acc']) auto
  qed
qed

lemma missing_packets_ok:
  assumes "\<forall>h \<in> set hs. \<exists>v. vertex_map s h = Some v \<and> sendable v"
  shows "\<exists>groups.
    missing_packets s hs vertex = Inr (map packet_of groups) \<and>
    concat groups = map (\<lambda>h. the (vertex_map s h)) hs \<and>
    (\<forall>g \<in> set (butlast groups). full_group g) \<and>
    (\<forall>g \<in> set groups. g \<noteq> [] \<and> wire_length (butlast g) < 40000)"
proof -
  obtain groups acc where loop:
    "missing_loop s hs vertex [] [] = Inr (concat (map wire acc), map packet_of groups)"
    "concat groups @ acc = map (\<lambda>h. the (vertex_map s h)) hs"
    "\<forall>g \<in> set groups. full_group g" "wire_length acc < 40000"
    using missing_loop_groups [OF assms, of "[]" vertex "[]"] by auto
  show ?thesis
  proof (cases "acc = []")
    case True
    with loop show ?thesis
      by (intro exI [of _ groups]) (auto simp: missing_packets_def full_group_def dest: in_set_butlastD)
  next
    case False
    then have "concat (map wire acc) \<noteq> []"
      using length_wire_ge [of "hd acc"] by (cases acc) auto
    moreover have "attach_length_to_msg (concat (map wire acc)) (length (concat (map wire acc))) = Inr (packet_of acc)"
      using attach_length_packet [OF False] loop(4) by (simp add: wire_length_def)
    moreover have "dynamic_copy (packet_of acc) (length (concat (map wire acc))) = Inr (packet_of acc)"
      using length_packet_of [OF False] by (metis dynamic_copy_all wire_length_def)
    ultimately have "missing_packets s hs vertex = Inr (map packet_of (groups @ [acc]))"
      using loop(1) by (simp add: missing_packets_def)
    moreover have "wire_length (butlast acc) < 40000"
    proof -
      have "wire_length (butlast acc @ [last acc]) < 40000"
        using False loop(4) by simp
      then show ?thesis by simp
    qed
    ultimately show ?thesis
      using loop False by (intro exI [of _ "groups @ [acc]"]) (auto simp: full_group_def)
  qed
qed

text \<open>
  C36. \<open>send_missing_vertices\<close> splits the vertices of the set, in the order of its iteration, into
  packets: nothing is lost, repeated or reordered, the content of an uninitialised vertex never
  gets out, every packet but the last has reached 40000 bytes with its last vertex, and every
  packet has fewer bytes than 40000 and the largest vertex together.
\<close>

theorem missing_packets_groups:
  assumes "\<forall>h \<in> set hs. \<exists>v. vertex_map s h = Some v \<and> sendable v"
  shows "\<exists>groups.
    missing_packets s hs vertex = Inr (map packet_of groups) \<and>
    concat groups = map (\<lambda>h. the (vertex_map s h)) hs \<and>
    (\<forall>g \<in> set (butlast groups). full_group g) \<and>
    (\<forall>g \<in> set groups. g \<noteq> [] \<and> wire_length (butlast g) < 40000)"
  using assms by (rule missing_packets_ok)

lemma sendable_demo: "sendable demo_vertex"
  using hash_refs_demo length_wire [OF hash_refs_demo]
  by (simp add: sendable_def) (simp add: demo_vertex_def Vertex_def HEX_HASH_def MAX_STREAM_SIZE_def)

theorem missing_packets_groups_witness:
  "\<exists>groups. missing_packets ((fst (demo_server []))\<lparr>vertex_map := [''h'' \<mapsto> demo_vertex]\<rparr>) [''h''] moved_from =
     Inr (map packet_of groups) \<and> concat groups = [demo_vertex]"
  using missing_packets_groups [of "[''h'']" "(fst (demo_server []))\<lparr>vertex_map := [''h'' \<mapsto> demo_vertex]\<rparr>" moved_from]
    sendable_demo
  by auto

section \<open>Broadcast and replies\<close>

lemma broadcast_loop:
  "foldR (\<lambda>socket_fd (p', count).
      if count < n - 1
      then bindR (dynamic_copy data (length data)) (\<lambda>ptr. Inr (enqueue_send socket_fd ptr p', count + 1))
      else Inl Out_Of_Bounds) socks (p, c) =
   (if socks = [] \<or> c + int (length socks) \<le> n - 1
    then Inr (p\<lparr>pool := (pool p)\<lparr>task_queue := task_queue (pool p) @ map (\<lambda>s. Sendn s data) socks\<rparr>\<rparr>,
              c + int (length socks))
    else Inl Out_Of_Bounds)"
  by (induction socks arbitrary: p c) (auto simp: enqueue_send_def enqueue_def)

text \<open>
  \<open>broadcast\<close> queues one task for every open connection, each with its own copy of the same
  bytes and in the order of the connections; with more connections than other validators it
  writes beyond its table of copies.
\<close>

lemma broadcast_eq:
  "broadcast data p =
     (let socks = c_sockets (client p) in
      if socks = [] \<or> int (length socks) \<le> crowd p - 1
      then Inr (p\<lparr>pool := (pool p)\<lparr>task_queue := task_queue (pool p) @ map (\<lambda>s. Sendn s data) socks\<rparr>\<rparr>)
      else Inl Out_Of_Bounds)"
  by (simp add: broadcast_def broadcast_loop Let_def)

lemma deliver_request_spec:
  assumes "sendable v"
  shows "deliver_request (pid, v) p =
    (case lookup_socket pid p of (sockfd, p') \<Rightarrow> Inr (enqueue_send sockfd (packet_of [v]) p'))"
proof -
  have "attach_length_to_msg (wire v) (length (wire v)) = Inr (packet_of [v])"
    using attach_length_packet [of "[v]"] assms
    by (simp add: wire_length_def sendable_def MAX_STREAM_SIZE_def)
  moreover have "dynamic_copy (packet_of [v]) (length (wire v)) = Inr (packet_of [v])"
    using length_packet_of [of "[v]"] dynamic_copy_all [of "packet_of [v]"] by simp
  ultimately show ?thesis
    using assms by (simp add: deliver_request_def serialize_sendable split: prod.split)
qed

text \<open>
  The id in a request is not checked: for an id that no known peer has, the reply is queued
  for descriptor 0 and the id is entered into the table of connections.
\<close>

theorem deliver_request_unknown_id:
  assumes "sendable v" and "socket_map (client p) pid = None"
  shows "\<exists>p'. deliver_request (pid, v) p = Inr p' \<and>
    task_queue (pool p') = task_queue (pool p) @ [Sendn 0 (packet_of [v])] \<and>
    socket_map (client p') pid = Some 0"
  using assms
  by (simp add: deliver_request_spec lookup_socket_def get_socket_def enqueue_send_def enqueue_def)

theorem deliver_request_unknown_id_witness:
  "\<exists>q. deliver_request (99, demo_vertex) demo_peer = Inr q \<and> task_queue (pool q) = [Sendn 0 (packet_of [demo_vertex])]"
  using deliver_request_unknown_id [OF sendable_demo, of demo_peer 99]
  by (auto simp: demo_peer_def Threadpool_def)

section \<open>Wave windows\<close>

lemma wave_work_eq:
  assumes "0 \<le> cur_round p"
  shows "wave_work E p =
    (let k = cur_round p div 4 in
     if 2 \<le> k \<and> cur_round p = 4 * k then dag_scan (4 * (k - 1)) (4 * (k - 2)) p
     else if 2 \<le> k \<and> cur_round p = 4 * k + 2 then total_order E (4 * (k - 1)) (4 * (k - 2)) p
     else Inr p)"
proof -
  define r where "r = cur_round p"
  define k where "k = r div 4"
  have r: "r = 4 * k + r mod 4" by (simp add: k_def)
  have "0 \<le> r mod 4" "r mod 4 < 4" by simp_all
  then consider "r mod 4 = 0" | "r mod 4 = 1" | "r mod 4 = 2" | "r mod 4 = 3" by linarith
  then show ?thesis
  proof cases
    case 1
    then have "r = 4 * k" using r by simp
    moreover from this have "r - 4 = 4 * (k - 1)" "r - 2 * 4 = 4 * (k - 2)" "4 < r \<longleftrightarrow> 2 \<le> k" by auto
    ultimately show ?thesis using 1
      by (simp add: wave_work_def WAVE_def HALF_WAVE_def Let_def flip: r_def k_def)
  next
    case 3
    then have "r = 4 * k + 2" using r by simp
    moreover from this have "r - (4 + 2) = 4 * (k - 1)" "4 * (k - 1) - 4 = 4 * (k - 2)" "2 * 4 < r \<longleftrightarrow> 2 \<le> k" by auto
    ultimately show ?thesis using 3
      by (simp add: wave_work_def WAVE_def HALF_WAVE_def Let_def flip: r_def k_def)
  qed (use r in \<open>simp_all add: wave_work_def WAVE_def HALF_WAVE_def Let_def flip: r_def k_def\<close>)
qed

text \<open>
  The wave schedule: in round \<open>4 k\<close>, from the third wave on, the window of rounds
  \<open>4 (k - 2)\<close> to \<open>4 (k - 1) - 1\<close> is scanned for missing vertices, and exactly this window is
  ordered half a wave later, in round \<open>4 k + 2\<close>; in every other round nothing is due. So the
  windows tile the rounds, and each is scanned before it is ordered.
\<close>

theorem wave_schedule:
  assumes "0 \<le> cur_round p"
  shows "wave_work E p =
    (let k = cur_round p div 4 in
     if 2 \<le> k \<and> cur_round p = 4 * k then dag_scan (4 * (k - 1)) (4 * (k - 2)) p
     else if 2 \<le> k \<and> cur_round p = 4 * k + 2 then total_order E (4 * (k - 1)) (4 * (k - 2)) p
     else Inr p)"
  using assms by (rule wave_work_eq)

theorem wave_schedule_witness:
  "wave_work demo_env (demo_peer\<lparr>cur_round := 12\<rparr>) = dag_scan 8 4 (demo_peer\<lparr>cur_round := 12\<rparr>) \<and>
   wave_work demo_env (demo_peer\<lparr>cur_round := 14\<rparr>) = total_order demo_env 8 4 (demo_peer\<lparr>cur_round := 14\<rparr>)"
  using wave_schedule [of "demo_peer\<lparr>cur_round := 12\<rparr>" demo_env] wave_schedule [of "demo_peer\<lparr>cur_round := 14\<rparr>" demo_env]
  by simp

lemma dag_scan_loop:
  assumes "\<forall>i \<in> set is. 0 \<le> i \<and> i < int (length (dag_image p))"
  shows "foldR (\<lambda>i p. bindR (vec_at (dag_image p) i) (\<lambda>D.
      if int (card D) < size_t (crowd p) then Inr (p\<lparr>detached := detached p @ [i]\<rparr>) else Inr p)) is p =
    Inr (p\<lparr>detached := detached p @ filter (\<lambda>i. int (card (dag_image p ! nat i)) < size_t (crowd p)) is\<rparr>)"
  using assms by (induction "is" arbitrary: p) (auto simp: vec_at_def)

text \<open>
  \<open>dag_scan\<close> launches one search for each incomplete round of its window (from round 0 when
  the window would begin below), and for no other.
\<close>

lemma dag_scan_eq:
  assumes "end \<le> int (length (dag_image p))"
  shows "dag_scan end start p =
    Inr (p\<lparr>detached := detached p @
      filter (\<lambda>i. int (card (dag_image p ! nat i)) < size_t (crowd p)) [max 0 start..end - 1]\<rparr>)"
proof -
  have "(if start < 0 then 0 else start) = max 0 start" by simp
  then show ?thesis
    using dag_scan_loop [of "[max 0 start..end - 1]" p] assms
    by (simp add: dag_scan_def Let_def)
qed

end
