(* ===== verification/Dag_Hash.thy ===== *)
theory Dag_Hash
  imports Peer_Ops
begin

text \<open>
  The summary of a DAG that a peer hands to the parent process: \<open>hash_set\<close> and \<open>hash_dag\<close> of
  \<open>peer.cpp\<close>. The hash of a round does not depend on the iteration order of the set, and two
  peers with the same summary have the same DAG up to the last three waves, as far as the hash
  function does not collide.
\<close>

lemma sort_iter:
  assumes "iter_ok it" and "finite S"
  shows "sort (it S) = sorted_list_of_set S"
  using iter_okD [OF assms] assms(2)
  by (intro sorted_distinct_set_unique) (auto simp: distinct_sort)

definition round_text :: "string set \<Rightarrow> string" where
  "round_text D = concat (sorted_list_of_set D)"

lemma hash_set_eq:
  assumes "iter_ok (iter E)" and "i < length (dag_image p)" and "finite (dag_image p ! i)"
  shows "hash_set E (int i) p = Inr (hash_256 (crypt E) (round_text (dag_image p ! i)))"
  using assms by (simp add: hash_set_def vec_at_def sort_iter round_text_def)

lemma hash_dag_loop_eq:
  assumes "iter_ok (iter E)" and "\<forall>D \<in> set (dag_image p). finite D"
    and "b = size_t (int (length (dag_image p)) - 3 * WAVE)" and "i \<le> length (dag_image p)" and "int i \<le> b"
  shows "hash_dag_loop E p (int i) str =
    (if b \<le> int (length (dag_image p))
     then Inr (str @ concat (map (\<lambda>D. hash_256 (crypt E) (round_text D)) (drop i (take (nat b) (dag_image p)))))
     else Inl Out_Of_Bounds)"
  using assms(4,5)
proof (induction "length (dag_image p) - i" arbitrary: i str)
  case 0
  then have "i = length (dag_image p)" by simp
  then show ?case
    using 0 by (simp add: hash_dag_loop.simps [of E p _ str] assms(3) [symmetric] hash_set_def vec_at_def)
next
  case (Suc n)
  then have i: "i < length (dag_image p)" by simp
  show ?case
  proof (cases "int i < b")
    case False
    with Suc.prems have "int i = b" by simp
    with i show ?thesis
      by (auto simp: hash_dag_loop.simps [of E p _ str] assms(3) [symmetric])
  next
    case True
    have n: "n = length (dag_image p) - Suc i" using Suc.hyps(2) by simp
    have IH: "hash_dag_loop E p (int (Suc i)) str' =
        (if b \<le> int (length (dag_image p))
         then Inr (str' @ concat (map (\<lambda>D. hash_256 (crypt E) (round_text D)) (drop (Suc i) (take (nat b) (dag_image p)))))
         else Inl Out_Of_Bounds)" for str'
      using Suc.hyps(1) [OF n] i True by simp
    have "hash_set E (int i) p = Inr (hash_256 (crypt E) (round_text (dag_image p ! i)))"
      using hash_set_eq [OF assms(1) i] assms(2) i by simp
    moreover have "drop i (take (nat b) (dag_image p)) = dag_image p ! i # drop (Suc i) (take (nat b) (dag_image p))"
      if "b \<le> int (length (dag_image p))"
      using i True that by (subst Cons_nth_drop_Suc [symmetric]) auto
    ultimately show ?thesis
      using IH True by (simp add: hash_dag_loop.simps [of E p "int i"] assms(3) [symmetric] add.commute)
  qed
qed

text \<open>
  \<open>hash_dag\<close> on a DAG of at least twelve rounds is the hash of the concatenated hashes of its
  rounds, each the hash of the sorted vertex hashes of the round, without the last twelve
  rounds; it does not depend on the iteration order of the sets. With fewer rounds the unsigned
  subtraction wraps, and the loop runs past the end of the vector.
\<close>

lemma hash_dag_eq:
  assumes "iter_ok (iter E)" and "\<forall>D \<in> set (dag_image p). finite D" and "length (dag_image p) < 2 ^ 63"
  shows "hash_dag E p =
    (if 12 \<le> length (dag_image p)
     then Inr (hash_256 (crypt E) (concat (map (\<lambda>D. hash_256 (crypt E) (round_text D))
                 (take (length (dag_image p) - 12) (dag_image p)))))
     else Inl Out_Of_Bounds)"
proof -
  let ?n = "length (dag_image p)"
  let ?b = "size_t (int ?n - 3 * WAVE)"
  have wave: "3 * WAVE = 12" by (simp add: WAVE_def)
  show ?thesis
  proof (cases "12 \<le> ?n")
    case True
    then have "?b = int ?n - 12"
      using assms(3) by (simp add: wave)
    then show ?thesis
      using True hash_dag_loop_eq [OF assms(1,2) refl, of 0 "[]"] by (simp add: hash_dag_def nat_diff_distrib')
  next
    case False
    have "?b = (int ?n - 12) mod 2 ^ 64" by (simp add: size_t_def wave)
    also have "\<dots> = (int ?n - 12 + 2 ^ 64) mod 2 ^ 64"
      by (rule mod_add_self2 [symmetric])
    also have "\<dots> = int ?n - 12 + 2 ^ 64"
      using False by (intro mod_pos_pos_trivial) auto
    finally have "\<not> ?b \<le> int ?n" by simp
    then show ?thesis
      using False hash_dag_loop_eq [OF assms(1,2) refl, of 0 "[]"] by (simp add: hash_dag_def)
  qed
qed

section \<open>What equal summaries mean\<close>

lemma concat_inject_uniform:
  assumes "concat xs = concat ys" and "\<forall>x \<in> set xs. length x = n" and "\<forall>y \<in> set ys. length y = n" and "0 < n"
  shows "xs = ys"
  using assms
proof (induction xs arbitrary: ys)
  case Nil
  then show ?case by (cases ys) auto
next
  case (Cons x xs)
  then have "length (concat ys) \<noteq> 0" by (metis concat.simps(2) append_is_Nil_conv length_0_conv list.set_intros(1) not_gr_zero)
  then obtain y ys' where ys: "ys = y # ys'" by (cases ys) auto
  have "x @ concat xs = y @ concat ys'" and "length x = length y"
    using Cons.prems by (auto simp: ys)
  then have "x = y" and "concat xs = concat ys'" by auto
  with Cons ys show ?case by auto
qed

lemma round_text_inject:
  assumes "round_text D = round_text D'" and "finite D" and "finite D'"
    and "\<forall>h \<in> D. length h = HEX_HASH" and "\<forall>h \<in> D'. length h = HEX_HASH"
  shows "D = D'"
proof -
  have "sorted_list_of_set D = sorted_list_of_set D'"
    using assms by (intro concat_inject_uniform [of _ _ HEX_HASH]) (auto simp: round_text_def HEX_HASH_def)
  then show ?thesis
    using assms(2,3) by (metis set_sorted_list_of_set)
qed

text \<open>The part of the DAG that is compared, and the texts that are hashed for it.\<close>

definition settled :: "peer \<Rightarrow> string set list" where
  "settled p = take (length (dag_image p) - 12) (dag_image p)"

definition dag_text :: "crypto \<Rightarrow> peer \<Rightarrow> string" where
  "dag_text C p = concat (map (\<lambda>D. hash_256 C (round_text D)) (settled p))"

definition dag_ok :: "peer \<Rightarrow> bool" where
  "dag_ok p \<longleftrightarrow> 12 \<le> length (dag_image p) \<and> length (dag_image p) < 2 ^ 63 \<and>
     (\<forall>D \<in> set (dag_image p). finite D \<and> (\<forall>h \<in> D. length h = HEX_HASH))"

lemma hash_dag_iff:
  assumes "crypto_ok (crypt E)" and "crypt E' = crypt E" and "iter_ok (iter E)" and "iter_ok (iter E')"
    and "dag_ok p" and "dag_ok q"
    and "inj_on (hash_256 (crypt E)) (round_text ` (set (dag_image p) \<union> set (dag_image q)))"
    and "inj_on (hash_256 (crypt E)) {dag_text (crypt E) p, dag_text (crypt E) q}"
  shows "hash_dag E p = hash_dag E' q \<longleftrightarrow> settled p = settled q"
proof -
  let ?H = "hash_256 (crypt E)"
  have p: "hash_dag E p = Inr (?H (dag_text (crypt E) p))" and q: "hash_dag E' q = Inr (?H (dag_text (crypt E) q))"
    using hash_dag_eq [OF assms(3), of p] hash_dag_eq [OF assms(4), of q] assms(2,5,6)
    by (auto simp: dag_ok_def dag_text_def settled_def)
  show ?thesis
  proof
    assume "settled p = settled q"
    then show "hash_dag E p = hash_dag E' q"
      by (simp add: p q dag_text_def)
  next
    assume "hash_dag E p = hash_dag E' q"
    then have "?H (dag_text (crypt E) p) = ?H (dag_text (crypt E) q)"
      by (simp add: p q)
    with assms(8) have "dag_text (crypt E) p = dag_text (crypt E) q"
      by (rule inj_onD) simp_all
    then have "concat (map (\<lambda>D. ?H (round_text D)) (settled p)) = concat (map (\<lambda>D. ?H (round_text D)) (settled q))"
      by (simp only: dag_text_def)
    then have "map (\<lambda>D. ?H (round_text D)) (settled p) = map (\<lambda>D. ?H (round_text D)) (settled q)"
      using length_hash_256 [OF assms(1)]
      by (intro concat_inject_uniform [of _ _ HEX_HASH]) (auto simp: HEX_HASH_def)
    moreover have "inj_on (\<lambda>D. ?H (round_text D)) (set (settled p) \<union> set (settled q))"
    proof (rule inj_onI)
      fix D D'
      assume D: "D \<in> set (settled p) \<union> set (settled q)" "D' \<in> set (settled p) \<union> set (settled q)"
        and eq: "?H (round_text D) = ?H (round_text D')"
      from D have mem: "D \<in> set (dag_image p) \<union> set (dag_image q)" "D' \<in> set (dag_image p) \<union> set (dag_image q)"
        by (auto simp: settled_def dest: in_set_takeD)
      with eq assms(7) have "round_text D = round_text D'"
        by (auto dest: inj_onD)
      then show "D = D'"
        using mem assms(5,6) by (intro round_text_inject) (auto simp: dag_ok_def)
    qed
    ultimately show "settled p = settled q"
      by (rule map_inj_on)
  qed
qed

text \<open>
  Agreement: two peers report the same DAG hash exactly if their DAGs agree in every round
  but the last twelve, provided that the hash function has no collision among the texts that
  they hash.
\<close>

theorem hash_dag_agreement:
  assumes "crypto_ok (crypt E)" and "crypt E' = crypt E" and "iter_ok (iter E)" and "iter_ok (iter E')"
    and "dag_ok p" and "dag_ok q"
    and "inj_on (hash_256 (crypt E)) (round_text ` (set (dag_image p) \<union> set (dag_image q)))"
    and "inj_on (hash_256 (crypt E)) {dag_text (crypt E) p, dag_text (crypt E) q}"
  shows "hash_dag E p = hash_dag E' q \<longleftrightarrow> settled p = settled q"
  using assms by (rule hash_dag_iff)

theorem hash_dag_agreement_witness:
  "hash_dag demo_env (demo_peer\<lparr>dag_image := {} # replicate 12 {}\<rparr>) \<noteq>
   hash_dag demo_env (demo_peer\<lparr>dag_image := {replicate 64 CHR ''A''} # replicate 12 {}\<rparr>)"
proof -
  let ?a = "replicate 64 CHR ''A''"
  let ?p = "demo_peer\<lparr>dag_image := {} # replicate 12 {}\<rparr>" and ?q = "demo_peer\<lparr>dag_image := {?a} # replicate 12 {}\<rparr>"
  have C: "crypt demo_env = demo_crypto" and it: "iter_ok (iter demo_env)"
    by (simp_all add: demo_env_def iter_ok_sorted)
  have ok: "dag_ok ?p" "dag_ok ?q" by (simp_all add: dag_ok_def HEX_HASH_def)
  have rt: "round_text {} = []" "round_text {?a} = ?a" by (simp_all add: round_text_def)
  have settled: "settled ?p = [{}]" "settled ?q = [{?a}]" by (simp_all add: settled_def)
  have h: "hash_256 demo_crypto [] \<noteq> hash_256 demo_crypto ?a" by code_simp
  have hh: "hash_256 demo_crypto (hash_256 demo_crypto []) \<noteq> hash_256 demo_crypto (hash_256 demo_crypto ?a)"
    by code_simp
  have "inj_on (hash_256 (crypt demo_env)) (round_text ` (set (dag_image ?p) \<union> set (dag_image ?q)))"
    using h by (auto simp: C rt inj_on_def)
  moreover have "inj_on (hash_256 (crypt demo_env)) {dag_text (crypt demo_env) ?p, dag_text (crypt demo_env) ?q}"
    using hh by (auto simp: C dag_text_def settled rt inj_on_def)
  ultimately show ?thesis
    using hash_dag_agreement [of demo_env demo_env ?p ?q] crypto_ok_demo ok it settled by (simp add: C)
qed

end
