(* ===== verification/Frame.thy ===== *)
theory Frame
  imports Dag_Hash
begin

text \<open>
  What the operations of a peer leave alone. Sending, asking, ordering and blaming touch the
  connections, the pool, the black list and the counters only; \<open>same_core\<close> says that the round,
  the DAG, the vertex map, the buffer and the parameters are the same. The scan of the buffer
  changes the DAG besides, and there it only adds.
\<close>

section \<open>The untouched core\<close>

definition same_core :: "peer \<Rightarrow> peer \<Rightarrow> bool" where
  "same_core p q \<longleftrightarrow>
     cur_round q = cur_round p \<and> crowd q = crowd p \<and> last_round q = last_round p \<and>
     byzantines q = byzantines p \<and> own_id q = own_id p \<and> server q = server p \<and>
     buffer q = buffer p \<and> requests q = requests p \<and> fail q = fail p \<and> dag_image q = dag_image p"

lemma same_core_refl [simp, intro]: "same_core p p"
  by (simp add: same_core_def)

lemma same_core_trans: "same_core p q \<Longrightarrow> same_core q r \<Longrightarrow> same_core p r"
  by (simp add: same_core_def)

lemma foldR_core:
  assumes "foldR f xs p = Inr q"
    and "\<And>x p q. x \<in> set xs \<Longrightarrow> f x p = Inr q \<Longrightarrow> same_core p q"
  shows "same_core p q"
  using assms(1)
proof (rule foldR_inv [where I = "same_core p"])
  fix x s t
  assume "x \<in> set xs" "same_core p s" "f x s = Inr t"
  then show "same_core p t" using assms(2) same_core_trans by blast
qed simp

lemma same_core_enqueue_send [simp, intro]: "same_core p (enqueue_send s m p)"
  by (simp add: same_core_def enqueue_send_def)

lemma same_core_lookup: "lookup_socket pid p = (s, q) \<Longrightarrow> same_core p q"
  by (auto simp: lookup_socket_def same_core_def split: prod.splits)

lemma same_core_sends: "same_core p (foldl (\<lambda>p m. enqueue_send (f m) (g m) p) p ms)"
  by (induction ms rule: rev_induct) (auto intro: same_core_trans)

lemma broadcast_core: "broadcast data p = Inr q \<Longrightarrow> same_core p q"
  by (auto simp: broadcast_eq Let_def same_core_def split: if_splits)

lemma deliver_request_core: "deliver_request r p = Inr q \<Longrightarrow> same_core p q"
  by (auto simp: deliver_request_def bindR_Inr_iff split: prod.splits
      intro: same_core_trans [OF same_core_lookup])

lemma send_missing_core: "send_missing_vertices E s S p = Inr q \<Longrightarrow> same_core p q"
  by (auto simp: send_missing_vertices_def bindR_Inr_iff same_core_sends)

lemma make_request_sends_core:
  "same_core p (foldl (\<lambda>p (sockfd, i). enqueue_send sockfd m p) (p\<lparr>requests_asked := k\<rparr>) sends)"
proof -
  have "same_core p (p\<lparr>requests_asked := k\<rparr>)" by (simp add: same_core_def)
  moreover have "same_core (p\<lparr>requests_asked := k\<rparr>)
      (foldl (\<lambda>p (sockfd, i). enqueue_send sockfd m p) (p\<lparr>requests_asked := k\<rparr>) sends)"
    using same_core_sends [of "p\<lparr>requests_asked := k\<rparr>" fst "\<lambda>_. m" sends] by (simp add: case_prod_beta')
  ultimately show ?thesis by (rule same_core_trans)
qed

lemma make_request_core: "make_request E h s p = Inr q \<Longrightarrow> same_core p q"
  by (cases "dynamic_copy (request_msg h (own_id p)) (length h + 8 + 1)";
      cases "request_sends (byzantines p) (shuffle E (requests_asked p) (c_sockets (client p))) s")
    (auto simp: make_request_def Let_def make_request_sends_core split: if_splits)

lemma check_round_core: "check_round E r p = Inr q \<Longrightarrow> same_core p q"
  unfolding check_round_def
  by (erule foldR_core)
    (auto simp: bindR_Inr_iff Let_def split: if_splits prod.splits
      intro: same_core_trans [OF same_core_lookup make_request_core])

lemma dag_scan_core: "dag_scan e s p = Inr q \<Longrightarrow> same_core p q"
  unfolding dag_scan_def Let_def
  by (erule foldR_core) (auto simp: bindR_Inr_iff same_core_def split: if_splits)

lemma blame_core:
  assumes "blame pid p = Inr q"
  shows "same_core p q"
proof -
  let ?p = "p\<lparr>black_list := uset_emplace pid (black_list p)\<rparr>"
  obtain d r socks where r: "lookup_socket pid ?p = (d, r)"
    and q: "q = r\<lparr>client := (client r)\<lparr>c_sockets := socks\<rparr>\<rparr>"
    using assms by (auto simp: blame_def bindR_Inr_iff split: prod.splits)
  have "same_core p ?p" and "same_core r q" by (simp_all add: q same_core_def)
  then show ?thesis
    using same_core_lookup [OF r] by (blast intro: same_core_trans)
qed

lemma total_order_core: "total_order E e s p = Inr q \<Longrightarrow> same_core p q"
  unfolding total_order_def
proof (erule foldR_core)
  fix i p q
  let ?body = "\<lambda>D j p. bindR (get_peer_id_at j (client p)) (\<lambda>peerID.
    let hash = hash_256 (crypt E) (to_string (i + 1) @ to_string (uint peerID)) in
    if hash \<notin> D then blame peerID p else Inr p)"
  assume "bindR (vec_at (dag_image p) i) (\<lambda>D. if int (card D) < size_t (crowd p)
    then foldR (?body D) [0..crowd p - 2] p else Inr p) = Inr q"
  moreover have "same_core s t" if "?body D j s = Inr t" for D j s t
    using that by (auto simp: bindR_Inr_iff Let_def split: if_splits intro: blame_core)
  then have "same_core p q" if "foldR (?body D) xs p = Inr q" for D xs
    using foldR_core [OF that] by blast
  ultimately show "same_core p q"
    by (auto simp: bindR_Inr_iff split: if_splits)
qed

lemma wave_work_core: "wave_work E p = Inr q \<Longrightarrow> same_core p q"
  by (auto simp: wave_work_def Let_def split: if_splits intro: dag_scan_core total_order_core)

lemma requests_core: "foldR deliver_request rs p = Inr q \<Longrightarrow> same_core p q"
  by (erule foldR_core) (rule deliver_request_core)

lemma offer_missing_core:
  "offer_missing E v (p, l) = Inr (q, l') \<Longrightarrow> same_core p q \<and> stop_round l' = stop_round l"
  by (auto simp: offer_missing_def Let_def bindR_Inr_iff split: if_splits prod.splits
      intro: same_core_trans [OF same_core_lookup send_missing_core])

end
