(* ===== verification/Dag.thy ===== *)
theory Dag
  imports Frame
begin

text \<open>
  One validator as a system: the thread that advances rounds and scans the buffer, the server
  thread, the detached searches and the workers of the pool take turns. The invariant says what
  the local DAG is worth: every vertex in it is stored and rests on a quorum of references that
  are all in the round before, every round that was left has a quorum, and no vertex that was
  received is lost or kept twice.
\<close>

section \<open>The invariant\<close>

text \<open>The hash of the validator's own vertex of a round.\<close>

definition own_key :: "crypto \<Rightarrow> peer \<Rightarrow> int \<Rightarrow> string" where
  "own_key C p r = hash_256 C (vertex_key r (own_id p))"

text \<open>
  \<open>alien C p i h\<close>: \<open>h\<close> is not the hash of an own vertex of another round than the one whose
  vertices are at index \<open>i\<close> of the DAG.
\<close>

definition alien :: "crypto \<Rightarrow> peer \<Rightarrow> nat \<Rightarrow> string \<Rightarrow> bool" where
  "alien C p i h \<longleftrightarrow> (\<forall>r \<in> {1..last_round p}. own_key C p r = h \<longrightarrow> r = int i + 1)"

definition vouched :: "crypto \<Rightarrow> peer \<Rightarrow> nat \<Rightarrow> string \<Rightarrow> bool" where
  "vouched C p i h \<longleftrightarrow> (\<exists>v. vertex_map (server p) h = Some v \<and> vertex_hash C v = h \<and>
     sint (vround v) = int i + 1 \<and>
     (0 < i \<longrightarrow> set (references v) \<subseteq> dag_image p ! (i - 1) \<and>
        majority (crowd p) \<le> int (length (references v))))"

definition wf_peer :: "peer \<Rightarrow> bool" where
  "wf_peer p \<longleftrightarrow> 1 \<le> crowd p \<and> crowd p < 2 ^ 31 \<and> byzantines p = max_byzantines (crowd p) \<and>
     0 \<le> cur_round p \<and> cur_round p \<le> last_round p + 1 \<and> 0 \<le> last_round p \<and> last_round p < 2 ^ 31 \<and>
     int (length (dag_image p)) = min (cur_round p) (last_round p) \<and>
     (\<forall>D \<in> set (dag_image p). finite D)"

definition supported :: "crypto \<Rightarrow> peer \<Rightarrow> bool" where
  "supported C p \<longleftrightarrow> (\<forall>i < length (dag_image p). own_key C p (int i + 1) \<in> dag_image p ! i \<and>
     (\<forall>h \<in> dag_image p ! i. alien C p i h \<longrightarrow> vouched C p i h))"

definition quorate :: "peer \<Rightarrow> bool" where
  "quorate p \<longleftrightarrow> (\<forall>i. int i + 1 < cur_round p \<longrightarrow> majority (crowd p) \<le> int (card (dag_image p ! i)))"

text \<open>The vertices \<open>ws\<close> that wait for being added to the DAG.\<close>

definition waiting_ok :: "crypto \<Rightarrow> peer \<Rightarrow> vertex list \<Rightarrow> bool" where
  "waiting_ok C p ws \<longleftrightarrow> distinct (map (vertex_hash C) ws) \<and>
     (\<forall>v \<in> set ws. admissible (majority (crowd p)) v \<and>
        (vertex_map (server p) (vertex_hash C v) = Some v \<or>
         vertex_hash C v \<in> own_key C p ` {1..int (length (dag_image p))}))"

definition conserved :: "crypto \<Rightarrow> peer \<Rightarrow> vertex list \<Rightarrow> bool" where
  "conserved C p ws \<longleftrightarrow>
     dom (vertex_map (server p)) = vertex_hash C ` set ws \<union> \<Union> (set (dag_image p))"

definition dag_inv :: "crypto \<Rightarrow> peer \<Rightarrow> vertex list \<Rightarrow> bool" where
  "dag_inv C p ws \<longleftrightarrow> wf_peer p \<and> supported C p \<and> quorate p \<and> waiting_ok C p ws \<and>
     conserved C p ws \<and> keyed C (server p)"

lemmas dag_inv_defs = dag_inv_def wf_peer_def supported_def quorate_def waiting_ok_def conserved_def
  keyed_def alien_def vouched_def own_key_def

lemma dag_inv_same:
  assumes "cur_round q = cur_round p" "crowd q = crowd p" "last_round q = last_round p"
    "byzantines q = byzantines p" "own_id q = own_id p" "dag_image q = dag_image p"
    and "vertex_map (server q) = vertex_map (server p)" and "dag_inv C p ws"
  shows "dag_inv C q ws"
  using assms(8) unfolding dag_inv_defs assms(1-7) .

lemma dag_inv_core: "same_core p q \<Longrightarrow> dag_inv C p ws \<Longrightarrow> dag_inv C q ws"
  by (erule dag_inv_same [rotated -1]) (simp_all add: same_core_def)

section \<open>A vertex moves from the buffer into the DAG\<close>

lemma vouched_mono:
  assumes "vouched C p i h" and "vertex_map (server q) h = vertex_map (server p) h" and "crowd q = crowd p"
    and "0 < i \<Longrightarrow> dag_image p ! (i - 1) \<subseteq> dag_image q ! (i - 1)"
  shows "vouched C q i h"
  using assms unfolding vouched_def by auto

definition grow_dag :: "nat \<Rightarrow> string \<Rightarrow> peer \<Rightarrow> peer" where
  "grow_dag k h p = p\<lparr>dag_image := (dag_image p)[k := insert h (dag_image p ! k)]\<rparr>"

lemma grow_dag_sel [simp]:
  "cur_round (grow_dag k h p) = cur_round p" "crowd (grow_dag k h p) = crowd p"
  "last_round (grow_dag k h p) = last_round p" "byzantines (grow_dag k h p) = byzantines p"
  "server (grow_dag k h p) = server p" "own_key C (grow_dag k h p) = own_key C p"
  "alien C (grow_dag k h p) = alien C p"
  "length (dag_image (grow_dag k h p)) = length (dag_image p)"
  by (simp_all add: grow_dag_def own_key_def alien_def fun_eq_iff)

lemma grow_dag_nth:
  "i < length (dag_image p) \<Longrightarrow>
     dag_image (grow_dag k h p) ! i = (if i = k then insert h (dag_image p ! k) else dag_image p ! i)"
  by (simp add: grow_dag_def)

lemma Union_grow_dag:
  "k < length (dag_image p) \<Longrightarrow> \<Union> (set (dag_image (grow_dag k h p))) = insert h (\<Union> (set (dag_image p)))"
  by (simp add: grow_dag_def upd_conv_take_nth_drop)
    (subst (3) id_take_nth_drop [of k "dag_image p"], auto)

text \<open>What the scan has checked of the vertex that it adds at index \<open>k\<close>.\<close>

definition joins :: "peer \<Rightarrow> nat \<Rightarrow> vertex \<Rightarrow> bool" where
  "joins p k v \<longleftrightarrow> sint (vround v) = int k + 1 \<and> k < length (dag_image p) \<and>
     (0 < k \<longrightarrow> set (references v) \<subseteq> dag_image p ! (k - 1))"

lemma supported_grow:
  assumes "supported C p" and "joins p k v" and "admissible (majority (crowd p)) v"
    and "vertex_map (server p) (vertex_hash C v) = Some v \<or>
      vertex_hash C v \<in> own_key C p ` {1..int (length (dag_image p))}"
    and "int (length (dag_image p)) \<le> last_round p"
  shows "supported C (grow_dag k (vertex_hash C v) p)"
proof -
  let ?h = "vertex_hash C v"
  let ?q = "grow_dag k ?h p"
  have k: "k < length (dag_image p)" "sint (vround v) = int k + 1"
    using assms(2) by (auto simp: joins_def)
  have old: "vouched C ?q i h" if "vouched C p i h" "i < length (dag_image p)" for i h
    using that by (intro vouched_mono [OF that(1)]) (auto simp: grow_dag_nth)
  have new: "vouched C ?q k ?h" if al: "alien C p k ?h"
  proof (cases "?h \<in> own_key C p ` {1..int (length (dag_image p))}")
    case True
    with al assms(5) have "?h = own_key C p (int k + 1)"
      by (auto simp: alien_def)
    with assms(1) k(1) al have "vouched C p k ?h"
      by (simp add: supported_def)
    with k(1) show ?thesis by (rule old [rotated])
  next
    case False
    have "majority (crowd p) \<le> int (length (references v))" if "0 < k"
    proof -
      have "vround v \<noteq> 1" using that k(2) by auto
      with assms(3) show ?thesis by (simp add: admissible_def)
    qed
    then show ?thesis
      using k False assms(2,4) by (auto simp: vouched_def grow_dag_nth joins_def)
  qed
  show ?thesis
    unfolding supported_def
    using assms(1) old new k(1) by (auto simp: supported_def grow_dag_nth)
qed

lemma dag_inv_join:
  assumes "dag_inv C p (ws @ v # ws')" and "joins p k v"
  shows "dag_inv C (grow_dag k (vertex_hash C v) p) (ws @ ws')"
proof -
  let ?h = "vertex_hash C v"
  let ?q = "grow_dag k ?h p"
  have inv: "wf_peer p" "supported C p" "quorate p" "waiting_ok C p (ws @ v # ws')"
    "conserved C p (ws @ v # ws')" "keyed C (server p)"
    using assms(1) by (simp_all add: dag_inv_def)
  have k: "k < length (dag_image p)" using assms(2) by (simp add: joins_def)
  have fin: "finite D" if "D \<in> set (dag_image p)" for D
    using inv(1) that by (simp add: wf_peer_def)
  then have fin_q: "\<forall>D \<in> set (dag_image ?q). finite D"
    using k by (auto simp: grow_dag_def dest!: set_update_subset_insert [THEN subsetD])
  have "wf_peer ?q"
    using inv(1) fin_q by (simp add: wf_peer_def)
  moreover have "supported C ?q"
    using inv assms(2) by (intro supported_grow) (auto simp: waiting_ok_def wf_peer_def)
  moreover have "quorate ?q"
    unfolding quorate_def
  proof (intro allI impI)
    fix i assume i: "int i + 1 < cur_round ?q"
    with inv(1) have len: "i < length (dag_image p)" by (auto simp: wf_peer_def)
    then have "card (dag_image p ! i) \<le> card (dag_image ?q ! i)"
      using fin_q by (intro card_mono) (simp_all, auto simp: grow_dag_nth)
    with inv(3) i show "majority (crowd ?q) \<le> int (card (dag_image ?q ! i))"
      by (force simp: quorate_def)
  qed
  moreover have "waiting_ok C ?q (ws @ ws')"
    using inv(4) by (simp add: waiting_ok_def)
  moreover have "conserved C ?q (ws @ ws')"
    using inv(5) by (auto simp: conserved_def Union_grow_dag [OF k])
  ultimately show ?thesis
    using inv(6) by (simp add: dag_inv_def)
qed

section \<open>The scan of the buffer\<close>

lemma scan_one_cases:
  assumes "scan_one E v (p, l) = Inr (keep, q, l')"
  obtains "keep" and "same_core p q"
  | k r where "\<not> keep" and "joins p k v" and "same_core p r" and "q = grow_dag k (vertex_hash (crypt E) v) r"
proof (cases keep)
  case True
  with assms have "p = q"
    by (auto simp: scan_one_def Let_def bindR_Inr_iff split: if_splits prod.splits)
  with True that(1) show ?thesis by simp
next
  case False
  let ?r = "sint (vround v)"
  let ?hist = "if ?r = 1 then Inr (True, missing_set l) else mutual_history ?r (references v) p"
  obtain S r l2 D where hist: "?hist = Inr (True, S)"
    and offer: "offer_missing E v (p, l\<lparr>missing_set := S\<rparr>) = Inr (r, l2)"
    and at: "vec_at (dag_image r) (?r - 1) = Inr D"
    and q: "q = r\<lparr>dag_image := (dag_image r)[nat (?r - 1) := insert (vertex_hash (crypt E) v) D]\<rparr>"
    using assms False
    by (cases ?hist) (auto simp: scan_one_def Let_def bindR_Inr_iff split: if_split_asm prod.splits)
  have core: "same_core p r" using offer_missing_core [OF offer] by simp
  define k where "k = nat (?r - 1)"
  have k: "?r = int k + 1" "k < length (dag_image p)" "D = dag_image r ! k"
    using at core by (auto simp: vec_at_Inr_iff k_def same_core_def)
  have "set (references v) \<subseteq> dag_image p ! (k - 1)" if "0 < k"
  proof -
    have "nat (?r - 2) = k - 1" using k(1) that by simp
    with hist k(1) that show ?thesis
      by (auto simp: mutual_history_eq Let_def split: if_split_asm)
  qed
  with k have "joins p k v" by (simp add: joins_def)
  with False core k show ?thesis
    by (intro that(2) [of k r]) (auto simp: q k_def grow_dag_def)
qed

lemma scan_buffer_inv:
  assumes "scan_buffer E vs (p, l) = Inr (kept, q, l')" and "dag_inv (crypt E) p (pre @ vs @ post)"
  shows "dag_inv (crypt E) q (pre @ kept @ post)"
  using assms
proof (induction vs arbitrary: pre p l kept)
  case Nil
  then show ?case by simp
next
  case (Cons v vs)
  from Cons.prems(1) obtain keep p' l2 kept' where one: "scan_one E v (p, l) = Inr (keep, p', l2)"
    and rest: "scan_buffer E vs (p', l2) = Inr (kept', q, l')" and kept: "kept = (if keep then v # kept' else kept')"
    by (auto simp: bindR_Inr_iff)
  from one show ?case
  proof (cases rule: scan_one_cases)
    case 1
    with Cons.prems(2) have "dag_inv (crypt E) p' ((pre @ [v]) @ vs @ post)"
      using dag_inv_core by fastforce
    from Cons.IH [OF rest this] 1 kept show ?thesis by simp
  next
    case (2 k r)
    from dag_inv_core [OF 2(3) Cons.prems(2)] have "dag_inv (crypt E) r (pre @ v # (vs @ post))"
      by simp
    moreover have "joins r k v"
      using 2(2,3) by (simp add: joins_def same_core_def)
    ultimately have "dag_inv (crypt E) p' (pre @ vs @ post)"
      unfolding 2(4) by (rule dag_inv_join)
    from Cons.IH [OF rest this] 2 kept show ?thesis by simp
  qed
qed

text \<open>The fields that neither the scan nor the requests touch.\<close>

lemma scan_buffer_frame:
  "scan_buffer E vs (p, l) = Inr (kept, q, l') \<Longrightarrow>
     server q = server p \<and> buffer q = buffer p \<and> requests q = requests p \<and>
     cur_round q = cur_round p \<and> last_round q = last_round p \<and> own_id q = own_id p \<and> crowd q = crowd p \<and>
     fail q = fail p"
proof (induction vs arbitrary: p l kept)
  case Nil
  then show ?case by simp
next
  case (Cons v vs)
  from Cons.prems obtain keep p' l2 kept' where one: "scan_one E v (p, l) = Inr (keep, p', l2)"
    and rest: "scan_buffer E vs (p', l2) = Inr (kept', q, l')"
    by (auto simp: bindR_Inr_iff)
  from one have "server p' = server p \<and> buffer p' = buffer p \<and> requests p' = requests p \<and>
     cur_round p' = cur_round p \<and> last_round p' = last_round p \<and> own_id p' = own_id p \<and> crowd p' = crowd p \<and>
     fail p' = fail p"
    by (cases rule: scan_one_cases) (auto simp: same_core_def grow_dag_def)
  with Cons.IH [OF rest] show ?case by simp
qed

lemma after_wait_inv:
  assumes "after_wait E due (p, l) = Inr (left, q, l')"
    and "dag_inv (crypt E) p (buffer p @ ts)"
  shows "dag_inv (crypt E) q (buffer q @ ts)"
proof -
  obtain p1 l1 where requests: "process_requests (p, l) = Inr (p1, l1)"
    and rest: "bindR (scan_buffer E (buffer p1) (p1, l1)) (\<lambda>(kept, p, l).
     let p = p\<lparr>buffer := kept\<rparr> in
     if stop_round l < cur_round p \<or> fail p \<and> cur_round p = 27 then
       Inr (True, p\<lparr>server := set_thread_ready True ((server p)\<lparr>is_up := False\<rparr>)\<rparr>, l)
     else if due then
       bindR (write_record (requests_answered l) (missing_vertices l) (need_help l) (help_counter l) p) (\<lambda>r.
       Inr (False, p, l\<lparr>rows := rows l @ [r]\<rparr>))
     else Inr (False, p, l)) = Inr (left, q, l')"
    using assms(1) by (auto simp: after_wait_def bindR_Inr_iff)
  from requests obtain p0 where "same_core p p0" and p1: "p1 = p0\<lparr>requests := []\<rparr>"
    by (auto simp: process_requests_def bindR_Inr_iff dest: requests_core)
  then have core: "same_core (p\<lparr>requests := []\<rparr>) p1" and buf: "buffer p1 = buffer p"
    by (simp_all add: same_core_def)
  have "dag_inv (crypt E) (p\<lparr>requests := []\<rparr>) (buffer p @ ts)"
    using assms(2) by (rule dag_inv_same [rotated -1]) simp_all
  then have inv1: "dag_inv (crypt E) p1 ([] @ buffer p1 @ ts)"
    using dag_inv_core [OF core] buf by simp
  from rest obtain kept p2 l2 where scan: "scan_buffer E (buffer p1) (p1, l1) = Inr (kept, p2, l2)"
    by (auto simp: bindR_Inr_iff)
  have "dag_inv (crypt E) p2 (kept @ ts)"
    using scan_buffer_inv [OF scan inv1] by simp
  moreover have "dag_image q = dag_image p2 \<and> vertex_map (server q) = vertex_map (server p2) \<and>
      cur_round q = cur_round p2 \<and> crowd q = crowd p2 \<and> last_round q = last_round p2 \<and>
      byzantines q = byzantines p2 \<and> own_id q = own_id p2 \<and> buffer q = kept"
    using rest scan by (auto simp: Let_def bindR_Inr_iff set_thread_ready_def split: if_splits)
  ultimately show ?thesis
    using dag_inv_same [of q p2] by simp
qed

section \<open>The next round\<close>

text \<open>The vertex that the validator makes in its current round, once the round has its set.\<close>

definition own_vertex :: "env \<Rightarrow> peer \<Rightarrow> vertex" where
  "own_vertex E p =
     (Vertex (word_of_int (cur_round p)) (own_id p) (to_string (cur_round p) @ ''-'' @ to_string (uint (own_id p))))
       \<lparr>references := (if 1 < cur_round p then iter E (dag_image p ! nat (cur_round p - 2)) else [])\<rparr>"

lemma make_vertex_eq:
  assumes "1 < cur_round p \<longrightarrow> cur_round p - 2 < int (length (dag_image p))"
  shows "make_vertex E p = Inr (own_vertex E p)"
  using assms by (auto simp: make_vertex_def own_vertex_def add_ref_def Vertex_def vec_at_def Let_def)

lemma sint_round:
  assumes "0 \<le> r" and "r < 2 ^ 31"
  shows "sint (word_of_int r :: i32) = r"
  using assms by (simp add: sint_sbintrunc' signed_take_bit_int_eq_self)

lemma own_vertex_sel:
  assumes "0 \<le> cur_round p" and "cur_round p < 2 ^ 31"
  shows "sint (vround (own_vertex E p)) = cur_round p" and "vertex_hash C (own_vertex E p) = own_key C p (cur_round p)"
  using assms by (simp_all add: own_vertex_def Vertex_def sint_round vertex_hash_def own_key_def vertex_key_def)

text \<open>The state after the vertex has been stored, without the messages.\<close>

definition proposed :: "env \<Rightarrow> peer \<Rightarrow> peer" where
  "proposed E p =
     (let p1 = p\<lparr>dag_image := dag_image p @ [{}]\<rparr>; v = own_vertex E p1; h = vertex_hash (crypt E) v
      in p1\<lparr>server := add_to_map h v (server p), dag_image := dag_image p @ [{h}]\<rparr>)"

lemma propose_core:
  assumes "propose E p = Inr q" and "int (length (dag_image p)) = cur_round p - 1" and "1 \<le> cur_round p"
  shows "same_core (proposed E p) q"
proof -
  let ?p1 = "p\<lparr>dag_image := dag_image p @ [{}]\<rparr>"
  have "make_vertex E ?p1 = Inr (own_vertex E ?p1)"
    using assms(2,3) by (intro make_vertex_eq) auto
  moreover have "vec_at (dag_image p @ [{}]) (cur_round p - 1) = Inr {}"
    using assms(2) by (simp add: vec_at_def nth_append) (simp flip: assms(2))
  moreover have "(dag_image p @ [{}])[nat (cur_round p - 1) := {h}] = dag_image p @ [{h}]" for h
    by (simp flip: assms(2))
  ultimately obtain stream msg where "broadcast msg (proposed E p) = Inr q"
    using assms(1) by (auto simp: propose_def Let_def bindR_Inr_iff proposed_def)
  then show ?thesis by (rule broadcast_core)
qed

lemma alien_sel [simp]:
  "alien C (p\<lparr>dag_image := d\<rparr>) = alien C p" "alien C (p\<lparr>server := s\<rparr>) = alien C p"
  "alien C (p\<lparr>cur_round := r\<rparr>) = alien C p"
  "own_key C (p\<lparr>dag_image := d\<rparr>) = own_key C p" "own_key C (p\<lparr>server := s\<rparr>) = own_key C p"
  "own_key C (p\<lparr>cur_round := r\<rparr>) = own_key C p"
  by (simp_all add: alien_def own_key_def fun_eq_iff)

lemma proposed_inv:
  assumes "dag_inv (crypt E) p ws" and "cur_round p < last_round p" and "iter_ok (iter E)"
    and "0 < cur_round p \<Longrightarrow> majority (crowd p) \<le> int (card (dag_image p ! nat (cur_round p - 1)))"
  shows "dag_inv (crypt E) (proposed E (p\<lparr>cur_round := cur_round p + 1\<rparr>)) ws"
proof -
  let ?C = "crypt E" and ?n = "length (dag_image p)"
  let ?q = "proposed E (p\<lparr>cur_round := cur_round p + 1\<rparr>)"
  define v where "v = own_vertex E (p\<lparr>cur_round := cur_round p + 1, dag_image := dag_image p @ [{}]\<rparr>)"
  define h where "h = vertex_hash ?C v"
  have inv: "wf_peer p" "supported ?C p" "quorate p" "waiting_ok ?C p ws" "conserved ?C p ws" "keyed ?C (server p)"
    using assms(1) by (simp_all add: dag_inv_def)
  have n: "int ?n = cur_round p" and last: "last_round p < 2 ^ 31"
    using inv(1) assms(2) by (auto simp: wf_peer_def)
  have q: "?q = p\<lparr>cur_round := cur_round p + 1, server := add_to_map h v (server p), dag_image := dag_image p @ [{h}]\<rparr>"
    by (simp add: proposed_def Let_def h_def v_def)
  have h: "h = own_key ?C p (int ?n + 1)" and round: "sint (vround v) = int ?n + 1"
    using own_vertex_sel [of "p\<lparr>cur_round := cur_round p + 1, dag_image := dag_image p @ [{}]\<rparr>"] n last assms(2)
    by (simp_all add: h_def v_def)
  have refs: "references v = (if 0 < ?n then iter E (dag_image p ! (?n - 1)) else [])"
  proof -
    have "nat (cur_round p - 1) = ?n - 1" "0 < cur_round p \<longleftrightarrow> 0 < ?n" using n by linarith+
    then show ?thesis using n by (auto simp: v_def own_vertex_def nth_append simp del: length_greater_0_conv)
  qed
  have "int (length (dag_image ?q)) = cur_round p + 1" by (simp add: q n)
  moreover have "\<forall>D \<in> set (dag_image ?q). finite D" using inv(1) by (simp add: q wf_peer_def)
  ultimately have "wf_peer ?q"
    using inv(1) assms(2) unfolding wf_peer_def by (simp add: q)
  moreover have "supported ?C ?q"
  proof -
    have "vouched ?C ?q i g" if "i < ?n" "g \<in> dag_image p ! i" "alien ?C p i g" for i g
    proof -
      have "int ?n + 1 \<in> {1..last_round p}" using n assms(2) by auto
      with that(1,3) have "g \<noteq> h" by (auto simp: alien_def h)
      moreover have old: "vouched ?C p i g" using inv(2) that by (simp add: supported_def)
      ultimately show ?thesis
        using that(1) by (intro vouched_mono [OF old]) (auto simp: q add_to_map_def umap_insert_def nth_append)
    qed
    moreover have "vouched ?C ?q ?n h"
    proof -
      have "majority (crowd p) \<le> int (length (references v)) \<and> set (references v) \<subseteq> dag_image p ! (?n - 1)" if "0 < ?n"
      proof -
        have "finite (dag_image p ! (?n - 1))"
          using inv(1) that by (simp add: wf_peer_def)
        note fin = iter_okD [OF assms(3) this]
        have "nat (cur_round p - 1) = ?n - 1" "0 < cur_round p" using n that by linarith+
        with assms(4) fin show ?thesis using that by (simp add: refs)
      qed
      then show ?thesis
        using round by (auto simp: vouched_def q add_to_map_def umap_insert_def nth_append h_def)
    qed
    ultimately show ?thesis
      using inv(2) by (auto simp: supported_def q nth_append less_Suc_eq h)
  qed
  moreover have "quorate ?q"
    unfolding quorate_def
  proof (intro allI impI)
    fix i assume "int i + 1 < cur_round ?q"
    then have i: "i < ?n" "int i + 1 \<le> cur_round p" using n by (auto simp: q)
    show "majority (crowd ?q) \<le> int (card (dag_image ?q ! i))"
    proof (cases "int i + 1 < cur_round p")
      case True
      with inv(3) i show ?thesis by (simp add: quorate_def q nth_append)
    next
      case False
      with i have "i = nat (cur_round p - 1)" "0 < cur_round p" by auto
      with assms(4) i show ?thesis by (simp add: q nth_append)
    qed
  qed
  moreover have "waiting_ok ?C ?q ws"
    using inv(4) by (auto simp: waiting_ok_def q add_to_map_def umap_insert_def h)
  moreover have "conserved ?C ?q ws"
    using inv(5) by (auto simp: conserved_def q add_to_map_def umap_insert_def)
  moreover have "keyed ?C (server ?q)"
    using inv(6) by (auto simp: keyed_def q add_to_map_def umap_insert_def h_def)
  ultimately show ?thesis by (simp add: dag_inv_def)
qed

lemma can_advance_quorum:
  assumes "can_advance p = Inr True" and "wf_peer p" and "0 < cur_round p"
  shows "majority (crowd p) \<le> int (card (dag_image p ! nat (cur_round p - 1)))"
  using assms by (auto simp: can_advance_def majority_def wf_peer_def bindR_Inr_iff vec_at_Inr_iff)

lemma advance_inv:
  assumes "advance E p = Inr q" and "can_advance p = Inr True" and "dag_inv (crypt E) p ws"
    and "cur_round p \<le> last_round p" and "iter_ok (iter E)"
  shows "dag_inv (crypt E) q ws"
proof -
  obtain r where work: "wave_work E p = Inr r"
    and rest: "(if cur_round r + 1 \<le> last_round r then propose E (r\<lparr>cur_round := cur_round r + 1\<rparr>)
      else Inr (r\<lparr>cur_round := cur_round r + 1\<rparr>)) = Inr q"
    using assms(1) by (auto simp: advance_def bindR_Inr_iff Let_def)
  have core: "same_core p r" using work by (rule wave_work_core)
  then have inv: "dag_inv (crypt E) r ws" using assms(3) by (rule dag_inv_core)
  then have wf: "wf_peer r" by (simp add: dag_inv_def)
  have "can_advance r = Inr True" and le: "cur_round r \<le> last_round r"
    using core assms(2,4) by (simp_all add: can_advance_def same_core_def split: if_splits)
  then have quorum: "majority (crowd r) \<le> int (card (dag_image r ! nat (cur_round r - 1)))" if "0 < cur_round r"
    using wf that by (intro can_advance_quorum)
  show ?thesis
  proof (cases "cur_round r < last_round r")
    case True
    then have "propose E (r\<lparr>cur_round := cur_round r + 1\<rparr>) = Inr q"
      using rest by simp
    then have "same_core (proposed E (r\<lparr>cur_round := cur_round r + 1\<rparr>)) q"
      using wf True by (intro propose_core) (auto simp: wf_peer_def)
    then show ?thesis
      by (rule dag_inv_core) (rule proposed_inv [OF inv True assms(5) quorum])
  next
    case False
    then have q: "q = r\<lparr>cur_round := cur_round r + 1\<rparr>" and cur: "cur_round r = last_round r"
      using rest le by auto
    have "wf_peer q" using wf cur by (simp add: q wf_peer_def)
    moreover have "supported (crypt E) q"
      using inv by (simp add: dag_inv_def supported_def q vouched_def)
    moreover have "quorate q"
      unfolding quorate_def
    proof (intro allI impI)
      fix i assume i: "int i + 1 < cur_round q"
      show "majority (crowd q) \<le> int (card (dag_image q ! i))"
      proof (cases "int i + 1 < cur_round r")
        case True
        with inv show ?thesis by (simp add: dag_inv_def quorate_def q)
      next
        case False
        with i have "i = nat (cur_round r - 1)" "0 < cur_round r" by (auto simp: q)
        with quorum show ?thesis by (simp add: q)
      qed
    qed
    moreover have "waiting_ok (crypt E) q ws" and "conserved (crypt E) q ws" and "keyed (crypt E) (server q)"
      using inv by (simp_all add: dag_inv_def waiting_ok_def conserved_def q)
    ultimately show ?thesis by (simp add: dag_inv_def)
  qed
qed

lemma move_round_inv:
  assumes "move_round E t (p, l) = Inr (q, l')" and "dag_inv (crypt E) p ws" and "iter_ok (iter E)"
  shows "dag_inv (crypt E) q ws"
  using assms
  by (auto simp: move_round_def bindR_Inr_iff split: if_splits
      intro: advance_inv dag_inv_core [OF dag_scan_core])

section \<open>An event of the server\<close>

lemma event_inv:
  assumes "grows C (majority (crowd p)) (server p, lv) (s, lv')" and "dag_inv C p (bs @ temp_list lv)"
  shows "dag_inv C (p\<lparr>server := s\<rparr>) (bs @ temp_list lv')"
proof -
  let ?h = "vertex_hash C" and ?q = "p\<lparr>server := s\<rparr>"
  obtain new where new: "temp_list lv' = new @ temp_list lv" "distinct (map ?h new)"
    "\<forall>v \<in> set new. admissible (majority (crowd p)) v \<and> ?h v \<notin> dom (vertex_map (server p)) \<and> vertex_map s (?h v) = Some v"
    "dom (vertex_map s) = dom (vertex_map (server p)) \<union> ?h ` set new"
    "vertex_map (server p) \<subseteq>\<^sub>m vertex_map s"
    using assms(1) unfolding grows_def by auto
  have inv: "wf_peer p" "supported C p" "quorate p" "waiting_ok C p (bs @ temp_list lv)"
    "conserved C p (bs @ temp_list lv)" "keyed C (server p)"
    using assms(2) by (simp_all add: dag_inv_def)
  have keep: "vertex_map s g = Some v" if "vertex_map (server p) g = Some v" for g v
    using new(5) that by (auto simp: map_le_def dom_def)
  have "vouched C ?q i g" if "vouched C p i g" for i g
    using that keep unfolding vouched_def by fastforce
  then have "supported C ?q" using inv(2) by (simp add: supported_def)
  moreover have "waiting_ok C ?q (bs @ temp_list lv')"
  proof -
    have old: "distinct (map ?h (bs @ temp_list lv))"
        "\<forall>v \<in> set bs \<union> set (temp_list lv). admissible (majority (crowd p)) v \<and>
          (vertex_map s (?h v) = Some v \<or> ?h v \<in> own_key C p ` {1..int (length (dag_image p))})"
      using inv(4) keep unfolding waiting_ok_def by (simp, metis Un_iff set_append)
    have "?h ` set new \<inter> dom (vertex_map (server p)) = {}"
      using new(3) by auto
    then have "?h ` set new \<inter> (?h ` set bs \<union> ?h ` set (temp_list lv)) = {}"
      using inv(5) by (simp add: conserved_def image_Un) blast
    then have "distinct (map ?h (bs @ temp_list lv'))"
      using old(1) new(1,2) by (simp add: Int_Un_distrib Int_commute)
    with old(2) new(1,3) show ?thesis
      by (simp add: waiting_ok_def ball_Un)
  qed
  moreover have "conserved C ?q (bs @ temp_list lv')"
    using inv(5) new(1,4) by (auto simp: conserved_def)
  moreover have "keyed C s"
    using grows_keyed [OF assms(1)] inv(6) by simp
  ultimately show ?thesis
    using inv by (simp add: dag_inv_def wf_peer_def quorate_def)
qed

end
