(* ===== verification/Validator.thy ===== *)
theory Validator
  imports Dag
begin

text \<open>
  The threads of one validator, interleaved. The scan thread is at the top of its loop
  (\<open>Top\<close>), blocked on the condition variable with the flag set (\<open>Asleep\<close>), or has left the loop
  (\<open>Gone\<close>). The scan thread's work between two blocking points, an event of the server, the
  hand-over, a detached search and a turn of a worker are one step each: what they share (the
  vertex map, the buffer, the requests) is locked, and the theory \<open>Handshake\<close> takes the
  hand-over apart. A step is only defined where the code it stands for returns.
\<close>

datatype scan_pc = Top | Asleep | Gone

type_synonym validator = "scan_pc \<times> peer \<times> scan_vars \<times> server_vars"

text \<open>What a step was: a turn of the scan thread, an event, and the tasks that a worker finished.\<close>

datatype action = Turn | Event epoll_event | Hand | Search | Work "task list"

inductive act :: "env \<Rightarrow> action \<Rightarrow> validator \<Rightarrow> validator \<Rightarrow> bool" for E where
  round: "move_round E t (p, l) = Inr (q, l') \<Longrightarrow>
     act E Turn (Top, p, l, lv) (Asleep, q\<lparr>server := set_thread_ready True (server q)\<rparr>, l', lv)"
| wake: "after_wait E due (p, l) = Inr (False, q, l') \<Longrightarrow> act E Turn (Asleep, p, l, lv) (Top, q, l', lv)"
| leave: "after_wait E due (p, l) = Inr (True, q, l') \<Longrightarrow>
     act E Turn (Asleep, p, l, lv) (Gone, q\<lparr>client := snd (close_sockets (client q))\<rparr>, l', lv)"
| event: "handle_event (crypt E) (majority (crowd p)) e (server p, lv) = Some (Inr (s, lv')) \<Longrightarrow>
     act E (Event e) (pc, p, l, lv) (pc, p\<lparr>server := s\<rparr>, l, lv')"
| hand: "hand_over (server p, lv) (buffer p) (requests p) = Some ((s, lv'), buf, reqs) \<Longrightarrow>
     act E Hand (pc, p, l, lv) (pc, p\<lparr>server := s, buffer := buf, requests := reqs\<rparr>, l, lv')"
| search: "detached p = xs @ r # ys \<Longrightarrow> check_round E r (p\<lparr>detached := xs @ ys\<rparr>) = Inr q \<Longrightarrow>
     act E Search (pc, p, l, lv) (pc, q, l, lv)"
| work: "worker_step a b \<Longrightarrow> the_pool a = pool p \<Longrightarrow> finished b = finished a @ ts \<Longrightarrow>
     act E (Work ts) (pc, p, l, lv) (pc, p\<lparr>pool := the_pool b\<rparr>, l, lv)"

inductive_cases act_TurnE: "act E Turn s t"
inductive_cases act_EventE: "act E (Event e) s t"
inductive_cases act_HandE: "act E Hand s t"
inductive_cases act_SearchE: "act E Search s t"
inductive_cases act_WorkE: "act E (Work ts) s t"

definition step :: "env \<Rightarrow> validator \<Rightarrow> validator \<Rightarrow> bool" where
  "step E s t \<longleftrightarrow> (\<exists>a. act E a s t)"

lemma act_step: "act E a s t \<Longrightarrow> step E s t"
  by (auto simp: step_def)

definition validator_inv :: "env \<Rightarrow> validator \<Rightarrow> bool" where
  "validator_inv E = (\<lambda>(pc, p, l, lv).
     iter_ok (iter E) \<and> dag_inv (crypt E) p (buffer p @ temp_list lv))"

lemma dag_inv_flag: "dag_inv C (q\<lparr>server := set_thread_ready b (server q)\<rparr>) ws = dag_inv C q ws"
  by (rule iffI) (erule dag_inv_same [rotated -1]; simp add: set_thread_ready_def)+

lemma propose_buffer:
  assumes "propose E p = Inr q"
  shows "buffer q = buffer p"
  using assms
  by (auto simp: propose_def Let_def bindR_Inr_iff same_core_def dest!: broadcast_core)

lemma move_round_buffer: "move_round E t (p, l) = Inr (q, l') \<Longrightarrow> buffer q = buffer p"
  by (auto simp: move_round_def advance_def bindR_Inr_iff Let_def same_core_def split: if_splits
      dest!: propose_buffer wave_work_core dag_scan_core)

lemma act_inv: "act E a s t \<Longrightarrow> validator_inv E s \<Longrightarrow> validator_inv E t"
proof (induction rule: act.induct)
  case (round t p l q l' lv)
  then have "dag_inv (crypt E) q (buffer p @ temp_list lv)"
    by (auto simp: validator_inv_def intro: move_round_inv)
  with round show ?case
    by (simp add: validator_inv_def dag_inv_flag move_round_buffer)
next
  case (wake due p l q l' lv)
  then show ?case by (auto simp: validator_inv_def intro: after_wait_inv)
next
  case (leave due p l q l' lv)
  then have "dag_inv (crypt E) q (buffer q @ temp_list lv)"
    by (auto simp: validator_inv_def intro: after_wait_inv)
  then have "dag_inv (crypt E) (q\<lparr>client := snd (close_sockets (client q))\<rparr>) (buffer q @ temp_list lv)"
    by (rule dag_inv_same [rotated -1]) simp_all
  with leave show ?case by (simp add: validator_inv_def)
next
  case (event p e lv s lv' pc l)
  then show ?case
    by (auto simp: validator_inv_def intro: event_inv event_grows)
next
  case (hand p lv s lv' buf reqs pc l)
  then have s: "vertex_map s = vertex_map (server p)" "buf @ temp_list lv' = buffer p @ temp_list lv"
    by (auto simp: hand_over_def split: if_splits)
  from hand.prems have "dag_inv (crypt E) p (buffer p @ temp_list lv)" by (simp add: validator_inv_def)
  then have "dag_inv (crypt E) (p\<lparr>server := s, buffer := buf, requests := reqs\<rparr>) (buffer p @ temp_list lv)"
    by (rule dag_inv_same [rotated -1]) (simp_all add: s)
  with hand.prems show ?case by (simp add: validator_inv_def s)
next
  case (search p xs r ys q pc l lv)
  then have "dag_inv (crypt E) p (buffer p @ temp_list lv)" by (simp add: validator_inv_def)
  then have "dag_inv (crypt E) (p\<lparr>detached := xs @ ys\<rparr>) (buffer p @ temp_list lv)"
    by (rule dag_inv_same [rotated -1]) simp_all
  moreover have core: "same_core (p\<lparr>detached := xs @ ys\<rparr>) q"
    using search by (blast intro: check_round_core)
  ultimately have "dag_inv (crypt E) q (buffer p @ temp_list lv)"
    using dag_inv_core by blast
  with search.prems core show ?case by (simp add: validator_inv_def same_core_def)
next
  case (work a b p ts pc l lv)
  then have "dag_inv (crypt E) p (buffer p @ temp_list lv)" by (simp add: validator_inv_def)
  then have "dag_inv (crypt E) (p\<lparr>pool := the_pool b\<rparr>) (buffer p @ temp_list lv)"
    by (rule dag_inv_same [rotated -1]) simp_all
  with work.prems show ?case by (simp add: validator_inv_def)
qed

lemma step_inv: "step E s t \<Longrightarrow> validator_inv E s \<Longrightarrow> validator_inv E t"
  unfolding step_def using act_inv by blast

interpretation validator: step_invariant "step E" "validator_inv E" for E
  by unfold_locales (rule step_inv)

section \<open>Reachable states\<close>

text \<open>
  The start of a validator: the constructor, then \<open>setup_network\<close>, then the two threads. The
  bounds are those of an \<open>int\<close>, for at least one validator and no negative last round.
\<close>

inductive launched :: "validator \<Rightarrow> bool" where
  launch: "Peer fd bound clock domain type protocol port listen n final fails = Inr p \<Longrightarrow>
     1 \<le> n \<Longrightarrow> n < 2 ^ 31 \<Longrightarrow> 0 \<le> final \<Longrightarrow> final < 2 ^ 31 \<Longrightarrow>
     setup_network os port0 file p = Inr q \<Longrightarrow>
     launched (Top, q, scan_init q, server_init (server q) streams)"

lemma setup_network_frame:
  "setup_network os port0 file p = Inr q \<Longrightarrow> same_core p q \<and> black_list q = black_list p \<and>
     pool q = pool p \<and> detached q = detached p \<and> requests_asked q = requests_asked p"
  by (auto simp: setup_network_def bindR_Inr_iff Let_def same_core_def split: option.splits)

lemma Peer_inv:
  assumes "Peer fd bound clock domain type protocol port listen n final fails = Inr p"
    and "1 \<le> n" and "n < 2 ^ 31" and "0 \<le> final" and "final < 2 ^ 31"
  shows "dag_inv C p []" and "buffer p = []"
  using assms
  by (auto simp: Peer_def Server_def bindR_Inr_iff dag_inv_defs split: if_splits)

lemma launched_inv: "launched s \<Longrightarrow> iter_ok (iter E) \<Longrightarrow> validator_inv E s"
proof (induction rule: launched.induct)
  case (launch fd bound clock dom ty prot port listen n final fails p os port0 addr q streams)
  have core: "same_core p q" using setup_network_frame launch(6) by blast
  have "dag_inv (crypt E) p []" and "buffer p = []"
    by (rule Peer_inv(1) [OF launch(1-5)], rule Peer_inv(2) [OF launch(1-5)])
  with dag_inv_core [OF core] core launch(7) show ?case
    by (simp add: validator_inv_def server_init_def same_core_def)
qed

lemma reachable_inv:
  assumes "launched s" and "iter_ok (iter E)" and "(step E)\<^sup>*\<^sup>* s (pc, p, l, lv)"
  shows "dag_inv (crypt E) p (buffer p @ temp_list lv)"
  using validator.run_inv [OF assms(3) launched_inv [OF assms(1,2)]] by (simp add: validator_inv_def)

section \<open>The DAG only grows\<close>

definition dag_le :: "string set list \<Rightarrow> string set list \<Rightarrow> bool" where
  "dag_le D D' \<longleftrightarrow> length D \<le> length D' \<and> (\<forall>i < length D. D ! i \<subseteq> D' ! i)"

lemma dag_le_refl [simp, intro]: "dag_le D D"
  by (simp add: dag_le_def)

lemma dag_le_trans: "dag_le D D' \<Longrightarrow> dag_le D' D'' \<Longrightarrow> dag_le D D''"
  unfolding dag_le_def by (metis order_trans less_le_trans)

lemma dag_le_insert: "k < length D \<Longrightarrow> dag_le D (D[k := insert h (D ! k)])"
  by (auto simp: dag_le_def nth_list_update)

lemma dag_le_append: "dag_le D (D @ xs)"
  by (simp add: dag_le_def nth_append)

lemma propose_dag_le:
  assumes "propose E p = Inr q"
  shows "dag_le (dag_image p) (dag_image q)"
proof -
  obtain h D where D: "vec_at (dag_image p @ [{}]) (cur_round p - 1) = Inr D"
    and q: "dag_image q = (dag_image p @ [{}])[nat (cur_round p - 1) := insert h D]"
    using assms by (auto simp: propose_def Let_def bindR_Inr_iff same_core_def dest!: broadcast_core)
  from D have "nat (cur_round p - 1) < length (dag_image p @ [{}])" "D = (dag_image p @ [{}]) ! nat (cur_round p - 1)"
    by (auto simp: vec_at_Inr_iff)
  then show ?thesis
    unfolding q using dag_le_trans [OF dag_le_append dag_le_insert] by blast
qed

lemma scan_buffer_dag_le:
  "scan_buffer E vs (p, l) = Inr (kept, q, l') \<Longrightarrow> dag_le (dag_image p) (dag_image q)"
proof (induction vs arbitrary: p l kept)
  case Nil
  then show ?case by simp
next
  case (Cons v vs)
  from Cons.prems obtain keep p' l2 kept' where one: "scan_one E v (p, l) = Inr (keep, p', l2)"
    and rest: "scan_buffer E vs (p', l2) = Inr (kept', q, l')"
    by (auto simp: bindR_Inr_iff)
  from one have "dag_le (dag_image p) (dag_image p')"
    by (cases rule: scan_one_cases) (auto simp: same_core_def grow_dag_def joins_def intro: dag_le_insert)
  then show ?case using Cons.IH [OF rest] by (rule dag_le_trans)
qed

lemma move_round_dag_le: "move_round E t (p, l) = Inr (q, l') \<Longrightarrow> dag_le (dag_image p) (dag_image q)"
  by (auto simp: move_round_def advance_def bindR_Inr_iff Let_def same_core_def split: if_splits
      dest!: propose_dag_le wave_work_core dag_scan_core)

lemma after_wait_dag_le:
  "after_wait E due (p, l) = Inr (left, q, l') \<Longrightarrow> dag_le (dag_image p) (dag_image q)"
  by (auto simp: after_wait_def process_requests_def bindR_Inr_iff Let_def same_core_def split: if_splits
      dest!: scan_buffer_dag_le requests_core)

lemma act_dag_le: "act E a s t \<Longrightarrow> dag_le (dag_image (fst (snd s))) (dag_image (fst (snd t)))"
proof (induction rule: act.induct)
  case (search p xs r ys q pc l lv)
  from check_round_core [OF search(2)] show ?case by (simp add: same_core_def)
qed (simp_all add: move_round_dag_le after_wait_dag_le)

interpretation growth: step_invariant "step E" "\<lambda>s. dag_le D (dag_image (fst (snd s)))" for E D
proof unfold_locales
  fix s t :: validator
  assume "dag_le D (dag_image (fst (snd s)))" and "step E s t"
  then show "dag_le D (dag_image (fst (snd t)))"
    unfolding step_def using dag_le_trans act_dag_le by blast
qed

section \<open>Properties of every reachable state\<close>

text \<open>
  C7. Causal completeness with quorums: whatever the other validators send and however the
  threads interleave, a vertex in the local DAG is stored under its own hash, belongs to the
  round it is filed under, and beyond the first round it carries at least \<open>2 f + 1\<close> references,
  all of them to vertices that are in the local DAG one round earlier. (The exception are hashes
  that collide with an own vertex of another round.)
\<close>

theorem dag_causally_complete:
  assumes "launched s" and "iter_ok (iter E)" and "(step E)\<^sup>*\<^sup>* s (pc, p, l, lv)"
    and "i < length (dag_image p)" and "h \<in> dag_image p ! i" and "alien (crypt E) p i h"
  shows "\<exists>v. vertex_map (server p) h = Some v \<and> vertex_hash (crypt E) v = h \<and>
     sint (vround v) = int i + 1 \<and>
     (0 < i \<longrightarrow> set (references v) \<subseteq> dag_image p ! (i - 1) \<and>
        majority (crowd p) \<le> int (length (references v)))"
  using reachable_inv [OF assms(1-3)] assms(4-6)
  by (simp add: dag_inv_def supported_def vouched_def)

text \<open>
  C16. No vertex is lost and none is handled twice: at every moment the hashes in the vertex map
  are exactly those of the vertices in the server's list, of those in the buffer, and of those
  in the DAG; and no hash occurs twice among the vertices that wait.
\<close>

theorem no_vertex_lost:
  assumes "launched s" and "iter_ok (iter E)" and "(step E)\<^sup>*\<^sup>* s (pc, p, l, lv)"
  shows "dom (vertex_map (server p)) =
       vertex_hash (crypt E) ` (set (buffer p) \<union> set (temp_list lv)) \<union> \<Union> (set (dag_image p)) \<and>
     distinct (map (vertex_hash (crypt E)) (buffer p @ temp_list lv))"
  using reachable_inv [OF assms] by (simp add: dag_inv_def conserved_def waiting_ok_def)

text \<open>
  C9. A round is left only with a quorum, and a quorum never goes away: every round before the
  current one has at least \<open>2 f + 1\<close> vertices, the validator's own among them, and the DAG has
  one set for each round that has begun.
\<close>

theorem rounds_left_with_quorum:
  assumes "launched s" and "iter_ok (iter E)" and "(step E)\<^sup>*\<^sup>* s (pc, p, l, lv)"
  shows "int (length (dag_image p)) = min (cur_round p) (last_round p) \<and>
     (\<forall>i. int i + 1 < cur_round p \<longrightarrow> majority (crowd p) \<le> int (card (dag_image p ! i))) \<and>
     (\<forall>i < length (dag_image p). own_key (crypt E) p (int i + 1) \<in> dag_image p ! i)"
  using reachable_inv [OF assms] by (simp add: dag_inv_def wf_peer_def quorate_def supported_def)

text \<open>
  The DAG is append-only: along any run no round disappears and no vertex leaves its round.
\<close>

theorem dag_append_only:
  assumes "(step E)\<^sup>*\<^sup>* (pc, p, l, lv) (pc', q, l', lv')"
  shows "length (dag_image p) \<le> length (dag_image q) \<and>
     (\<forall>i < length (dag_image p). dag_image p ! i \<subseteq> dag_image q ! i)"
  using growth.run_inv [OF assms, of "dag_image p"] by (simp add: dag_le_def)

end
