(* ===== verification/Progress.thy ===== *)
theory Progress
  imports Validator
begin

text \<open>
  What a validator gets done: with a quorum in its round it proposes the next vertex and sends
  it to everybody, and a buffered vertex whose history is complete joins the DAG. And what can
  stop it: a vertex with a round number that the server does not check.
\<close>

section \<open>Own vertices fit a message\<close>

lemma length_dec_digits:
  assumes "n < 10 ^ k" and "0 < k"
  shows "length (dec_digits n) \<le> k"
  using assms
proof (induction n arbitrary: k rule: dec_digits.induct)
  case (1 n)
  show ?case
  proof (cases "n < 10")
    case True
    then show ?thesis using 1(3) by (simp add: dec_digits.simps [of n])
  next
    case False
    then have "1 < k"
    proof (cases k)
      case (Suc j)
      with False 1(2) show ?thesis by (cases j) auto
    qed (use 1(3) in simp)
    then obtain j where j: "k = Suc j" "0 < j" by (cases k) auto
    have "n div 10 < 10 ^ j" using 1(2) by (simp add: j less_mult_imp_div_less)
    with 1(1) False j have "length (dec_digits (n div 10)) \<le> j" by blast
    with False show ?thesis by (simp add: dec_digits.simps [of n] j)
  qed
qed

lemma length_round_text:
  assumes "0 \<le> r" and "r < 2 ^ 31"
  shows "length (to_string r) \<le> 10"
  using assms length_dec_digits [of "nat r" 10] by (auto simp: to_string_def)

lemma length_id_text: "length (to_string (uint (x :: u64))) \<le> 20"
proof -
  have "unat x < 10 ^ 20" using unsigned_less [of x, where ?'a = nat] by simp
  then show ?thesis
    using length_dec_digits [of "unat x" 20] by (simp add: to_string_def)
qed

lemma own_vertex_sendable:
  assumes "0 \<le> cur_round p" and "cur_round p < 2 ^ 31" and "iter_ok (iter E)"
    and "1 < cur_round p \<Longrightarrow> finite (dag_image p ! nat (cur_round p - 2)) \<and>
      card (dag_image p ! nat (cur_round p - 2)) \<le> 1023 \<and>
      (\<forall>h \<in> dag_image p ! nat (cur_round p - 2). length h = HEX_HASH)"
  shows "sendable (own_vertex E p)"
proof -
  let ?D = "dag_image p ! nat (cur_round p - 2)"
  have refs: "hash_refs (own_vertex E p) \<and> length (references (own_vertex E p)) \<le> 1023"
  proof (cases "1 < cur_round p")
    case True
    with assms(4) have "finite ?D" by simp
    from iter_okD [OF assms(3) this] True assms(4) show ?thesis
      by (simp add: own_vertex_def hash_refs_def)
  qed (simp add: own_vertex_def hash_refs_def)
  have "length (payload (own_vertex E p)) \<le> 31"
    using length_round_text [OF assms(1,2)] length_id_text [of "own_id p"]
    by (simp add: own_vertex_def Vertex_def)
  with refs show ?thesis
    using length_wire [of "own_vertex E p"]
    by (auto simp: sendable_def HEX_HASH_def MAX_STREAM_SIZE_def)
qed

section \<open>Moving to the next round\<close>

lemma propose_eq:
  assumes "int (length (dag_image p)) = cur_round p - 1" and "1 \<le> cur_round p"
    and "sendable (own_vertex E (p\<lparr>dag_image := dag_image p @ [{}]\<rparr>))"
    and "int (length (c_sockets (client p))) \<le> crowd p - 1"
  shows "propose E p = Inr ((proposed E p)\<lparr>pool := (pool p)\<lparr>task_queue := task_queue (pool p) @
     map (\<lambda>s. Sendn s (packet_of [own_vertex E (p\<lparr>dag_image := dag_image p @ [{}]\<rparr>)])) (c_sockets (client p))\<rparr>\<rparr>)"
proof -
  let ?p1 = "p\<lparr>dag_image := dag_image p @ [{}]\<rparr>"
  let ?v = "own_vertex E ?p1"
  have "make_vertex E ?p1 = Inr ?v"
    using assms(1,2) by (intro make_vertex_eq) auto
  moreover have "vec_at (dag_image p @ [{}]) (cur_round p - 1) = Inr {}"
    using assms(1) by (simp add: vec_at_def nth_append) (simp flip: assms(1))
  moreover have "(dag_image p @ [{}])[nat (cur_round p - 1) := {h}] = dag_image p @ [{h}]" for h
    by (simp flip: assms(1))
  moreover have "attach_length_to_msg (wire ?v) (length (wire ?v)) = Inr (packet_of [?v])"
    using attach_length_packet [of "[?v]"] assms(3)
    by (simp add: wire_length_def sendable_def MAX_STREAM_SIZE_def)
  ultimately show ?thesis
    using assms(3,4)
    by (simp add: propose_def Let_def serialize_sendable broadcast_eq proposed_def)
qed

lemma dag_hash_length:
  assumes "dag_inv C p ws" and "crypto_ok C" and "D \<in> set (dag_image p)" and "h \<in> D"
  shows "length h = HEX_HASH"
proof -
  from assms(1,3,4) obtain v where "vertex_map (server p) h = Some v"
    by (force simp: dag_inv_def conserved_def)
  with assms(1) have "vertex_hash C v = h" by (simp add: dag_inv_def keyed_def)
  then show ?thesis using length_hash_256 [OF assms(2)] by (auto simp: vertex_hash_def)
qed

text \<open>
  The peer after a successful move: the round, the DAG and the map with the own vertex, and one
  task for every connection.
\<close>

definition next_vertex :: "env \<Rightarrow> peer \<Rightarrow> vertex" where
  "next_vertex E p = own_vertex E (p\<lparr>cur_round := cur_round p + 1, dag_image := dag_image p @ [{}]\<rparr>)"

lemma advance_eq:
  assumes "dag_inv (crypt E) p ws" and "iter_ok (iter E)" and "crypto_ok (crypt E)"
    and "cur_round p < last_round p" and "wave_work E p = Inr r"
    and "0 < cur_round p \<Longrightarrow> card (dag_image p ! nat (cur_round p - 1)) \<le> 1023"
    and "int (length (c_sockets (client r))) \<le> crowd p - 1"
  shows "\<exists>q. advance E p = Inr q \<and> cur_round q = cur_round p + 1 \<and>
    dag_image q = dag_image p @ [{vertex_hash (crypt E) (next_vertex E p)}] \<and>
    task_queue (pool q) = task_queue (pool r) @ map (\<lambda>s. Sendn s (packet_of [next_vertex E p])) (c_sockets (client r)) \<and>
    sendable (next_vertex E p)"
proof -
  have core: "same_core p r" using assms(5) by (rule wave_work_core)
  let ?r = "r\<lparr>cur_round := cur_round r + 1\<rparr>"
  have wf: "wf_peer p" using assms(1) by (simp add: dag_inv_def)
  have len: "int (length (dag_image p)) = cur_round p"
    using wf assms(4) by (simp add: wf_peer_def)
  have same: "own_vertex E (?r\<lparr>dag_image := dag_image ?r @ [{}]\<rparr>) = next_vertex E p"
    using core by (simp add: own_vertex_def next_vertex_def same_core_def)
  have "sendable (next_vertex E p)"
    unfolding next_vertex_def
  proof (rule own_vertex_sendable)
    assume "1 < cur_round (p\<lparr>cur_round := cur_round p + 1, dag_image := dag_image p @ [{}]\<rparr>)"
    then have pos: "0 < cur_round p" by simp
    then have k: "nat (cur_round p - 1) < length (dag_image p)" using len by linarith
    then have "\<forall>h \<in> dag_image p ! nat (cur_round p - 1). length h = HEX_HASH"
      using dag_hash_length [OF assms(1,3) nth_mem] by blast
    then show "finite (dag_image (p\<lparr>cur_round := cur_round p + 1, dag_image := dag_image p @ [{}]\<rparr>) !
          nat (cur_round (p\<lparr>cur_round := cur_round p + 1, dag_image := dag_image p @ [{}]\<rparr>) - 2)) \<and>
        card (dag_image (p\<lparr>cur_round := cur_round p + 1, dag_image := dag_image p @ [{}]\<rparr>) !
          nat (cur_round (p\<lparr>cur_round := cur_round p + 1, dag_image := dag_image p @ [{}]\<rparr>) - 2)) \<le> 1023 \<and>
        (\<forall>h \<in> dag_image (p\<lparr>cur_round := cur_round p + 1, dag_image := dag_image p @ [{}]\<rparr>) !
          nat (cur_round (p\<lparr>cur_round := cur_round p + 1, dag_image := dag_image p @ [{}]\<rparr>) - 2). length h = HEX_HASH)"
      using k wf assms(6) [OF pos]
      by (simp add: wf_peer_def nth_append)
  qed (use wf assms(2,4) in \<open>simp_all add: wf_peer_def\<close>)
  moreover have "advance E p = propose E ?r"
    using assms(4,5) core by (simp add: advance_def Let_def same_core_def)
  moreover have "propose E ?r = Inr ((proposed E ?r)\<lparr>pool := (pool ?r)\<lparr>task_queue := task_queue (pool ?r) @
     map (\<lambda>s. Sendn s (packet_of [own_vertex E (?r\<lparr>dag_image := dag_image ?r @ [{}]\<rparr>)])) (c_sockets (client ?r))\<rparr>\<rparr>)"
    using calculation(1) core len wf assms(7)
    by (intro propose_eq) (simp_all only: same, simp_all add: same_core_def wf_peer_def)
  moreover have "own_vertex E (r\<lparr>cur_round := cur_round p + 1, dag_image := dag_image p @ [{}]\<rparr>) = next_vertex E p"
    using same core by (simp add: same_core_def)
  ultimately show ?thesis
    using core by (simp only: same) (simp add: proposed_def Let_def same_core_def)
qed

lemma can_advance_if:
  assumes "dag_inv C p ws" and "cur_round p < last_round p"
    and "0 < cur_round p \<Longrightarrow> majority (crowd p) \<le> int (card (dag_image p ! nat (cur_round p - 1)))"
  shows "can_advance p = Inr True"
proof (cases "cur_round p = 0")
  case False
  have wf: "wf_peer p" using assms(1) by (simp add: dag_inv_def)
  with False have "0 < cur_round p" by (simp add: wf_peer_def)
  moreover have "int (length (dag_image p)) = cur_round p"
    using wf assms(2) by (simp add: wf_peer_def)
  ultimately show ?thesis
    using assms(3) wf by (simp add: can_advance_def vec_at_def majority_def wf_peer_def)
qed (simp add: can_advance_def)

text \<open>
  Progress: in a reachable state with a quorum in the current round (or before round 1), the
  scan thread moves to the next round. It files its new vertex, which refers to every vertex of
  the round it leaves, as the first of the new round, and queues one copy of it, in the format
  of the wire, for every open connection. (The work of the wave must succeed, the round it
  leaves must have at most 1023 vertices, and there must be no more connections than peers.)
\<close>

theorem quorum_advances_round:
  assumes "launched s" and "iter_ok (iter E)" and "(step E)\<^sup>*\<^sup>* s (Top, p, l, lv)" and "crypto_ok (crypt E)"
    and "cur_round p < last_round p" and "wave_work E p = Inr r"
    and "0 < cur_round p \<Longrightarrow> majority (crowd p) \<le> int (card (dag_image p ! nat (cur_round p - 1))) \<and>
      card (dag_image p ! nat (cur_round p - 1)) \<le> 1023"
    and "int (length (c_sockets (client r))) \<le> crowd p - 1"
  shows "\<exists>q. move_round E t (p, l) = Inr (q, l\<lparr>need_help := False\<rparr>) \<and> cur_round q = cur_round p + 1 \<and>
    dag_image q = dag_image p @ [{vertex_hash (crypt E) (next_vertex E p)}] \<and>
    (0 < cur_round p \<longrightarrow> set (references (next_vertex E p)) = dag_image p ! nat (cur_round p - 1)) \<and>
    task_queue (pool q) = task_queue (pool r) @ map (\<lambda>s. Sendn s (packet_of [next_vertex E p])) (c_sockets (client r))"
proof -
  have inv: "dag_inv (crypt E) p (buffer p @ temp_list lv)"
    by (rule reachable_inv [OF assms(1-3)])
  then have wf: "wf_peer p" by (simp add: dag_inv_def)
  have len: "int (length (dag_image p)) = cur_round p"
    using wf assms(5) by (simp add: wf_peer_def)
  have "can_advance p = Inr True"
    using can_advance_if [OF inv assms(5)] assms(7) by blast
  moreover have "set (references (next_vertex E p)) = dag_image p ! nat (cur_round p - 1)" if pos: "0 < cur_round p"
  proof -
    have k: "nat (cur_round p - 1) < length (dag_image p)" using len pos by linarith
    then have "finite (dag_image p ! nat (cur_round p - 1))" using wf by (simp add: wf_peer_def)
    from iter_okD(2) [OF assms(2) this] pos k show ?thesis
      by (simp add: next_vertex_def own_vertex_def nth_append)
  qed
  moreover obtain q where "advance E p = Inr q" "cur_round q = cur_round p + 1"
    "dag_image q = dag_image p @ [{vertex_hash (crypt E) (next_vertex E p)}]"
    "task_queue (pool q) = task_queue (pool r) @ map (\<lambda>s. Sendn s (packet_of [next_vertex E p])) (c_sockets (client r))"
    using advance_eq [OF inv assms(2,4,5,6) _ assms(8)] assms(7) by blast
  ultimately show ?thesis
    using assms(5) by (simp add: move_round_def)
qed

section \<open>A run for the witnesses\<close>

definition first_peer :: peer where
  "first_peer = (case Peer 4 0 17 2 1 6 4999 1024 4 20 False of Inr p \<Rightarrow> p)"

definition first_state :: validator where
  "first_state = (Top, first_peer, scan_init first_peer, server_init (server first_peer) (\<lambda>_. []))"

lemma first_peer_eq: "Peer 4 0 17 2 1 6 4999 1024 4 20 False = Inr first_peer"
  by (simp add: first_peer_def Peer_def Server_def c_socket_def)

lemma first_peer_sel:
  "cur_round first_peer = 0" "crowd first_peer = 4" "last_round first_peer = 20" "byzantines first_peer = 1"
  "own_id first_peer = 17" "buffer first_peer = []" "dag_image first_peer = []" "detached first_peer = []"
  "client first_peer = Client 2 1 6 20" "pool first_peer = Threadpool 160" "requests first_peer = []"
  "vertex_map (server first_peer) = Map.empty" "known_peers first_peer = []"
  by (simp_all add: first_peer_def Peer_def Server_def c_socket_def max_byzantines_div)

lemma launched_first: "launched first_state"
proof -
  have "setup_network (\<lambda>_. \<lparr>conn_socket = 0, conn_connect = 0, conn_value = 0\<rparr>) 0 (Some []) first_peer = Inr first_peer"
    by (simp add: setup_network_def connect_to_def first_peer_sel)
  from launch [OF first_peer_eq _ _ _ _ this] show ?thesis
    by (simp add: first_state_def)
qed

lemma wave_work_first: "wave_work E first_peer = Inr first_peer"
  by (simp add: wave_work_def first_peer_sel WAVE_def HALF_WAVE_def)

lemma demo_env_ok: "iter_ok (iter demo_env)" "crypto_ok (crypt demo_env)"
  by (simp_all add: demo_env_def iter_ok_sorted crypto_ok_demo)

theorem quorum_advances_round_witness:
  "\<exists>q. move_round demo_env 0 (first_peer, scan_init first_peer) = Inr (q, scan_init first_peer) \<and> cur_round q = 1 \<and>
     dag_image q = [{vertex_hash demo_crypto (next_vertex demo_env first_peer)}]"
proof -
  have "(step demo_env)\<^sup>*\<^sup>* first_state (Top, first_peer, scan_init first_peer, server_init (server first_peer) (\<lambda>_. []))"
    by (simp add: first_state_def)
  from quorum_advances_round [OF launched_first demo_env_ok(1) this demo_env_ok(2) _ wave_work_first, of 0]
  moreover have "scan_init first_peer\<lparr>need_help := False\<rparr> = scan_init first_peer" "crypt demo_env = demo_crypto"
    by (simp_all add: scan_init_def demo_env_def)
  ultimately show ?thesis
    by (auto simp: first_peer_sel Client_def)
qed

lemma demo_run:
  obtains p l lv where "(step demo_env)\<^sup>*\<^sup>* first_state (Asleep, p, l, lv)"
    and "dag_image p = [{own_key demo_crypto p 1}]" and "cur_round p = 1" and "last_round p = 20"
    and "own_id p = 17" and "crowd p = 4" and "missing_set l = {}" and "\<forall>v \<in> ran (vertex_map (server p)). sendable v"
proof -
  let ?E = demo_env
  have inv: "dag_inv (crypt ?E) first_peer (buffer first_peer @ [])"
    using Peer_inv(1) [OF first_peer_eq] by (simp add: first_peer_sel)
  obtain q where q: "advance ?E first_peer = Inr q" "cur_round q = 1"
    "dag_image q = [{vertex_hash (crypt ?E) (next_vertex ?E first_peer)}]" and fits: "sendable (next_vertex ?E first_peer)"
    using advance_eq [OF inv demo_env_ok _ wave_work_first] by (auto simp: first_peer_sel Client_def)
  then have move: "move_round ?E 0 (first_peer, scan_init first_peer) = Inr (q, (scan_init first_peer)\<lparr>need_help := False\<rparr>)"
    by (simp add: move_round_def can_advance_def first_peer_sel)
  have core: "same_core (proposed ?E (first_peer\<lparr>cur_round := 1\<rparr>)) q"
    using q(1) propose_core [of ?E "first_peer\<lparr>cur_round := 1\<rparr>" q]
    by (simp add: advance_def wave_work_first Let_def first_peer_sel)
  then have frame: "last_round q = 20" "own_id q = 17" "crowd q = 4"
    by (simp_all add: same_core_def proposed_def Let_def first_peer_sel)
  have "vertex_map (server q) = [vertex_hash (crypt ?E) (next_vertex ?E first_peer) \<mapsto> next_vertex ?E first_peer]"
    using core by (simp add: same_core_def proposed_def Let_def next_vertex_def first_peer_sel add_to_map_def umap_insert_def)
  then have "\<forall>v \<in> ran (vertex_map (server q)). sendable v" using fits by simp
  moreover have "vertex_hash C (next_vertex ?E first_peer) = own_key C q 1" for C
    unfolding next_vertex_def
    by (subst own_vertex_sel(2)) (simp_all add: first_peer_sel own_key_def frame)
  then have "dag_image q = [{own_key demo_crypto q 1}]" using q(3) by (simp add: demo_env_def)
  moreover have "step ?E first_state (Asleep, q\<lparr>server := set_thread_ready True (server q)\<rparr>,
      (scan_init first_peer)\<lparr>need_help := False\<rparr>, server_init (server first_peer) (\<lambda>_. []))"
    unfolding first_state_def by (rule act_step [OF act.round [OF move]])
  ultimately show ?thesis
    using q(2) frame that [OF r_into_rtranclp] by (simp add: set_thread_ready_def scan_init_def)
qed

lemma demo_alien:
  assumes "own_id p = 17" and "last_round p = 20"
  shows "alien demo_crypto p 0 (own_key demo_crypto p 1)"
proof -
  have "list_all (\<lambda>r. r = 1 \<or> hash_256 demo_crypto (vertex_key r 17) \<noteq> hash_256 demo_crypto (vertex_key 1 17)) [1..20]"
    by code_simp
  with assms show ?thesis by (auto simp: alien_def own_key_def list_all_iff)
qed

theorem dag_causally_complete_witness:
  "\<exists>(p :: peer) v h. dag_image p = [{h}] \<and> vertex_map (server p) h = Some v \<and> vertex_hash demo_crypto v = h \<and> sint (vround v) = 1"
proof -
  obtain p l lv where run: "(step demo_env)\<^sup>*\<^sup>* first_state (Asleep, p, l, lv)"
    and p: "dag_image p = [{own_key demo_crypto p 1}]" "last_round p = 20" "own_id p = 17"
    by (rule demo_run)
  have "alien (crypt demo_env) p 0 (own_key demo_crypto p 1)"
    using demo_alien [OF p(3,2)] by (simp add: demo_env_def)
  from dag_causally_complete [OF launched_first demo_env_ok(1) run _ _ this] p
  have "\<exists>v. vertex_map (server p) (own_key demo_crypto p 1) = Some v \<and>
      vertex_hash demo_crypto v = own_key demo_crypto p 1 \<and> sint (vround v) = 1"
    by (auto simp: demo_env_def)
  with p(1) show ?thesis by blast
qed

theorem no_vertex_lost_witness:
  "\<exists>(p :: peer) ws h. dag_image p = [{h}] \<and>
     dom (vertex_map (server p)) = vertex_hash demo_crypto ` set ws \<union> {h} \<and> distinct (map (vertex_hash demo_crypto) ws)"
proof -
  obtain p l lv where run: "(step demo_env)\<^sup>*\<^sup>* first_state (Asleep, p, l, lv)"
    and p: "dag_image p = [{own_key demo_crypto p 1}]"
    by (rule demo_run)
  from no_vertex_lost [OF launched_first demo_env_ok(1) run] p show ?thesis
    by (intro exI [of _ p] exI [of _ "buffer p @ temp_list lv"] exI [of _ "own_key demo_crypto p 1"])
      (simp add: demo_env_def)
qed

theorem rounds_left_with_quorum_witness:
  "\<exists>p :: peer. dag_image p = [{own_key demo_crypto p 1}] \<and> int (length (dag_image p)) = min (cur_round p) (last_round p)"
proof -
  obtain p l lv where run: "(step demo_env)\<^sup>*\<^sup>* first_state (Asleep, p, l, lv)"
    and p: "dag_image p = [{own_key demo_crypto p 1}]"
    by (rule demo_run)
  from rounds_left_with_quorum [OF launched_first demo_env_ok(1) run] p show ?thesis by auto
qed

theorem dag_append_only_witness:
  "\<exists>(q :: peer) h. dag_image q = [{h}] \<and> length (dag_image first_peer) \<le> length (dag_image q)"
proof -
  obtain p l lv where run: "(step demo_env)\<^sup>*\<^sup>* first_state (Asleep, p, l, lv)"
    and p: "dag_image p = [{own_key demo_crypto p 1}]"
    by (rule demo_run)
  from dag_append_only [OF run [unfolded first_state_def]] p show ?thesis by blast
qed

section \<open>What the scan does with a vertex\<close>

lemma offer_missing_total:
  assumes "iter_ok (iter E)" and "finite (missing_set l)" and "missing_set l \<subseteq> dom (vertex_map (server p))"
    and "\<forall>v \<in> ran (vertex_map (server p)). sendable v"
  shows "\<exists>q l'. offer_missing E w (p, l) = Inr (q, l')"
proof -
  obtain sock p' where look: "lookup_socket (peer_id w) p = (sock, p')" by force
  then have server: "server p' = server p" using same_core_lookup by (auto simp: same_core_def)
  have "\<forall>h \<in> set (iter E (missing_set l)). \<exists>v. vertex_map (server p) h = Some v \<and> sendable v"
  proof
    fix h assume "h \<in> set (iter E (missing_set l))"
    then have "h \<in> dom (vertex_map (server p))"
      using assms(3) iter_okD(2) [OF assms(1,2)] by auto
    then show "\<exists>v. vertex_map (server p) h = Some v \<and> sendable v"
      using assms(4) by (auto intro: ranI)
  qed
  from missing_packets_ok [OF this, of "junk E"] obtain groups where
    "missing_packets (server p) (iter E (missing_set l)) (junk E) = Inr (map packet_of groups)" by blast
  then show ?thesis
    by (auto simp: offer_missing_def Let_def look send_missing_vertices_def server)
qed

lemma scan_one_joins:
  assumes "iter_ok (iter E)" and "\<forall>D \<in> set (dag_image p). finite D \<and> D \<subseteq> dom (vertex_map (server p))"
    and "1 \<le> sint (vround v)" and "sint (vround v) \<le> int (length (dag_image p))" and "sint (vround v) \<le> cur_round p"
    and "sint (vround v) = 1 \<or> set (references v) \<subseteq> dag_image p ! nat (sint (vround v) - 2)"
    and "finite (missing_set l)" and "missing_set l \<subseteq> dom (vertex_map (server p))"
    and "\<forall>v \<in> ran (vertex_map (server p)). sendable v"
  shows "\<exists>q l'. scan_one E v (p, l) = Inr (False, q, l') \<and>
    dag_image q = (dag_image p)[nat (sint (vround v) - 1) :=
      insert (vertex_hash (crypt E) v) (dag_image p ! nat (sint (vround v) - 1))]"
proof -
  let ?r = "sint (vround v)" and ?D = "dag_image p ! nat (sint (vround v) - 2)"
  let ?hist = "if ?r = 1 then Inr (True, missing_set l) else mutual_history ?r (references v) p"
  obtain S where S: "?hist = Inr (True, S)" "finite S" "S \<subseteq> dom (vertex_map (server p))"
  proof (cases "?r = 1")
    case False
    then have "?D \<in> set (dag_image p)" using assms(3,4) by (intro nth_mem) auto
    moreover have "?hist = Inr (True, ?D - set (references v))"
      using False assms(3,4,6) by (simp add: mutual_history_eq Let_def)
    ultimately show thesis using that assms(2) by blast
  qed (use that assms(7,8) in simp)
  obtain q l' where offer: "offer_missing E v (p, l\<lparr>missing_set := S\<rparr>) = Inr (q, l')"
    using offer_missing_total [OF assms(1), of "l\<lparr>missing_set := S\<rparr>" p v] S assms(9) by auto
  then have "dag_image q = dag_image p"
    using offer_missing_core [OF offer] by (simp add: same_core_def)
  moreover have "?r - 1 < int (length (dag_image p))" "nat (?r - 1) < length (dag_image p)"
    using assms(3,4) by auto
  ultimately have "scan_one E v (p, l) = Inr (False, q\<lparr>dag_image := (dag_image p)[nat (?r - 1) :=
      insert (vertex_hash (crypt E) v) (dag_image p ! nat (?r - 1))]\<rparr>, l')"
    using S(1) offer assms(3,5) unfolding scan_one_def get_round_def by (simp add: Let_def vec_at_def)
  then show ?thesis by simp
qed

text \<open>
  C33. The scan decides by the history alone: a waiting vertex of a round that has begun joins its
  round of the DAG exactly if all its references are in the round before (or it belongs to the
  first round), and else stays in the buffer with the DAG unchanged; a vertex of a later round
  waits. (Every stored vertex must fit a message, for the case that missing ones are sent.)
\<close>

theorem scan_decides_by_history:
  assumes "launched s" and "iter_ok (iter E)" and "(step E)\<^sup>*\<^sup>* s (Asleep, p, l, lv)"
    and "1 \<le> sint (vround v)" and "sint (vround v) \<le> last_round p"
    and "finite (missing_set l)" and "missing_set l \<subseteq> dom (vertex_map (server p))"
    and "\<forall>v \<in> ran (vertex_map (server p)). sendable v"
  shows "\<exists>q l'.
    (if sint (vround v) \<le> cur_round p \<and>
        (sint (vround v) = 1 \<or> set (references v) \<subseteq> dag_image p ! nat (sint (vround v) - 2))
     then scan_one E v (p, l) = Inr (False, q, l') \<and>
       dag_image q = (dag_image p)[nat (sint (vround v) - 1) :=
         insert (vertex_hash (crypt E) v) (dag_image p ! nat (sint (vround v) - 1))]
     else scan_one E v (p, l) = Inr (True, p, l'))"
proof -
  let ?r = "sint (vround v)" and ?D = "dag_image p ! nat (sint (vround v) - 2)"
  have "dag_inv (crypt E) p (buffer p @ temp_list lv)"
    by (rule reachable_inv [OF assms(1-3)])
  then have wf: "wf_peer p" and sets: "\<forall>D \<in> set (dag_image p). finite D \<and> D \<subseteq> dom (vertex_map (server p))"
    by (auto simp: dag_inv_def conserved_def wf_peer_def)
  consider (later) "cur_round p < ?r" | (joins) "?r \<le> cur_round p" "?r = 1 \<or> set (references v) \<subseteq> ?D"
    | (refused) "?r \<le> cur_round p" "?r \<noteq> 1" "\<not> set (references v) \<subseteq> ?D"
    by linarith
  then show ?thesis
  proof cases
    case later
    then show ?thesis by (simp add: scan_one_def Let_def)
  next
    case joins
    then have "?r \<le> int (length (dag_image p))" using wf assms(5) by (simp add: wf_peer_def)
    from scan_one_joins [OF assms(2) sets assms(4) this joins assms(6-8)] joins show ?thesis by auto
  next
    case refused
    then have "?r \<le> int (length (dag_image p))" using wf assms(5) by (simp add: wf_peer_def)
    then have "mutual_history ?r (references v) p = Inr (False, {})"
      using refused assms(4) by (simp add: mutual_history_eq Let_def)
    then have "scan_one E v (p, l) = Inr (True, p, l\<lparr>missing_set := {}\<rparr>)"
      using refused by (simp add: scan_one_def Let_def)
    with refused show ?thesis by auto
  qed
qed

theorem scan_decides_by_history_witness:
  "\<exists>(p :: peer) q l l'. scan_one demo_env (Vertex 1 99 ''x'') (p, l) = Inr (False, q, l') \<and>
     dag_image q = [{vertex_hash demo_crypto (Vertex 1 99 ''x''), own_key demo_crypto p 1}]"
proof -
  obtain p l lv where run: "(step demo_env)\<^sup>*\<^sup>* first_state (Asleep, p, l, lv)"
    and p: "dag_image p = [{own_key demo_crypto p 1}]" "cur_round p = 1" "last_round p = 20"
      "\<forall>v \<in> ran (vertex_map (server p)). sendable v" and l: "missing_set l = {}"
    by (rule demo_run)
  have "sint (vround (Vertex 1 99 ''x'')) = 1" by (simp add: Vertex_def)
  with scan_decides_by_history [OF launched_first demo_env_ok(1) run, of "Vertex 1 99 ''x''"] p l
  show ?thesis by (fastforce simp: demo_env_def)
qed

text \<open>
  The round number of a received vertex is never checked: one with a round of zero or below
  that names enough references is admitted by the server, and when the scan comes to it, it
  reads the DAG at a negative index.
\<close>

theorem bad_round_faults:
  assumes "sint (vround v) \<le> 0" and "0 \<le> cur_round p" and "maj \<le> int (length (references v))"
  shows "admissible maj v \<and> scan_one E v (p, l) = Inl Out_Of_Bounds"
  using assms by (simp add: admissible_def scan_one_def Let_def mutual_history_eq)

theorem bad_round_faults_witness:
  "scan_one demo_env (demo_vertex\<lparr>vround := 0, references := [''A'', ''B'', ''C'']\<rparr>) (first_peer, scan_init first_peer) =
     Inl Out_Of_Bounds"
  using bad_round_faults [of "demo_vertex\<lparr>vround := 0, references := [''A'', ''B'', ''C'']\<rparr>" first_peer 3]
  by (simp add: first_peer_sel)

text \<open>
  For a vertex of the first round the set of missing vertices is not computed: what the last
  history check has left over is sent to the creator of that vertex, though it cannot have asked
  for it (its round has no predecessor).
\<close>

theorem stale_set_sent:
  assumes "vround v = 1" and "1 \<le> cur_round p" and "missing_set l \<noteq> {}" and "coin E (draws l) \<le> 60"
    and "socket_map (client p) (peer_id v) = Some fd" and "dag_image p \<noteq> []"
    and "missing_packets (server p) (iter E (missing_set l)) (junk E) = Inr packets"
  shows "\<exists>q l'. scan_one E v (p, l) = Inr (False, q, l') \<and> missing_set l' = {} \<and>
    task_queue (pool q) = task_queue (pool p) @ map (Sendn fd) packets"
proof -
  have "task_queue (pool (foldl (\<lambda>p m. enqueue_send fd m p) p packets)) = task_queue (pool p) @ map (Sendn fd) packets" for p
    by (induction packets arbitrary: p) (auto simp: enqueue_send_def enqueue_def)
  moreover have "dag_image (foldl (\<lambda>p m. enqueue_send fd m p) p packets) = dag_image p" for p
    by (induction packets arbitrary: p) (auto simp: enqueue_send_def)
  moreover have "lookup_socket (peer_id v) p = (fd, p)"
    using assms(5) by (simp add: lookup_socket_def get_socket_def)
  ultimately show ?thesis
    using assms by (simp add: scan_one_def offer_missing_def send_missing_vertices_def Let_def vec_at_def)
qed

definition stale_peer :: peer where
  "stale_peer = first_peer\<lparr>cur_round := 1, dag_image := [{}],
     server := (server first_peer)\<lparr>vertex_map := [''h'' \<mapsto> demo_vertex]\<rparr>,
     client := (Client 2 1 6 20)\<lparr>socket_map := [99 \<mapsto> 5]\<rparr>\<rparr>"

theorem stale_set_sent_witness:
  "\<exists>q l' packets. scan_one demo_env (Vertex 1 99 ''x'') (stale_peer, (scan_init first_peer)\<lparr>missing_set := {''h''}\<rparr>) =
     Inr (False, q, l') \<and> task_queue (pool q) = map (Sendn 5) (map packet_of packets) \<and> concat packets = [demo_vertex]"
proof -
  have "\<forall>h \<in> set [''h'']. \<exists>v. vertex_map (server stale_peer) h = Some v \<and> sendable v"
    by (simp add: stale_peer_def sendable_demo)
  from missing_packets_ok [OF this, of "junk demo_env"] obtain groups where groups:
    "missing_packets (server stale_peer) [''h''] (junk demo_env) = Inr (map packet_of groups)" "concat groups = [demo_vertex]"
    by (auto simp: stale_peer_def)
  let ?l = "(scan_init first_peer)\<lparr>missing_set := {''h''}\<rparr>"
  have "missing_packets (server stale_peer) (iter demo_env (missing_set ?l)) (junk demo_env) = Inr (map packet_of groups)"
    using groups(1) by (simp add: demo_env_def)
  from stale_set_sent [OF _ _ _ _ _ _ this, of "Vertex 1 99 ''x''" 5] groups(2) show ?thesis
    by (fastforce simp: stale_peer_def Vertex_def demo_env_def first_peer_sel Threadpool_def)
qed

end
