(* ===== verification/Wave_Ops.thy ===== *)
theory Wave_Ops
  imports Frame
begin

text \<open>
  What the bookkeeping of a peer amounts to: whom the ordering of a wave black-lists, what a
  search asks for, what a record counts, and which addresses are read from the file.
\<close>

section \<open>The black list\<close>

text \<open>The hash under which the vertex of a validator at index \<open>i\<close> of the DAG would be filed.\<close>

definition expected_hash :: "env \<Rightarrow> int \<Rightarrow> u64 \<Rightarrow> string" where
  "expected_hash E i pid = hash_256 (crypt E) (to_string (i + 1) @ to_string (uint pid))"

text \<open>The validators without a vertex in an incomplete round of the window.\<close>

definition absent :: "env \<Rightarrow> peer \<Rightarrow> int \<Rightarrow> u64 set" where
  "absent E p i =
     (if int (card (dag_image p ! nat i)) < size_t (crowd p)
      then {pid \<in> set (take (nat (crowd p - 1)) (peers (client p))). expected_hash E i pid \<notin> dag_image p ! nat i}
      else {})"

definition same_view :: "peer \<Rightarrow> peer \<Rightarrow> bool" where
  "same_view p q \<longleftrightarrow> same_core p q \<and> peers (client q) = peers (client p)"

lemma same_view_trans: "same_view p q \<Longrightarrow> same_view q r \<Longrightarrow> same_view p r"
  by (auto simp: same_view_def intro: same_core_trans)

lemma lookup_view:
  "lookup_socket pid p = (s, q) \<Longrightarrow> same_view p q \<and> black_list q = black_list p \<and> task_queue (pool q) = task_queue (pool p) \<and>
     requests_asked q = requests_asked p \<and> c_sockets (client q) = c_sockets (client p)"
  by (auto simp: lookup_socket_def get_socket_def same_view_def same_core_def split: prod.splits option.splits)

lemma blame_view:
  assumes "blame pid p = Inr q"
  shows "same_view p q \<and> black_list q = insert pid (black_list p)"
proof -
  let ?p = "p\<lparr>black_list := uset_emplace pid (black_list p)\<rparr>"
  obtain d r socks where r: "lookup_socket pid ?p = (d, r)"
    and q: "q = r\<lparr>client := (client r)\<lparr>c_sockets := socks\<rparr>\<rparr>"
    using assms by (auto simp: blame_def bindR_Inr_iff split: prod.splits)
  then show ?thesis
    using lookup_view [OF r] blame_core [OF assms] by (simp add: same_view_def uset_emplace_def)
qed

lemma upto_take:
  assumes "\<forall>j \<in> set [0..n - 2]. j < int (length xs)"
  shows "(\<lambda>j. xs ! nat j) ` set [0..n - 2] = set (take (nat (n - 1)) xs)"
proof -
  have "nat (n - 1) \<le> length xs"
  proof (cases "2 \<le> n")
    case True
    then have "n - 2 \<in> set [0..n - 2]" by simp
    with assms have "n - 2 < int (length xs)" by blast
    then show ?thesis by linarith
  qed simp
  then have "set (take (nat (n - 1)) xs) = (!) xs ` {..<nat (n - 1)}"
    by (simp add: nth_image lessThan_atLeast0)
  moreover have "nat ` set [0..n - 2] = {..<nat (n - 1)}"
  proof (intro set_eqI iffI)
    fix k assume "k \<in> {..<nat (n - 1)}"
    then show "k \<in> nat ` set [0..n - 2]" by (intro image_eqI [of _ _ "int k"]) auto
  qed auto
  ultimately show ?thesis by (metis image_image)
qed

lemma order_round:
  assumes "foldR (\<lambda>j p. bindR (get_peer_id_at j (client p)) (\<lambda>peerID.
      let hash = hash_256 (crypt E) (to_string (i + 1) @ to_string (uint peerID)) in
      if hash \<notin> D then blame peerID p else Inr p)) [0..n - 2] p = Inr q"
  shows "same_view p q \<and> black_list q = black_list p \<union>
    {pid \<in> set (take (nat (n - 1)) (peers (client p))). expected_hash E i pid \<notin> D}"
proof -
  let ?at = "\<lambda>j. peers (client p) ! nat j"
  let ?new = "\<lambda>j. if expected_hash E i (?at j) \<notin> D then {?at j} else {}"
  let ?Q = "\<lambda>j. j < int (length (peers (client p)))"
  have "same_view p q \<and> (\<forall>j \<in> set [0..n - 2]. ?Q j) \<and> black_list q = black_list p \<union> (\<Union>j \<in> set [0..n - 2]. ?new j)"
    using assms
  proof (rule foldR_collect)
    fix j s t
    assume "same_view p s" and body: "bindR (get_peer_id_at j (client s)) (\<lambda>peerID.
      let hash = hash_256 (crypt E) (to_string (i + 1) @ to_string (uint peerID)) in
      if hash \<notin> D then blame peerID s else Inr s) = Inr t"
    then show "same_view p t \<and> ?Q j \<and> black_list t = black_list s \<union> ?new j"
      using blame_view [of "?at j" s t] same_view_trans
      by (auto simp: get_peer_id_at_def bindR_Inr_iff vec_at_Inr_iff expected_hash_def Let_def same_view_def split: if_splits)
  qed (simp add: same_view_def)
  moreover have "(\<Union>j \<in> set [0..n - 2]. ?new j) = {pid \<in> ?at ` set [0..n - 2]. expected_hash E i pid \<notin> D}"
    by auto
  ultimately show ?thesis
    using upto_take [of n "peers (client p)"] by simp
qed

text \<open>
  C34. Ordering a window black-lists exactly the validators that have no vertex in one of its
  incomplete rounds, keeps everybody who was black-listed, and leaves the DAG as it is.
\<close>

theorem total_order_black_list:
  assumes "total_order E end start p = Inr q"
  shows "black_list q = black_list p \<union> (\<Union>i \<in> {start..<end}. absent E p i) \<and> same_core p q"
proof -
  have "same_view p q \<and> (\<forall>i \<in> set [start..end - 1]. True) \<and>
      black_list q = black_list p \<union> (\<Union>i \<in> set [start..end - 1]. absent E p i)"
    using assms unfolding total_order_def
  proof (rule foldR_collect)
    fix i s t
    assume "same_view p s" and "bindR (vec_at (dag_image s) i) (\<lambda>D.
      if int (card D) < size_t (crowd s) then
        foldR (\<lambda>j p. bindR (get_peer_id_at j (client p)) (\<lambda>peerID.
          let hash = hash_256 (crypt E) (to_string (i + 1) @ to_string (uint peerID)) in
          if hash \<notin> D then blame peerID p else Inr p)) [0..crowd s - 2] s
      else Inr s) = Inr t"
    then show "same_view p t \<and> True \<and> black_list t = black_list s \<union> absent E p i"
      using order_round [of E i "dag_image p ! nat i" "crowd p" s t] same_view_trans
      by (auto simp: bindR_Inr_iff vec_at_Inr_iff absent_def same_view_def same_core_def split: if_splits)
  qed (simp add: same_view_def)
  moreover have "set [start..end - 1] = {start..<end}" by auto
  ultimately show ?thesis by (simp add: same_view_def)
qed

text \<open>A window of one round in which the first of three validators is absent.\<close>

definition wave_peer :: peer where
  "wave_peer = demo_peer\<lparr>dag_image := [{expected_hash demo_env 0 19, expected_hash demo_env 0 20}]\<rparr>"

lemma expected_hash_demo:
  "expected_hash demo_env 0 18 \<noteq> expected_hash demo_env 0 19" "expected_hash demo_env 0 18 \<noteq> expected_hash demo_env 0 20"
  "expected_hash demo_env 0 19 \<noteq> expected_hash demo_env 0 20"
  by code_simp+

lemma total_order_demo:
  "\<exists>q. total_order demo_env 1 0 wave_peer = Inr q \<and> c_sockets (client q) = [6, 7]"
proof -
  have "erase_loop 5 [5, 6, 7] 0 = Inr [6, 7]"
    by (simp add: erase_loop_eq)
  moreover have "hash_256 (crypt demo_env) (to_string 1 @ to_string 18) = expected_hash demo_env 0 18"
    "hash_256 (crypt demo_env) (to_string 1 @ to_string 19) = expected_hash demo_env 0 19"
    "hash_256 (crypt demo_env) (to_string 1 @ to_string 20) = expected_hash demo_env 0 20"
    by (simp_all add: expected_hash_def)
  ultimately show ?thesis
    using expected_hash_demo
    by (simp add: total_order_def wave_peer_def demo_peer_def vec_at_def upto.simps get_peer_id_at_def
        blame_def lookup_socket_def get_socket_def Let_def nth_Cons')
qed

theorem total_order_black_list_witness:
  "\<exists>q. total_order demo_env 1 0 wave_peer = Inr q \<and> black_list q = {18}"
proof -
  obtain q where q: "total_order demo_env 1 0 wave_peer = Inr q" using total_order_demo by blast
  moreover have "absent demo_env wave_peer 0 = {18}"
    using expected_hash_demo by (auto simp: absent_def wave_peer_def demo_peer_def take_Cons')
  moreover have "{0..<1 :: int} = {0}" by auto
  ultimately show ?thesis
    using total_order_black_list [OF q] by (simp add: wave_peer_def demo_peer_def)
qed

section \<open>Searching a round\<close>

text \<open>
  The requests that a search of round index \<open>r\<close> has to make: for every validator that is not
  black-listed and whose vertex of that round is not stored.
\<close>

definition wanted :: "env \<Rightarrow> peer \<Rightarrow> int \<Rightarrow> u64 list" where
  "wanted E p r = filter (\<lambda>pid. pid \<notin> black_list p \<and> expected_hash E r pid \<notin> dom (vertex_map (server p)))
     (take (nat (crowd p - 1)) (peers (client p)))"

text \<open>What a search does not change, whatever it asks for.\<close>

definition same_search :: "peer \<Rightarrow> peer \<Rightarrow> bool" where
  "same_search p q \<longleftrightarrow> same_view p q \<and> black_list q = black_list p"

lemma same_search_trans: "same_search p q \<Longrightarrow> same_search q r \<Longrightarrow> same_search p r"
  by (auto simp: same_search_def intro: same_view_trans)

lemma sends_search:
  "same_search p (foldl (\<lambda>p (s, i). enqueue_send s m p) p sends) \<and>
   requests_asked (foldl (\<lambda>p (s, i). enqueue_send s m p) p sends) = requests_asked p \<and>
   task_queue (pool (foldl (\<lambda>p (s, i). enqueue_send s m p) p sends)) = task_queue (pool p) @ map (\<lambda>(s, i). Sendn s m) sends"
  by (induction sends arbitrary: p)
    (auto simp: same_search_def same_view_def same_core_def enqueue_send_def enqueue_def)

lemma request_sends_owner:
  "request_sends f socks owner = Inr (sends, freed) \<Longrightarrow> owner \<in> fst ` set sends"
proof -
  assume "request_sends f socks owner = Inr (sends, freed)"
  then obtain acc sent where loop: "foldR (\<lambda>i (acc, sent). bindR (vec_at socks i) (\<lambda>sockfd.
      Inr (acc @ [(sockfd, i)], sent \<or> sockfd = owner))) [0..f] ([], False) = Inr (acc, sent)"
    and sends: "if \<not> sent then sends = acc @ [(owner, f + 1)] else sends = acc"
    by (auto simp: request_sends_def bindR_Inr_iff split: if_splits)
  have "case (acc, sent) of (acc, sent) \<Rightarrow> sent \<longrightarrow> owner \<in> fst ` set acc"
    using loop by (rule foldR_inv) (auto simp: bindR_Inr_iff split: prod.splits)
  with sends show ?thesis by (auto split: if_splits)
qed

lemma make_request_search:
  assumes "make_request E h owner p = Inr q" and "length h = HEX_HASH"
  shows "same_search p q \<and> requests_asked q = requests_asked p + 1 \<and>
    (\<exists>ss. task_queue (pool q) = task_queue (pool p) @ map (\<lambda>s. Sendn s (request_msg h (own_id p))) ss \<and> owner \<in> set ss)"
proof -
  obtain sends freed where sends: "request_sends (byzantines p) (shuffle E (requests_asked p) (c_sockets (client p))) owner = Inr (sends, freed)"
    using assms(1)
    by (cases "request_sends (byzantines p) (shuffle E (requests_asked p) (c_sockets (client p))) owner")
      (auto simp: make_request_def Let_def bindR_Inr_iff split: if_splits)
  note eq = make_request_eq [OF assms(2) sends]
  have "owner \<in> set (map fst sends)" using request_sends_owner [OF sends] by simp
  moreover have "map (\<lambda>(s, i). Sendn s m) sends = map (\<lambda>s. Sendn s m) (map fst sends)" for m
    by (simp add: case_prod_beta' comp_def)
  ultimately show ?thesis
    using assms(1) by (auto simp: eq same_search_def same_view_def same_core_def simp del: set_map map_map
        intro!: exI [of _ "map fst sends"])
qed

text \<open>The descriptor that \<open>get_socket\<close> yields; looking it up does not change it for any id.\<close>

definition socket_of :: "peer \<Rightarrow> u64 \<Rightarrow> int" where
  "socket_of p pid = fst (get_socket pid (client p))"

lemma lookup_socket_of:
  assumes "lookup_socket pid p = (s, q)"
  shows "s = socket_of p pid \<and> socket_of q = socket_of p"
  using assms
  by (auto simp: lookup_socket_def socket_of_def get_socket_def fun_eq_iff split: prod.splits option.splits if_splits)

lemma make_request_client: "make_request E h s p = Inr q \<Longrightarrow> client q = client p"
proof -
  have "client (foldl (\<lambda>p (s, i). enqueue_send s m p) p sends) = client p" for m p and sends :: "(int \<times> int) list"
    by (induction sends arbitrary: p) (auto simp: enqueue_send_def)
  then show "make_request E h s p = Inr q \<Longrightarrow> client q = client p"
    by (auto simp: make_request_def Let_def bindR_Inr_iff split: if_splits prod.splits)
qed

text \<open>The tasks of one search: for each wanted vertex one request to several connections.\<close>

definition request_tasks :: "env \<Rightarrow> u64 \<Rightarrow> int \<Rightarrow> (u64 \<times> int list) list \<Rightarrow> task list" where
  "request_tasks E own r asked =
     concat (map (\<lambda>(pid, ss). map (\<lambda>s. Sendn s (request_msg (expected_hash E r pid) own)) ss) asked)"

definition searched :: "env \<Rightarrow> int \<Rightarrow> u64 list \<Rightarrow> peer \<Rightarrow> peer \<Rightarrow> bool" where
  "searched E r pids p q \<longleftrightarrow> same_search p q \<and> socket_of q = socket_of p \<and>
     (\<exists>asked. map fst asked = filter (\<lambda>pid. pid \<notin> black_list p \<and> expected_hash E r pid \<notin> dom (vertex_map (server p))) pids \<and>
        (\<forall>(pid, ss) \<in> set asked. socket_of p pid \<in> set ss) \<and>
        task_queue (pool q) = task_queue (pool p) @ request_tasks E (own_id p) r asked \<and>
        requests_asked q = requests_asked p + int (length asked))"

lemma searched_refl: "searched E r [] p p"
  by (auto simp: searched_def same_search_def same_view_def request_tasks_def)

lemma searched_trans:
  assumes "searched E r xs p q" and "searched E r ys q t"
  shows "searched E r (xs @ ys) p t"
proof -
  obtain as where as: "map fst as = filter (\<lambda>pid. pid \<notin> black_list p \<and> expected_hash E r pid \<notin> dom (vertex_map (server p))) xs"
    "\<forall>(pid, ss) \<in> set as. socket_of p pid \<in> set ss"
    "task_queue (pool q) = task_queue (pool p) @ request_tasks E (own_id p) r as"
    "requests_asked q = requests_asked p + int (length as)"
    and pq: "same_search p q" "socket_of q = socket_of p"
    using assms(1) unfolding searched_def by blast
  obtain bs where bs: "map fst bs = filter (\<lambda>pid. pid \<notin> black_list q \<and> expected_hash E r pid \<notin> dom (vertex_map (server q))) ys"
    "\<forall>(pid, ss) \<in> set bs. socket_of q pid \<in> set ss"
    "task_queue (pool t) = task_queue (pool q) @ request_tasks E (own_id q) r bs"
    "requests_asked t = requests_asked q + int (length bs)"
    and qt: "same_search q t" "socket_of t = socket_of q"
    using assms(2) unfolding searched_def by blast
  have eq: "black_list q = black_list p" "server q = server p" "own_id q = own_id p"
    using pq(1) by (simp_all add: same_search_def same_view_def same_core_def)
  show ?thesis
    unfolding searched_def
    using as bs pq qt eq same_search_trans [OF pq(1) qt(1)]
    by (intro conjI exI [of _ "as @ bs"]) (simp_all add: request_tasks_def ball_Un)
qed

lemma search_one:
  assumes "(if \<not> uset_find pid (black_list p) then
      (let hash = hash_256 (crypt E) (to_string (r + 1) @ to_string (uint pid)) in
       if \<not> fst (find_in_map hash None (server p)) then
         (case lookup_socket pid p of (socket, p') \<Rightarrow> make_request E hash socket p')
       else Inr p) else Inr p) = Inr q"
    and "crypto_ok (crypt E)"
  shows "searched E r [pid] p q"
proof (cases "pid \<notin> black_list p \<and> expected_hash E r pid \<notin> dom (vertex_map (server p))")
  case True
  obtain s p' where look: "lookup_socket pid p = (s, p')" by force
  have req: "make_request E (expected_hash E r pid) s p' = Inr q"
    using assms(1) True by (simp add: look uset_find_def find_in_map_def Let_def flip: expected_hash_def)
  have len: "length (expected_hash E r pid) = HEX_HASH"
    using length_hash_256 [OF assms(2)] by (simp add: expected_hash_def)
  obtain ss where ss: "task_queue (pool q) = task_queue (pool p') @ map (\<lambda>s. Sendn s (request_msg (expected_hash E r pid) (own_id p'))) ss"
    "s \<in> set ss" and q: "same_search p' q" "requests_asked q = requests_asked p' + 1"
    using make_request_search [OF req len] by blast
  have p': "same_search p p'" "own_id p' = own_id p"
    using lookup_view [OF look] by (auto simp: same_search_def same_view_def same_core_def)
  have "socket_of q = socket_of p"
    using make_request_client [OF req] lookup_socket_of [OF look] by (simp add: socket_of_def fun_eq_iff)
  then show ?thesis
    unfolding searched_def
    using ss q p' True lookup_view [OF look] lookup_socket_of [OF look] same_search_trans [OF p'(1) q(1)]
    by (intro conjI exI [of _ "[(pid, ss)]"]) (auto simp: request_tasks_def)
next
  case False
  then have "q = p"
    using assms(1) unfolding expected_hash_def
    by (cases "pid \<in> black_list p") (simp_all add: uset_find_def find_in_map_def Let_def)
  with False show ?thesis
    by (auto simp: searched_def same_search_def same_view_def request_tasks_def intro!: exI [of _ "[]"])
qed

lemma check_round_loop:
  assumes "foldR (\<lambda>j p. bindR (get_peer_id_at j (client p)) (\<lambda>pid.
      if \<not> uset_find pid (black_list p) then
        (let hash = hash_256 (crypt E) (to_string (r + 1) @ to_string (uint pid)) in
         if \<not> fst (find_in_map hash None (server p)) then
           (case lookup_socket pid p of (socket, p') \<Rightarrow> make_request E hash socket p')
         else Inr p) else Inr p)) js p = Inr q"
    and "crypto_ok (crypt E)"
  shows "searched E r (map (\<lambda>j. peers (client p) ! nat j) js) p q \<and> (\<forall>j \<in> set js. j < int (length (peers (client p))))"
  using assms(1)
proof (induction js arbitrary: p)
  case Nil
  then show ?case by (simp add: searched_refl)
next
  case (Cons j js)
  then obtain pid t where at: "get_peer_id_at j (client p) = Inr pid"
    and one: "(if \<not> uset_find pid (black_list p) then
        (let hash = hash_256 (crypt E) (to_string (r + 1) @ to_string (uint pid)) in
         if \<not> fst (find_in_map hash None (server p)) then
           (case lookup_socket pid p of (socket, p') \<Rightarrow> make_request E hash socket p')
         else Inr p) else Inr p) = Inr t"
    and rest: "foldR (\<lambda>j p. bindR (get_peer_id_at j (client p)) (\<lambda>pid.
      if \<not> uset_find pid (black_list p) then
        (let hash = hash_256 (crypt E) (to_string (r + 1) @ to_string (uint pid)) in
         if \<not> fst (find_in_map hash None (server p)) then
           (case lookup_socket pid p of (socket, p') \<Rightarrow> make_request E hash socket p')
         else Inr p) else Inr p)) js t = Inr q"
    unfolding foldR.simps by (elim bindR_InrE)
  have first: "searched E r [pid] p t" by (rule search_one [OF one assms(2)])
  then have same: "peers (client t) = peers (client p)"
    by (simp add: searched_def same_search_def same_view_def)
  with Cons.IH [OF rest] have "searched E r (map (\<lambda>j. peers (client p) ! nat j) js) t q"
    and "\<forall>j \<in> set js. j < int (length (peers (client p)))" by simp_all
  with searched_trans [OF first, of "map (\<lambda>j. peers (client p) ! nat j) js" q] at show ?case
    by (auto simp: get_peer_id_at_def vec_at_Inr_iff)
qed

lemma upto_take_map:
  assumes "\<forall>j \<in> set [0..n - 2]. j < int (length xs)"
  shows "map (\<lambda>j. xs ! nat j) [0..n - 2] = take (nat (n - 1)) xs"
proof (cases "1 \<le> n")
  case True
  define k where "k = nat (n - 1)"
  have k: "n - 2 = int k - 1" using True by (simp add: k_def)
  have "k \<le> length xs"
  proof (cases k)
    case (Suc m)
    with k have "int m \<in> set [0..n - 2]" by simp
    with assms Suc show ?thesis by fastforce
  qed simp
  then show ?thesis
    unfolding k map_int_upt [symmetric] by (simp add: k_def [symmetric] list_eq_iff_nth_eq)
qed simp

text \<open>
  C35. The search of a round asks for exactly the vertices that are wanted: one request for each
  validator that is not black-listed and whose vertex is not stored, in the order of the
  validators, each sent to its owner at least; the count of requests grows by their number.
\<close>

theorem check_round_asks:
  assumes "check_round E r p = Inr q" and "crypto_ok (crypt E)"
  shows "\<exists>asked. map fst asked = wanted E p r \<and>
     task_queue (pool q) = task_queue (pool p) @ request_tasks E (own_id p) r asked \<and>
     requests_asked q = requests_asked p + int (length (wanted E p r)) \<and>
     (\<forall>(pid, ss) \<in> set asked. socket_of p pid \<in> set ss) \<and> same_core p q"
proof -
  from check_round_loop [OF assms(1) [unfolded check_round_def] assms(2)]
  have "searched E r (map (\<lambda>j. peers (client p) ! nat j) [0..crowd p - 2]) p q"
    and "\<forall>j \<in> set [0..crowd p - 2]. j < int (length (peers (client p)))" by simp_all
  then have "searched E r (take (nat (crowd p - 1)) (peers (client p))) p q"
    using upto_take_map by metis
  then obtain asked where "map fst asked = wanted E p r"
      "(\<forall>(pid, ss) \<in> set asked. socket_of p pid \<in> set ss)"
      "task_queue (pool q) = task_queue (pool p) @ request_tasks E (own_id p) r asked"
      "requests_asked q = requests_asked p + int (length asked)" "same_core p q"
    unfolding searched_def wanted_def same_search_def same_view_def by blast
  moreover from this(1) have "length asked = length (wanted E p r)" by (metis length_map)
  ultimately show ?thesis by auto
qed

text \<open>A peer that has black-listed two of the other three validators.\<close>

definition search_peer :: peer where
  "search_peer = demo_peer\<lparr>black_list := {18, 19}\<rparr>"

lemma check_round_demo: "\<exists>q. check_round demo_env 0 search_peer = Inr q"
proof -
  have sends: "request_sends (byzantines search_peer) (shuffle demo_env (requests_asked search_peer) (c_sockets (client search_peer))) 7 =
      Inr ([(5, 0), (6, 1), (7, 2)], [])"
    by (simp add: search_peer_def demo_peer_def demo_env_def request_sends_def vec_at_def upto.simps)
  have "crypt demo_env = demo_crypto" by (simp add: demo_env_def)
  then have "length (hash_256 (crypt demo_env) (to_string 1 @ to_string 20)) = HEX_HASH"
    using length_hash_256 [OF crypto_ok_demo] by simp
  note request = make_request_eq [OF this sends]
  show ?thesis
    using request
    by (simp add: check_round_def search_peer_def demo_peer_def demo_server_def upto.simps get_peer_id_at_def vec_at_def
        uset_find_def find_in_map_def lookup_socket_def get_socket_def Let_def nth_Cons')
qed

theorem check_round_asks_witness:
  "\<exists>q ss. check_round demo_env 0 search_peer = Inr q \<and> requests_asked q = 1 \<and> 7 \<in> set ss \<and>
     task_queue (pool q) = map (\<lambda>s. Sendn s (request_msg (expected_hash demo_env 0 20) 17)) ss"
proof -
  obtain q where q: "check_round demo_env 0 search_peer = Inr q" using check_round_demo by blast
  have w: "wanted demo_env search_peer 0 = [20]"
    by (simp add: wanted_def search_peer_def demo_peer_def demo_server_def take_Cons')
  have ok: "crypto_ok (crypt demo_env)" using crypto_ok_demo by (simp add: demo_env_def)
  obtain asked where asked: "map fst asked = [20]"
      "task_queue (pool q) = task_queue (pool search_peer) @ request_tasks demo_env (own_id search_peer) 0 asked"
      "requests_asked q = requests_asked search_peer + 1"
      "\<forall>(pid, ss) \<in> set asked. socket_of search_peer pid \<in> set ss"
    using check_round_asks [OF q ok] unfolding w by (elim exE conjE) (rule that, simp_all)
  then obtain ss where "asked = [(20, ss)]" by auto
  with asked q show ?thesis
    by (intro exI [of _ q] exI [of _ ss])
      (simp add: request_tasks_def search_peer_def demo_peer_def Threadpool_def socket_of_def get_socket_def)
qed

section \<open>Records\<close>

lemma write_record_loop:
  assumes "\<forall>i \<in> set is. 0 \<le> i \<and> i < int (length (dag_image p))"
  shows "foldR (\<lambda>i (total_vertices, total_absent_vertices).
      bindR (vec_at (dag_image p) i) (\<lambda>D.
      Inr (total_vertices + int (card D),
           if int (card D) < size_t (crowd p)
           then total_absent_vertices + (crowd p - int (card D)) else total_absent_vertices))) is (a, b) =
    Inr (a + (\<Sum>i\<leftarrow>is. int (card (dag_image p ! nat i))),
         b + (\<Sum>i\<leftarrow>is. if int (card (dag_image p ! nat i)) < size_t (crowd p)
                     then crowd p - int (card (dag_image p ! nat i)) else 0))"
  using assms by (induction "is" arbitrary: a b) (auto simp: vec_at_def)

text \<open>
  A record's totals add up: while no round holds more vertices than there are validators, the
  vertices and the absent vertices of a record together are the number of validators times the
  number of rounds, and its message count is the sum of its four parts.
\<close>

theorem write_record_adds_up:
  assumes "write_record answered missing help helped p = Inr r"
    and "0 \<le> crowd p" and "crowd p < 2 ^ 31" and "\<forall>D \<in> set (dag_image p). int (card D) \<le> crowd p"
  shows "r_total_vertices r + r_total_absent r = crowd p * cur_round p \<and>
    r_total_messages r = r_broadcasts r + r_multicasts r + r_missing r + r_answered r \<and>
    r_on_round r = int (card (dag_image p ! nat (cur_round p - 1))) \<and> r_failed r = int (card (black_list p))"
proof -
  let ?is = "[0..cur_round p - 1]"
  have cur: "1 \<le> cur_round p" "cur_round p \<le> int (length (dag_image p))"
    using assms(1) by (auto simp: write_record_def bindR_Inr_iff vec_at_Inr_iff Let_def split: prod.splits)
  then have range: "\<forall>i \<in> set ?is. 0 \<le> i \<and> i < int (length (dag_image p))" by auto
  let ?c = "\<lambda>i. int (card (dag_image p ! nat i))"
  let ?m = "\<lambda>i. if ?c i < size_t (crowd p) then crowd p - ?c i else 0"
  have "?c i + ?m i = crowd p" if "i \<in> set ?is" for i
  proof -
    have "nat i < length (dag_image p)" using range that by auto
    then have "?c i \<le> crowd p" using assms(4) nth_mem by blast
    then show ?thesis using assms(2,3) by simp
  qed
  then have "(\<Sum>i\<leftarrow>?is. ?c i) + (\<Sum>i\<leftarrow>?is. ?m i) = (\<Sum>i\<leftarrow>?is. crowd p)"
    unfolding sum_list_addf [symmetric] by (intro arg_cong [of _ _ sum_list] map_cong) auto
  also have "\<dots> = crowd p * cur_round p"
    using cur(1) by (simp add: sum_list_triv)
  finally have sum: "(\<Sum>i\<leftarrow>?is. ?c i) + (\<Sum>i\<leftarrow>?is. ?m i) = crowd p * cur_round p" .
  have "vec_at (dag_image p) (cur_round p - 1) = Inr (dag_image p ! nat (cur_round p - 1))"
    using cur by (intro vec_at_ok) auto
  then have "r = \<lparr>r_round = cur_round p, r_total_vertices = \<Sum>i\<leftarrow>?is. ?c i, r_total_absent = \<Sum>i\<leftarrow>?is. ?m i,
      r_total_messages = cur_round p * (crowd p - 1) + requests_asked p * (2 * byzantines p + 1) + missing + answered,
      r_times_help = helped, r_on_round = int (card (dag_image p ! nat (cur_round p - 1))), r_help = help,
      r_answered = answered, r_missing = missing, r_broadcasts = cur_round p * (crowd p - 1),
      r_multicasts = requests_asked p * (2 * byzantines p + 1), r_failed = int (card (black_list p))\<rparr>"
    using assms(1) by (simp add: write_record_def write_record_loop [OF range] Let_def uset_size_def)
  then show ?thesis by (simp only: row.simps sum)
qed

theorem write_record_adds_up_witness:
  "\<exists>r. write_record 2 1 False 0 (demo_peer\<lparr>cur_round := 2, dag_image := [{''A'', ''B'', ''C''}, {''D''}]\<rparr>) = Inr r \<and>
     r_total_vertices r + r_total_absent r = 8 \<and> r_on_round r = 1"
proof -
  let ?p = "demo_peer\<lparr>cur_round := 2, dag_image := [{''A'', ''B'', ''C''}, {''D''}]\<rparr>"
  have "\<exists>r. write_record 2 1 False 0 ?p = Inr r"
    by (simp add: write_record_def demo_peer_def upto.simps vec_at_def Let_def)
  then obtain r where "write_record 2 1 False 0 ?p = Inr r" by blast
  from write_record_adds_up [OF this] this show ?thesis by (simp add: demo_peer_def)
qed

section \<open>The address file\<close>

text \<open>A line of the file: an address without white space, a blank, a port.\<close>

definition address_line :: "string \<times> int \<Rightarrow> string" where
  "address_line = (\<lambda>(ip, port). ip @ '' '' @ to_string port)"

definition good_address :: "string \<times> int \<Rightarrow> bool" where
  "good_address = (\<lambda>(ip, port). ip \<noteq> [] \<and> (\<forall>c \<in> set ip. \<not> isspace c) \<and> 0 \<le> port \<and> port < 2 ^ 31)"

lemma isdigit_dec_digits: "\<forall>c \<in> set (dec_digits n). isdigit c"
proof
  fix c assume "c \<in> set (dec_digits n)"
  then obtain d where "d < 10" "c = digit_char d" using set_dec_digits by blast
  then show "isdigit c" by (simp add: isdigit_def digit_char_def)
qed

lemma digit_no_space: "isdigit c \<Longrightarrow> \<not> isspace c \<and> c \<noteq> CHR ''-'' \<and> c \<noteq> CHR ''+''"
  by (auto simp: isdigit_def isspace_def)

lemma extract_int_to_string:
  assumes "0 \<le> n" and "n < 2 ^ 31"
  shows "extract_int (CHR '' '' # to_string n) = Some n"
proof -
  let ?s = "dec_digits (nat n)"
  have s: "to_string n = ?s" using assms(1) by (simp add: to_string_def)
  obtain c cs where c: "?s = c # cs" by (cases ?s) auto
  then have "isdigit c" using isdigit_dec_digits [of "nat n"] by simp
  then have hd: "\<not> isspace c" "c \<noteq> CHR ''-''" "c \<noteq> CHR ''+''" using digit_no_space by auto
  have "isspace CHR '' ''" by (simp add: isspace_def)
  then have drop: "dropWhile isspace (CHR '' '' # ?s) = ?s" using c hd(1) by simp
  have take: "takeWhile isdigit ?s = ?s"
    using isdigit_dec_digits by (simp add: takeWhile_eq_all_conv)
  have "hd ?s \<noteq> CHR ''-''" "hd ?s \<noteq> CHR ''+''" using c hd by simp_all
  then have "extract_int (CHR '' '' # ?s) = Some (max (- (2 ^ 31)) (min (2 ^ 31 - 1) (int (dec_value ?s))))"
    unfolding extract_int_def drop by (simp add: take Let_def)
  then show ?thesis using assms by (simp add: s dec_value_digits)
qed

lemma read_line_address: "good_address a \<Longrightarrow> read_line (address_line a) st = a"
proof -
  assume good: "good_address a"
  obtain ip port where a: "a = (ip, port)" by force
  with good have ip: "ip \<noteq> []" "\<forall>c \<in> set ip. \<not> isspace c" and port: "0 \<le> port" "port < 2 ^ 31"
    by (auto simp: good_address_def)
  have sp: "isspace CHR '' ''" by (simp add: isspace_def)
  have "dropWhile isspace (ip @ CHR '' '' # to_string port) = ip @ CHR '' '' # to_string port"
    using ip by (cases ip) auto
  moreover have "takeWhile (\<lambda>c. \<not> isspace c) (ip @ CHR '' '' # to_string port) = ip"
    and "dropWhile (\<lambda>c. \<not> isspace c) (ip @ CHR '' '' # to_string port) = CHR '' '' # to_string port"
    using ip sp by (simp_all add: takeWhile_append dropWhile_append)
  ultimately show ?thesis
    using ip(1) extract_int_to_string [OF port]
    by (simp add: a read_line_def extract_word_def address_line_def Let_def split: prod.split)
qed

text \<open>
  The address file round trip: of a file with one well-formed address and port in each line,
  \<open>setup_network\<close> reads exactly the entries whose port is not the own one, in the order of the
  file, whatever the indeterminate port before the first line is.
\<close>

theorem addresses_roundtrip:
  assumes "\<forall>a \<in> set as. good_address a"
  shows "read_addresses own (map address_line as) st = filter (\<lambda>(ip, port). port \<noteq> own) as"
  using assms by (induction "as" arbitrary: st) (auto simp: read_line_address Let_def)

theorem addresses_roundtrip_witness:
  "read_addresses 4999 (map address_line [(''127.0.0.1'', 4999), (''127.0.0.1'', 5000)]) ([], 0) = [(''127.0.0.1'', 5000)]"
  using addresses_roundtrip [of "[(''127.0.0.1'', 4999), (''127.0.0.1'', 5000)]" 4999 "([], 0)"]
  by (simp add: good_address_def isspace_def)

text \<open>
  An empty line is not skipped: neither extraction finds anything, so the address of the line
  before is taken once more, and the peer connects to it twice.
\<close>

theorem blank_line_repeats_address:
  assumes "good_address (ip, port)" and "port \<noteq> own"
  shows "read_addresses own [address_line (ip, port), []] st = [(ip, port), (ip, port)]"
  using read_line_address [OF assms(1)] assms(2)
  by (simp add: Let_def) (simp add: read_line_def extract_word_def)

theorem blank_line_repeats_address_witness:
  "read_addresses 4999 [address_line (''127.0.0.1'', 5000), []] ([], 0) = [(''127.0.0.1'', 5000), (''127.0.0.1'', 5000)]"
  using blank_line_repeats_address [of "''127.0.0.1''" 5000 4999 "([], 0)"]
  by (simp add: good_address_def isspace_def)

end
