(* ===== verification/Delivery.thy ===== *)
theory Delivery
  imports Progress Wave_Ops
begin

text \<open>
  From the queue of one validator to the vertex map of another: what a packet or a request does
  to the server that it arrives at. The network delivers the bytes of a connection in order; a
  message is seen by \<open>epoll\<close> when at least its length field has arrived, and the rest is waited
  for.
\<close>

section \<open>Packets\<close>

text \<open>The segments of a packet: the length field stands in the place of the first zeros.\<close>

fun packet_segments :: "vertex list \<Rightarrow> (string \<times> vertex) list" where
  "packet_segments [] = []"
| "packet_segments (v # vs) = (be_enc 4 (wire_length (v # vs)), v) # map (\<lambda>w. (replicate 4 NUL, w)) vs"

definition good_packet :: "vertex list \<Rightarrow> bool" where
  "good_packet vs \<longleftrightarrow> vs \<noteq> [] \<and> wire_length vs \<le> MAX_STREAM_SIZE \<and> (\<forall>p \<in> set (packet_segments vs). good_segment p)"

lemma segment_wire: "segment (replicate 4 NUL, w) = wire w"
  by (simp add: segment_def wire_def)

lemma concat_segments: "vs \<noteq> [] \<Longrightarrow> concat (map segment (packet_segments vs)) = packet_of vs"
proof (cases vs)
  case (Cons v vs')
  have "concat (map segment (map (\<lambda>w. (replicate 4 NUL, w)) vs')) = concat (map wire vs')"
    by (simp add: comp_def segment_wire)
  moreover have "drop 4 (concat (map wire (v # vs'))) = wire_body v @ replicate 4 DELIM @ concat (map wire vs')"
    by (simp add: wire_def)
  ultimately show ?thesis
    by (simp add: Cons packet_of_def Let_def segment_def wire_length_def comp_def)
qed simp

lemma snd_packet_segments: "map snd (packet_segments vs) = vs"
  by (cases vs) (simp_all add: comp_def)

lemma packet_received:
  assumes "good_packet vs" and "en \<noteq> Failing"
  shows "c_recvn en (packet_of vs @ rest) (wire_length vs) [] = Some (Inr (vs, rest))"
proof -
  have vs: "vs \<noteq> []" "packet_segments vs \<noteq> []" using assms by (cases vs; simp add: good_packet_def)+
  have eq: "concat (map segment (packet_segments vs)) = packet_of vs" by (rule concat_segments [OF vs(1)])
  have len: "length (packet_of vs) = wire_length vs" by (rule length_packet_of [OF vs(1)])
  from c_recvn_segments [of "packet_segments vs" en rest] vs assms show ?thesis
    by (simp add: eq len snd_packet_segments good_packet_def)
qed

text \<open>
  Packets that follow each other on a connection: the length is read from the first four bytes,
  as \<open>examine_msg\<close> does, then \<open>c_recvn\<close> takes the packet.
\<close>

definition read_packet :: "string \<Rightarrow> (vertex list \<times> string) res" where
  "read_packet s = (case c_recvn Still_Open s (be_dec (take 4 s)) [] of None \<Rightarrow> Inl Out_Of_Bounds | Some r \<Rightarrow> r)"

interpretation packet_codec: codec good_packet packet_of read_packet
proof unfold_locales
  fix vs rest
  assume good: "good_packet vs"
  then have len: "wire_length vs < 2 ^ 32" and vs: "vs \<noteq> []"
    by (auto simp: good_packet_def MAX_STREAM_SIZE_def)
  from vs have "take 4 (packet_of vs @ rest) = be_enc 4 (wire_length vs)"
    by (simp add: packet_of_def wire_length_def Let_def)
  with len packet_received [OF good, of Still_Open] show "read_packet (packet_of vs @ rest) = Inr (vs, rest)"
    by (simp add: read_packet_def be_dec_enc)
qed

lemma packets_in_order:
  assumes "\<forall>vs \<in> set ps. good_packet vs"
  shows "read_all read_packet (length ps) (concat (map packet_of ps) @ rest) = Inr (ps, rest)"
  using assms by (rule packet_codec.sequence)

lemma event_packet:
  assumes "good_packet vs" and "ev_events e AND EPOLLIN = EPOLLIN" and "ev_fd e \<noteq> s_socket s"
    and "ev_arrived e = Arrived n" and "4 \<le> n" and "net l (ev_fd e) = packet_of vs @ rest"
  shows "\<exists>bytes. handle_event C maj e (s, l) =
    Some (Inr (foldl (admit C maj) (s, l\<lparr>bytes_to_recv := bytes, net := (net l)(ev_fd e := rest)\<rparr>) vs))"
proof -
  have len: "wire_length vs < 2 ^ 24" and vs: "vs \<noteq> []"
    using assms(1) by (auto simp: good_packet_def MAX_STREAM_SIZE_def)
  then have "attach_length_to_msg (concat (map wire vs)) (wire_length vs) = Inr (packet_of vs)"
    by (intro attach_length_packet) auto
  moreover have "4 \<le> min n MAX_STREAM_SIZE" using assms(5) by (simp add: MAX_STREAM_SIZE_def)
  ultimately obtain bytes where
    "examine_msg (Some (take (min n MAX_STREAM_SIZE) (packet_of vs @ rest))) (bytes_to_recv l) = Inr (REG_MSG, bytes)"
    and "be_dec bytes = wire_length vs"
    using examine_msg_packet [of "concat (map wire vs)" "wire_length vs" "packet_of vs" "min n MAX_STREAM_SIZE"] len by blast
  then show ?thesis
    using assms packet_received [OF assms(1), of "conn_of (ev_arrived e) (ev_closed e)" rest]
    by (intro exI [of _ bytes]) (simp add: handle_event_def handle_vertices_def Let_def)
qed

lemma admit_fresh:
  assumes "admissible maj v" and "vertex_hash C v \<notin> dom (vertex_map s)"
  shows "admit C maj (s, l) v =
    (s\<lparr>vertex_map := (vertex_map s)(vertex_hash C v \<mapsto> v)\<rparr>, l\<lparr>temp_list := v # temp_list l\<rparr>)"
  using assms by (simp add: admit_def umap_insert_def domIff)

text \<open>One vertex in a packet of its own, at a server that does not know it yet.\<close>

lemma event_vertex:
  assumes "good_packet [v]" and "ev_events e AND EPOLLIN = EPOLLIN" and "ev_fd e \<noteq> s_socket s"
    and "ev_arrived e = Arrived n" and "4 \<le> n" and "net l (ev_fd e) = packet_of [v] @ rest"
    and "admissible maj v" and "vertex_hash C v \<notin> dom (vertex_map s)"
  shows "\<exists>l'. handle_event C maj e (s, l) =
      Some (Inr (s\<lparr>vertex_map := (vertex_map s)(vertex_hash C v \<mapsto> v)\<rparr>, l')) \<and>
    temp_list l' = v # temp_list l \<and> net l' (ev_fd e) = rest"
  using event_packet [OF assms(1-6), of C maj] admit_fresh [OF assms(7,8)] by auto

section \<open>Vertices of honest validators\<close>

lemma text_vertex_packet:
  assumes "text_vertex v" and "sendable v" and "clean (wire_header (be_enc 4 (length (wire v))) v)"
  shows "good_packet [v]"
  using assms framed_header_iff [OF assms(1), of "be_enc 4 (length (wire v))"]
  by (simp add: good_packet_def good_segment_def text_vertex_def sendable_def)

lemma next_vertex_text:
  assumes "dag_inv (crypt E) p ws" and "iter_ok (iter E)" and "crypto_ok (crypt E)" and "cur_round p < last_round p"
    and "0 < cur_round p \<Longrightarrow> card (dag_image p ! nat (cur_round p - 1)) \<le> 1023"
  shows "text_vertex (next_vertex E p)"
proof -
  let ?v = "next_vertex E p" and ?D = "dag_image p ! nat (cur_round p - 1)"
  have wf: "wf_peer p" using assms(1) by (simp add: dag_inv_def)
  have len: "int (length (dag_image p)) = cur_round p"
    using wf assms(4) by (simp add: wf_peer_def)
  have refs: "set (references ?v) \<subseteq> \<Union> (set (dag_image p)) \<and> length (references ?v) \<le> 1023"
  proof (cases "0 < cur_round p")
    case True
    then have k: "nat (cur_round p - 1) < length (dag_image p)" using len by linarith
    then have "finite ?D" using wf by (simp add: wf_peer_def)
    from iter_okD [OF assms(2) this] True k assms(5) show ?thesis
      by (force simp: next_vertex_def own_vertex_def nth_append)
  qed (use wf in \<open>simp add: next_vertex_def own_vertex_def wf_peer_def\<close>)
  have hash: "length h = HEX_HASH \<and> DELIM \<notin> set h" if "h \<in> \<Union> (set (dag_image p))" for h
  proof -
    from that assms(1) obtain w where "vertex_map (server p) h = Some w"
      by (force simp: dag_inv_def conserved_def)
    with assms(1) have "vertex_hash (crypt E) w = h" by (simp add: dag_inv_def keyed_def)
    then show ?thesis
      using length_hash_256 [OF assms(3)] DELIM_hash_256 [OF assms(3)] by (auto simp: vertex_hash_def)
  qed
  let ?r = "to_string (cur_round p + 1)" and ?i = "to_string (uint (own_id p))"
  have payload: "payload ?v = ?r @ ''-'' @ ?i"
    by (simp add: next_vertex_def own_vertex_def Vertex_def)
  have "1 \<le> length ?r" "1 \<le> length ?i"
    by (simp_all add: Suc_le_eq)
  moreover have "DELIM \<noteq> CHR ''-''" by (simp add: DELIM_def)
  moreover have "\<forall>r \<in> set (references ?v). length r = HEX_HASH \<and> DELIM \<notin> set r"
    using refs hash by blast
  ultimately show ?thesis
    using refs by (simp add: text_vertex_def hash_refs_def payload)
qed

lemma next_vertex_admissible:
  assumes "dag_inv (crypt E) p ws" and "iter_ok (iter E)" and "cur_round p < last_round p"
    and "0 < cur_round p \<Longrightarrow> majority (crowd p) \<le> int (card (dag_image p ! nat (cur_round p - 1)))"
  shows "admissible (majority (crowd p)) (next_vertex E p)"
proof (cases "0 < cur_round p")
  case True
  have wf: "wf_peer p" using assms(1) by (simp add: dag_inv_def)
  then have "int (length (dag_image p)) = cur_round p" using assms(3) by (simp add: wf_peer_def)
  then have k: "nat (cur_round p - 1) < length (dag_image p)" using True by linarith
  then have "finite (dag_image p ! nat (cur_round p - 1))" using wf by (simp add: wf_peer_def)
  from iter_okD(3) [OF assms(2) this] True k assms(4) show ?thesis
    by (simp add: admissible_def next_vertex_def own_vertex_def nth_append)
next
  case False
  then have "cur_round p = 0" using assms(1) by (simp add: dag_inv_def wf_peer_def)
  then show ?thesis by (simp add: admissible_def next_vertex_def own_vertex_def Vertex_def)
qed

section \<open>Requests\<close>

lemma event_request:
  assumes "length h = HEX_HASH" and "ev_events e AND EPOLLIN = EPOLLIN" and "ev_fd e \<noteq> s_socket s"
    and "ev_arrived e = Arrived n" and "1 \<le> n" and "net l (ev_fd e) = request_msg h pid @ rest"
  shows "handle_event C maj e (s, l) =
    Some (Inr (s, l\<lparr>net := (net l)(ev_fd e := rest),
      temp_request_list := (case vertex_map s h of Some v \<Rightarrow> (pid, v) # temp_request_list l | None \<Rightarrow> temp_request_list l)\<rparr>))"
proof -
  let ?en = "conn_of (ev_arrived e) (ev_closed e)"
  have "process_request ?en (request_msg h pid @ rest) = Some (Inr ((h, pid), rest))"
    using request_parse [OF assms(1), of ?en] assms(4) by simp
  then have request: "handle_request ?en (ev_fd e) (s, l) = Some (Inr (s, l\<lparr>net := (net l)(ev_fd e := rest),
      temp_request_list := (case vertex_map s h of Some v \<Rightarrow> (pid, v) # temp_request_list l | None \<Rightarrow> temp_request_list l)\<rparr>))"
    using assms(6) by (simp add: handle_request_Inr)
  obtain k where "min n MAX_STREAM_SIZE = Suc k"
    using assms(5) by (cases "min n MAX_STREAM_SIZE") (auto simp: MAX_STREAM_SIZE_def min_def split: if_splits)
  then have "examine_msg (Some (take (min n MAX_STREAM_SIZE) (request_msg h pid @ rest))) (bytes_to_recv l) = Inr (REQ_MSG, bytes_to_recv l)"
    by (simp add: examine_msg_def request_msg_def)
  with request assms show ?thesis
    by (simp add: handle_event_def Let_def)
qed

end
