(* ===== verification/Traffic.thy ===== *)
theory Traffic
  imports Delivery
begin

text \<open>
  What honest validators put on the wire, and what a server makes of a stream that carries
  nothing else: every message is taken off whole, and only vertices that were put on the wire
  are stored. The operations of a peer queue such messages and no others.
\<close>

section \<open>Headers without a delimiter pattern\<close>

text \<open>
  An id whose eight bytes are free of the delimiter, and rounds below 8960 (so that the third
  byte of a round is below the code of \<open>#\<close>), rule out a pattern in the binary header, whatever
  the length field of a packet that fits the buffer is.
\<close>

definition plain_id :: "u64 \<Rightarrow> bool" where
  "plain_id x \<longleftrightarrow> DELIM \<notin> set (be_enc 8 (unat x))"

definition honest :: "int \<Rightarrow> vertex \<Rightarrow> bool" where
  "honest final v \<longleftrightarrow> text_vertex v \<and> length (payload v) \<le> 31 \<and> length (references v) \<le> 398 \<and>
     distinct (references v) \<and> 1 \<le> sint (vround v) \<and> sint (vround v) \<le> final \<and> plain_id (peer_id v)"

lemma honest_sendable:
  assumes "honest final v"
  shows "length (wire v) \<le> 25535" and "sendable v"
proof -
  have refs: "hash_refs v" using assms by (simp add: honest_def text_vertex_def)
  from length_wire [OF this] show "length (wire v) \<le> 25535"
    using assms by (auto simp: honest_def HEX_HASH_def)
  with refs show "sendable v" by (simp add: sendable_def MAX_STREAM_SIZE_def)
qed

lemma char_of_DELIM: "char_of (k :: nat) = DELIM \<longleftrightarrow> k mod 256 = 35"
proof -
  have "(of_char DELIM :: nat) = 35" by (simp add: DELIM_def)
  then show ?thesis by (simp add: char_of_eq_iff take_bit_eq_mod)
qed

lemma be_enc_4: "be_enc 4 n = [char_of (n div 256 ^ 3), char_of (n div 256 ^ 2), char_of (n div 256), char_of n]"
proof -
  have "4 = Suc (Suc (Suc (Suc 0)))" by simp
  then have "be_enc 4 n = be_enc (Suc (Suc (Suc (Suc 0)))) n" by (rule arg_cong)
  also have "\<dots> = [char_of (n div 256 ^ 3), char_of (n div 256 ^ 2), char_of (n div 256 ^ 1), char_of (n div 256 ^ 0)]"
    by (simp only: be_enc_Suc_Cons be_enc.simps(1) numeral_2_eq_2 numeral_3_eq_3 One_nat_def)
  finally show ?thesis by simp
qed

text \<open>
  The id separates the rest of the header, so only the length field and the round can make a
  pattern between them; their leading bytes are too small for it.
\<close>

lemma header_clean:
  assumes "honest final v" and "final < 8960" and "n \<le> MAX_STREAM_SIZE"
  shows "clean (wire_header (be_enc 4 n) v)"
proof -
  let ?r = "unat (vround v)" and ?k = "length (payload v)"
  have sint: "0 \<le> sint (vround v)" "sint (vround v) < 8960"
    using assms(1,2) by (auto simp: honest_def)
  have "uint (vround v) = take_bit 32 (sint (vround v))" by (simp add: uint_sint)
  also have "\<dots> = sint (vround v)" using sint by (simp add: take_bit_int_eq_self)
  finally have r: "?r < 8960" using sint by (simp add: unat_eq_nat_uint nat_less_iff)
  have "NUL \<noteq> DELIM" by (simp add: NUL_def DELIM_def)
  moreover have "n div 256 ^ 3 = 0" "?r div 256 ^ 3 = 0" "?r div 256 ^ 2 = 0" "?k div 256 = 0"
    using assms(1,3) r by (simp_all add: MAX_STREAM_SIZE_def honest_def)
  moreover have "char_of (?r div 256) \<noteq> DELIM"
    using r by (simp add: char_of_DELIM)
  moreover have "?k div 256 ^ 3 = 0" "?k div 256 ^ 2 = 0" "char_of ?k \<noteq> DELIM"
    using assms(1) by (simp_all add: honest_def char_of_DELIM)
  ultimately have "clean (be_enc 4 n @ be_enc 4 ?r)" "clean (be_enc 4 ?k)"
    unfolding be_enc_4 by simp_all
  moreover have "DELIM \<notin> set (be_enc 8 (unat (peer_id v)))" "3 \<le> length (be_enc 8 (unat (peer_id v)))"
    using assms(1) by (simp_all add: honest_def plain_id_def)
  ultimately show ?thesis
    using clean_append_iff [of "be_enc 8 (unat (peer_id v))" "be_enc 4 n @ be_enc 4 ?r" "be_enc 4 ?k"]
    by (simp add: wire_header_def)
qed

lemma honest_segment:
  assumes "honest final v" and "final < 8960" and "n \<le> MAX_STREAM_SIZE"
  shows "good_segment (be_enc 4 n, v)"
  using assms header_clean [OF assms] framed_header_iff [of v]
  by (simp add: good_segment_def honest_def text_vertex_def)

lemma honest_packet:
  assumes "vs \<noteq> []" and "\<forall>v \<in> set vs. honest final v" and "final < 8960" and "wire_length vs \<le> MAX_STREAM_SIZE"
  shows "good_packet vs"
proof -
  have "good_segment p" if "p \<in> set (packet_segments vs)" for p
    using that assms honest_segment [OF _ assms(3), of _ "wire_length vs"] honest_segment [OF _ assms(3), of _ 0]
    by (cases vs) auto
  with assms(1,4) show ?thesis by (simp add: good_packet_def)
qed

section \<open>Streams of messages\<close>

text \<open>
  \<open>message G m\<close>: \<open>m\<close> is a packet of vertices from \<open>G\<close> that fits the receiver's buffer, or a
  request. \<open>stream G s\<close>: \<open>s\<close> is made of such messages.
\<close>

definition message :: "vertex set \<Rightarrow> string \<Rightarrow> bool" where
  "message G m \<longleftrightarrow>
     (\<exists>vs. vs \<noteq> [] \<and> set vs \<subseteq> G \<and> wire_length vs \<le> MAX_STREAM_SIZE \<and> m = packet_of vs) \<or>
     (\<exists>h pid. length h = HEX_HASH \<and> m = request_msg h pid)"

definition stream :: "vertex set \<Rightarrow> string \<Rightarrow> bool" where
  "stream G s \<longleftrightarrow> (\<exists>ms. s = concat ms \<and> (\<forall>m \<in> set ms. message G m))"

lemma message_packet [intro]:
  "vs \<noteq> [] \<Longrightarrow> set vs \<subseteq> G \<Longrightarrow> wire_length vs \<le> MAX_STREAM_SIZE \<Longrightarrow> message G (packet_of vs)"
  by (auto simp: message_def)

lemma message_request [intro]: "length h = HEX_HASH \<Longrightarrow> message G (request_msg h pid)"
  by (auto simp: message_def)

lemma message_mono: "message G m \<Longrightarrow> G \<subseteq> H \<Longrightarrow> message H m"
  unfolding message_def by blast

lemma stream_mono: "stream G s \<Longrightarrow> G \<subseteq> H \<Longrightarrow> stream H s"
  unfolding stream_def using message_mono by blast

lemma stream_Nil [simp, intro]: "stream G []"
  by (auto simp: stream_def intro: exI [of _ "[]"])

lemma stream_append: "stream G s \<Longrightarrow> message G m \<Longrightarrow> stream G (s @ m)"
proof -
  assume "stream G s" and m: "message G m"
  then obtain ms where "s = concat ms" "\<forall>m \<in> set ms. message G m" by (auto simp: stream_def)
  with m show ?thesis unfolding stream_def by (intro exI [of _ "ms @ [m]"]) auto
qed

lemma stream_cases:
  assumes "stream G s" and "s \<noteq> []"
  obtains (packet) vs rest where "vs \<noteq> []" "set vs \<subseteq> G" "wire_length vs \<le> MAX_STREAM_SIZE" "s = packet_of vs @ rest" "stream G rest"
  | (request) h pid rest where "length h = HEX_HASH" "s = request_msg h pid @ rest" "stream G rest"
proof -
  obtain ms' where ms': "s = concat ms'" "\<forall>m \<in> set ms'. message G m" using assms(1) by (auto simp: stream_def)
  with assms(2) obtain m ms where "ms' = m # ms" by (cases ms') auto
  with ms' have s: "s = m @ concat ms" "message G m" "stream G (concat ms)" by (auto simp: stream_def)
  from s(2) consider vs where "vs \<noteq> []" "set vs \<subseteq> G" "wire_length vs \<le> MAX_STREAM_SIZE" "m = packet_of vs"
    | h pid where "length h = HEX_HASH" "m = request_msg h pid"
    by (auto simp: message_def)
  then show thesis by cases (use s that in auto)
qed

text \<open>Vertices that go through the server of a node take their place among those that it knows.\<close>

lemma admit_within:
  assumes "foldl (admit C maj) (s, l) vs = (s', l')"
  shows "net l' = net l \<and> temp_request_list l' = temp_request_list l \<and>
    set (temp_list l') \<subseteq> set (temp_list l) \<union> set vs \<and>
    ran (vertex_map s') \<subseteq> ran (vertex_map s) \<union> set vs \<and> s_socket s' = s_socket s"
  using assms
proof (induction vs arbitrary: s l)
  case (Cons v vs)
  obtain s1 l1 where one: "admit C maj (s, l) v = (s1, l1)" by force
  then have "net l1 = net l \<and> temp_request_list l1 = temp_request_list l \<and>
      set (temp_list l1) \<subseteq> insert v (set (temp_list l)) \<and>
      ran (vertex_map s1) \<subseteq> insert v (ran (vertex_map s)) \<and> s_socket s1 = s_socket s"
    by (auto simp: admit_def umap_insert_def ran_def split: if_splits option.splits)
  moreover have "foldl (admit C maj) (s1, l1) vs = (s', l')" using Cons.prems one by simp
  ultimately show ?case using Cons.IH [of s1 l1] by (simp, blast)
qed simp

section \<open>What an event makes of a stream\<close>

text \<open>What a server holds and what is on its way to it come from \<open>G\<close>.\<close>

definition fed :: "vertex set \<Rightarrow> server_state \<Rightarrow> bool" where
  "fed G = (\<lambda>(s, l). ran (vertex_map s) \<subseteq> G \<and> set (temp_list l) \<subseteq> G \<and> (\<forall>r \<in> set (temp_request_list l). snd r \<in> G) \<and>
     (\<forall>fd. stream G (net l fd)))"

lemma fed_mono: "fed G st \<Longrightarrow> G \<subseteq> H \<Longrightarrow> fed H st"
  by (cases st) (auto simp: fed_def intro: stream_mono)

text \<open>The peek of an event does not see a part of a length field.\<close>

definition whole :: "epoll_event \<Rightarrow> bool" where
  "whole e \<longleftrightarrow> (\<forall>k. ev_arrived e = Arrived k \<longrightarrow> k = 0 \<or> 4 \<le> k)"

lemma event_takes_message:
  assumes "stream G (net l (ev_fd e))" and "net l (ev_fd e) \<noteq> []"
    and "\<forall>v \<in> G. honest final v" and "final < 8960"
    and "ev_events e AND EPOLLIN = EPOLLIN" and "ev_fd e \<noteq> s_socket s"
    and "ev_arrived e = Arrived k" and "4 \<le> k"
  obtains (packet) vs rest bytes where "vs \<noteq> []" "set vs \<subseteq> G" "stream G rest" "net l (ev_fd e) = packet_of vs @ rest"
      "handle_event C maj e (s, l) =
        Some (Inr (foldl (admit C maj) (s, l\<lparr>bytes_to_recv := bytes, net := (net l)(ev_fd e := rest)\<rparr>) vs))"
  | (request) h pid rest where "length h = HEX_HASH" "stream G rest" "net l (ev_fd e) = request_msg h pid @ rest"
      "handle_event C maj e (s, l) = Some (Inr (s, l\<lparr>net := (net l)(ev_fd e := rest),
        temp_request_list := (case vertex_map s h of Some v \<Rightarrow> (pid, v) # temp_request_list l | None \<Rightarrow> temp_request_list l)\<rparr>))"
  using assms(1,2)
proof (cases rule: stream_cases)
  case (packet vs rest)
  then have "good_packet vs"
    using assms(3,4) by (intro honest_packet) auto
  from event_packet [OF this assms(5-8) packet(4), of C maj] that(1) [of vs rest] packet show thesis
    by blast
next
  case (request h pid rest)
  have "1 \<le> k" using assms(8) by simp
  from that(2) [OF request(1,3,2) event_request [OF request(1) assms(5-7) this request(2)]] show thesis .
qed

lemma event_fed:
  assumes "handle_event C maj e (s, l) = Some (Inr st')" and "fed G (s, l)" and "whole e"
    and "\<forall>v \<in> G. honest final v" and "final < 8960"
  shows "fed G st'"
proof (cases "ev_events e AND EPOLLIN = EPOLLIN \<and> ev_fd e \<noteq> s_socket s \<and> (\<exists>k. ev_arrived e = Arrived k \<and> 4 \<le> k) \<and>
    net l (ev_fd e) \<noteq> []")
  case True
  then obtain k where k: "ev_arrived e = Arrived k" "4 \<le> k" by auto
  have str: "stream G (net l (ev_fd e))" "\<forall>fd. stream G (net l fd)" using assms(2) by (auto simp: fed_def)
  from str(1) show ?thesis
  proof (rule event_takes_message [OF _ _ assms(4,5) _ _ k])
    fix vs rest bytes
    assume vs: "set vs \<subseteq> G" "stream G rest" and event: "handle_event C maj e (s, l) =
        Some (Inr (foldl (admit C maj) (s, l\<lparr>bytes_to_recv := bytes, net := (net l)(ev_fd e := rest)\<rparr>) vs))"
    obtain s' l' where st': "st' = (s', l')" by force
    with event assms(1) have "foldl (admit C maj) (s, l\<lparr>bytes_to_recv := bytes, net := (net l)(ev_fd e := rest)\<rparr>) vs = (s', l')"
      by simp
    note within = admit_within [OF this]
    have "ran (vertex_map s') \<subseteq> G" "set (temp_list l') \<subseteq> G"
      using within vs(1) assms(2) by (auto simp: fed_def)
    with within vs(2) assms(2) show ?thesis by (simp add: st' fed_def)
  next
    fix h pid rest
    assume rest: "stream G rest" and "handle_event C maj e (s, l) = Some (Inr (s, l\<lparr>net := (net l)(ev_fd e := rest),
        temp_request_list := (case vertex_map s h of Some v \<Rightarrow> (pid, v) # temp_request_list l | None \<Rightarrow> temp_request_list l)\<rparr>))"
    with assms(1) have st': "st' = (s, l\<lparr>net := (net l)(ev_fd e := rest),
        temp_request_list := (case vertex_map s h of Some v \<Rightarrow> (pid, v) # temp_request_list l | None \<Rightarrow> temp_request_list l)\<rparr>)"
      by simp
    have "v \<in> G" if "vertex_map s h = Some v" for v
      using ranI [of "vertex_map s" h v] that assms(2) by (simp add: fed_def subset_iff)
    with assms(2) rest show ?thesis
      unfolding st' by (cases "vertex_map s h") (simp_all add: fed_def)
  qed (use True in auto)
next
  case False
  obtain s' l' where st': "st' = (s', l')" by force
  have "net l' = net l \<and> temp_list l' = temp_list l \<and> temp_request_list l' = temp_request_list l \<and> s' = s"
  proof (cases "ev_events e AND EPOLLIN = EPOLLIN \<and> ev_fd e \<noteq> s_socket s")
    case True
    have "peeked (ev_arrived e) (net l (ev_fd e)) = Some []"
    proof (cases "ev_arrived e")
      case (Arrived k)
      with False True assms(3) show ?thesis by (auto simp: whole_def)
    qed (use True assms(1) in \<open>auto simp: handle_event_def handle_request_def handle_vertices_def examine_msg_def Let_def split: if_splits\<close>)
    with True assms(1) show ?thesis
      by (auto simp: st' handle_event_def examine_msg_def bindR_Inr_iff Let_def split: if_splits)
  next
    case False
    with assms(1) show ?thesis
      by (auto simp: st' handle_event_def bindR_Inr_iff Let_def split: if_splits)
  qed
  with assms(2) show ?thesis by (simp add: st' fed_def)
qed

end
