(* ===== verification/Outbox.thy ===== *)
theory Outbox
  imports Traffic
begin

text \<open>
  What a peer queues for its workers: packets of vertices that it holds, and requests. Each
  operation that sends is taken once; the others leave the pool alone.
\<close>

section \<open>Tasks that carry messages\<close>

fun carries :: "vertex set \<Rightarrow> task \<Rightarrow> bool" where
  "carries G (Sendn fd m) = message G m"

text \<open>\<open>posted G p q\<close>: from \<open>p\<close> to \<open>q\<close> only tasks that carry messages have been queued.\<close>

definition posted :: "vertex set \<Rightarrow> peer \<Rightarrow> peer \<Rightarrow> bool" where
  "posted G p q \<longleftrightarrow> workers (pool q) = workers (pool p) \<and>
     (\<exists>ts. task_queue (pool q) = task_queue (pool p) @ ts \<and> (\<forall>t \<in> set ts. carries G t))"

text \<open>All tasks of a pool, queued or running, carry messages.\<close>

definition outbox :: "vertex set \<Rightarrow> task pool \<Rightarrow> bool" where
  "outbox G pl \<longleftrightarrow> (\<forall>t \<in> set (task_queue pl). carries G t) \<and> (\<forall>t. Running t \<in> set (workers pl) \<longrightarrow> carries G t)"

lemma carries_mono: "carries G t \<Longrightarrow> G \<subseteq> H \<Longrightarrow> carries H t"
  by (cases t) (auto intro: message_mono)

lemma outbox_mono: "outbox G pl \<Longrightarrow> G \<subseteq> H \<Longrightarrow> outbox H pl"
  unfolding outbox_def using carries_mono by blast

lemma outbox_posted: "outbox G (pool p) \<Longrightarrow> posted G p q \<Longrightarrow> outbox G (pool q)"
  by (auto simp: outbox_def posted_def)

lemma posted_same: "pool q = pool p \<Longrightarrow> posted G p q"
  by (simp add: posted_def)

lemma posted_trans: "posted G p q \<Longrightarrow> posted G q r \<Longrightarrow> posted G p r"
  by (auto simp: posted_def)

lemma posted_mono: "posted G p q \<Longrightarrow> G \<subseteq> H \<Longrightarrow> posted H p q"
  unfolding posted_def using carries_mono by blast

lemma foldR_posted:
  assumes "foldR f xs p = Inr q" and "\<And>x p q. x \<in> set xs \<Longrightarrow> f x p = Inr q \<Longrightarrow> posted G p q"
  shows "posted G p q"
  using assms(1)
proof (rule foldR_inv [where I = "posted G p"])
  fix x s t
  assume "x \<in> set xs" "posted G p s" "f x s = Inr t"
  then show "posted G p t" using assms(2) posted_trans by blast
qed (simp add: posted_same)

lemma posted_send: "message G m \<Longrightarrow> posted G p (enqueue_send fd m p)"
  by (simp add: posted_def enqueue_send_def enqueue_def)

lemma posted_sends:
  "\<forall>x \<in> set xs. message G (g x) \<Longrightarrow> posted G p (foldl (\<lambda>p x. enqueue_send (f x) (g x) p) p xs)"
proof (induction xs arbitrary: p)
  case (Cons x xs)
  then have "posted G p (enqueue_send (f x) (g x) p)" by (intro posted_send) simp
  with Cons show ?case by (auto intro: posted_trans)
qed (simp add: posted_same)

lemma posted_lookup: "lookup_socket pid p = (s, q) \<Longrightarrow> posted G p q"
  by (rule posted_same) (auto simp: lookup_socket_def split: prod.splits)

section \<open>The operations that send\<close>

lemma broadcast_posted:
  assumes "broadcast m p = Inr q" and "message G m"
  shows "posted G p q"
  using assms by (auto simp: broadcast_eq posted_def Let_def split: if_splits)

text \<open>A packet ends with its first vertex beyond 40000 bytes, so it fits the receiver's buffer.\<close>

lemma packet_fits:
  assumes "g \<noteq> []" and "wire_length (butlast g) < 40000" and "\<forall>v \<in> set g. honest final v"
  shows "wire_length g \<le> MAX_STREAM_SIZE"
proof -
  have "wire_length g = wire_length (butlast g @ [last g])" using assms(1) by simp
  then have "wire_length g = wire_length (butlast g) + length (wire (last g))" by (simp del: append_butlast_last_id)
  moreover have "length (wire (last g)) \<le> 25535"
    using honest_sendable(1) assms(1,3) last_in_set by blast
  ultimately show ?thesis using assms(2) by (simp add: MAX_STREAM_SIZE_def)
qed

lemma message_one: "v \<in> G \<Longrightarrow> honest final v \<Longrightarrow> message G (packet_of [v])"
  using packet_fits [of "[v]"] by (intro message_packet) auto

lemma deliver_posted:
  assumes "deliver_request r p = Inr q" and "snd r \<in> G" and "honest final (snd r)"
  shows "posted G p q"
proof -
  obtain pid v where r: "r = (pid, v)" by force
  obtain s p' where look: "lookup_socket pid p = (s, p')" by force
  have "q = enqueue_send s (packet_of [v]) p'"
    using assms deliver_request_spec [OF honest_sendable(2)] by (simp add: r look)
  moreover have "message G (packet_of [v])" using message_one assms(2,3) by (auto simp: r)
  ultimately show ?thesis
    using posted_trans [OF posted_lookup [OF look] posted_send] by simp
qed

lemma send_missing_posted:
  assumes "send_missing_vertices E fd S p = Inr q" and "iter_ok (iter E)" and "finite S"
    and "S \<subseteq> dom (vertex_map (server p))" and "ran (vertex_map (server p)) \<subseteq> G" and "\<forall>v \<in> G. honest final v"
  shows "posted G p q"
proof -
  let ?m = "vertex_map (server p)" and ?hs = "iter E S"
  have S: "\<exists>v. ?m h = Some v \<and> v \<in> G" if "h \<in> set ?hs" for h
    using that iter_okD(2) [OF assms(2,3)] assms(4,5) by (blast intro: ranI)
  then have "\<forall>h \<in> set ?hs. \<exists>v. ?m h = Some v \<and> sendable v"
    using assms(6) honest_sendable(2) by blast
  from missing_packets_ok [OF this] obtain groups where groups:
    "missing_packets (server p) ?hs (junk E) = Inr (map packet_of groups)"
    "concat groups = map (\<lambda>h. the (?m h)) ?hs" "\<forall>g \<in> set groups. g \<noteq> [] \<and> wire_length (butlast g) < 40000"
    by blast
  have "set (concat groups) \<subseteq> G" using S by (fastforce simp: groups(2))
  then have "set g \<subseteq> G" if "g \<in> set groups" for g using that by auto
  then have "\<forall>g \<in> set groups. message G (packet_of g)"
    using groups(3) assms(6) by (blast intro: packet_fits)
  then have "posted G p (foldl (\<lambda>p m. enqueue_send fd m p) p (map packet_of groups))"
    by (intro posted_sends) simp
  with assms(1) groups(1) show ?thesis by (simp add: send_missing_vertices_def)
qed

lemma make_request_posted:
  assumes "make_request E h owner p = Inr q" and "length h = HEX_HASH"
  shows "posted G p q"
proof -
  obtain sends freed where sends: "request_sends (byzantines p) (shuffle E (requests_asked p) (c_sockets (client p))) owner = Inr (sends, freed)"
    using assms(1)
    by (cases "request_sends (byzantines p) (shuffle E (requests_asked p) (c_sockets (client p))) owner")
      (auto simp: make_request_def Let_def bindR_Inr_iff split: if_splits)
  from make_request_eq [OF assms(2) sends] assms show ?thesis
    by (auto simp: posted_def)
qed

lemma check_round_posted:
  assumes "check_round E r p = Inr q" and "crypto_ok (crypt E)"
  shows "posted G p q"
  using assms(1) unfolding check_round_def
proof (rule foldR_posted)
  fix j p q
  assume "bindR (get_peer_id_at j (client p)) (\<lambda>peerID.
       if \<not> uset_find peerID (black_list p) then
         (let hash = hash_256 (crypt E) (to_string (r + 1) @ to_string (uint peerID)) in
          if \<not> fst (find_in_map hash None (server p)) then
            (case lookup_socket peerID p of (socket, p') \<Rightarrow> make_request E hash socket p')
          else Inr p)
       else Inr p) = Inr q"
  then show "posted G p q"
    by (auto simp: bindR_Inr_iff Let_def posted_same split: if_splits prod.splits
        intro: posted_trans [OF posted_lookup make_request_posted] length_hash_256 [OF assms(2)])
qed

section \<open>The wave and the proposal\<close>

lemma foldR_pool:
  assumes "foldR f xs p = Inr q" and "\<And>x p q. x \<in> set xs \<Longrightarrow> f x p = Inr q \<Longrightarrow> pool q = pool p"
  shows "pool q = pool p"
  using assms(1) by (rule foldR_inv [where I = "\<lambda>r. pool r = pool p"]) (auto dest: assms(2))

lemma dag_scan_pool: "dag_scan e s p = Inr q \<Longrightarrow> pool q = pool p"
  unfolding dag_scan_def Let_def
  by (erule foldR_pool) (auto simp: bindR_Inr_iff split: if_splits)

lemma blame_pool: "blame pid p = Inr q \<Longrightarrow> pool q = pool p"
  by (auto simp: blame_def lookup_socket_def bindR_Inr_iff split: prod.splits)

lemma total_order_pool: "total_order E e s p = Inr q \<Longrightarrow> pool q = pool p"
  unfolding total_order_def
proof (erule foldR_pool)
  fix i p q
  let ?body = "\<lambda>D j p. bindR (get_peer_id_at j (client p)) (\<lambda>peerID.
    let hash = hash_256 (crypt E) (to_string (i + 1) @ to_string (uint peerID)) in
    if hash \<notin> D then blame peerID p else Inr p)"
  assume "bindR (vec_at (dag_image p) i) (\<lambda>D. if int (card D) < size_t (crowd p)
    then foldR (?body D) [0..crowd p - 2] p else Inr p) = Inr q"
  moreover have "pool t = pool s" if "?body D j s = Inr t" for D j s t
    using that by (auto simp: bindR_Inr_iff Let_def split: if_splits intro: blame_pool)
  then have "pool q = pool p" if "foldR (?body D) xs p = Inr q" for D xs
    using foldR_pool [OF that] by blast
  ultimately show "pool q = pool p"
    by (auto simp: bindR_Inr_iff split: if_splits)
qed

lemma wave_work_pool: "wave_work E p = Inr q \<Longrightarrow> pool q = pool p"
  by (auto simp: wave_work_def Let_def split: if_splits intro: dag_scan_pool total_order_pool)

lemma propose_posted:
  assumes "propose E p = Inr q" and "int (length (dag_image p)) = cur_round p - 1" and "1 \<le> cur_round p"
    and "own_vertex E (p\<lparr>dag_image := dag_image p @ [{}]\<rparr>) \<in> G"
    and "honest final (own_vertex E (p\<lparr>dag_image := dag_image p @ [{}]\<rparr>))"
  shows "posted G p q"
proof -
  let ?p1 = "p\<lparr>dag_image := dag_image p @ [{}]\<rparr>"
  let ?v = "own_vertex E ?p1"
  have send: "sendable ?v" by (rule honest_sendable(2) [OF assms(5)])
  have "make_vertex E ?p1 = Inr ?v"
    using assms(2,3) by (intro make_vertex_eq) auto
  moreover have "attach_length_to_msg (wire ?v) (length (wire ?v)) = Inr (packet_of [?v])"
    using attach_length_packet [of "[?v]"] send
    by (simp add: wire_length_def sendable_def MAX_STREAM_SIZE_def)
  ultimately obtain r where "pool r = pool p" "broadcast (packet_of [?v]) r = Inr q"
    using assms(1) send
    by (auto simp: propose_def Let_def bindR_Inr_iff serialize_sendable) (erule that [rotated], simp)
  with broadcast_posted [OF this(2) message_one [OF assms(4,5)]] show ?thesis
    by (auto intro: posted_trans posted_same)
qed

section \<open>What a peer holds\<close>

text \<open>
  Every hash in the DAG is the one of a vertex from \<open>G\<close> of that round; the vertices of a peer
  are from \<open>G\<close>, and what it found missing at others it has itself.
\<close>

definition filed :: "crypto \<Rightarrow> vertex set \<Rightarrow> string set list \<Rightarrow> bool" where
  "filed C G D \<longleftrightarrow> (\<forall>k < length D. \<forall>h \<in> D ! k. \<exists>v \<in> G. vertex_hash C v = h \<and> sint (vround v) = int k + 1)"

definition stocked :: "crypto \<Rightarrow> vertex set \<Rightarrow> peer \<Rightarrow> scan_vars \<Rightarrow> bool" where
  "stocked C G p l \<longleftrightarrow> ran (vertex_map (server p)) \<subseteq> G \<and> set (buffer p) \<subseteq> G \<and> (\<forall>r \<in> set (requests p). snd r \<in> G) \<and>
     outbox G (pool p) \<and> filed C G (dag_image p) \<and>
     finite (missing_set l) \<and> missing_set l \<subseteq> dom (vertex_map (server p))"

lemma filed_mono: "filed C G D \<Longrightarrow> G \<subseteq> H \<Longrightarrow> filed C H D"
  unfolding filed_def by blast

lemma stocked_mono: "stocked C G p l \<Longrightarrow> G \<subseteq> H \<Longrightarrow> stocked C H p l"
  unfolding stocked_def using outbox_mono filed_mono by blast

lemma filed_insert: "filed C G D \<Longrightarrow> v \<in> G \<Longrightarrow> sint (vround v) = int k + 1 \<Longrightarrow>
    filed C G (D[k := insert (vertex_hash C v) (D ! k)])"
  by (cases "k < length D") (auto simp: filed_def nth_list_update split: if_splits)

lemma filed_append: "filed C G D \<Longrightarrow> v \<in> G \<Longrightarrow> sint (vround v) = int (length D) + 1 \<Longrightarrow>
    filed C G (D @ [{vertex_hash C v}])"
  unfolding filed_def by (auto simp: nth_append less_Suc_eq)

lemma stocked_posted: "stocked C G p l \<Longrightarrow> same_core p q \<Longrightarrow> posted G p q \<Longrightarrow> stocked C G q l"
  by (auto simp: stocked_def same_core_def intro: outbox_posted)

lemma stocked_grow: "stocked C G p l \<Longrightarrow> joins p k v \<Longrightarrow> v \<in> G \<Longrightarrow> stocked C G (grow_dag k (vertex_hash C v) p) l"
  by (simp add: stocked_def grow_dag_def joins_def filed_insert)

lemma requests_stocked:
  assumes "foldR deliver_request (requests p) p = Inr q" and "stocked C G p l" and "\<forall>v \<in> G. honest final v"
  shows "stocked C G (q\<lparr>requests := []\<rparr>) l"
proof -
  have "\<forall>r \<in> set (requests p). snd r \<in> G" using assms(2) by (simp add: stocked_def)
  then have "posted G p q"
    using assms(3) by (intro foldR_posted [OF assms(1)]) (auto intro: deliver_posted)
  with stocked_posted [OF assms(2) requests_core [OF assms(1)]] have "stocked C G q l" .
  then show ?thesis by (simp add: stocked_def)
qed

lemma offer_stocked:
  assumes "offer_missing E v (p, l) = Inr (q, l')" and "stocked C G p l" and "iter_ok (iter E)" and "\<forall>v \<in> G. honest final v"
  shows "stocked C G q l'"
proof (cases "missing_set l \<noteq> {} \<and> coin E (draws l) \<le> 60")
  case True
  obtain fd p1 where look: "lookup_socket (peer_id v) p = (fd, p1)" by force
  with True assms(1) obtain l' where send: "send_missing_vertices E fd (missing_set l) p1 = Inr q"
    and l': "l' = l\<lparr>draws := draws l + 1, missing_vertices := missing_vertices l + 1, missing_set := {}\<rparr>"
    by (auto simp: offer_missing_def Let_def bindR_Inr_iff)
  have "server p1 = server p" using same_core_lookup [OF look] by (simp add: same_core_def)
  then have "posted G p1 q"
    using assms(2) by (intro send_missing_posted [OF send assms(3) _ _ _ assms(4)]) (auto simp: stocked_def)
  then have "posted G p q" by (rule posted_trans [OF posted_lookup [OF look]])
  moreover have "same_core p q" using offer_missing_core [OF assms(1)] by simp
  ultimately have "stocked C G q l" by (rule stocked_posted [OF assms(2) _ , rotated])
  with True assms(1) look send show ?thesis
    by (auto simp: offer_missing_def Let_def bindR_Inr_iff stocked_def)
next
  case False
  with assms(1,2) show ?thesis
    by (auto simp: offer_missing_def Let_def stocked_def split: if_splits)
qed

lemma history_stocked:
  assumes "(if sint (vround v) = 1 then Inr (True, missing_set l) else mutual_history (sint (vround v)) (references v) p) = Inr (ok, S)"
    and "dag_inv C p ws" and "stocked C G p l"
  shows "stocked C G p (l\<lparr>missing_set := S\<rparr>)"
proof -
  have S: "finite S \<and> S \<subseteq> dom (vertex_map (server p))"
  proof (cases "sint (vround v) = 1")
    case True
    with assms(1,3) show ?thesis by (simp add: stocked_def)
  next
    case False
    define D where "D = dag_image p ! nat (sint (vround v) - 2)"
    have S: "S = {} \<or> S = D - set (references v)" and "D \<in> set (dag_image p)"
      using assms(1) False
      by (auto simp: mutual_history_eq Let_def D_def split: if_split_asm intro!: nth_mem)
    then have "finite D" "D \<subseteq> dom (vertex_map (server p))"
      using assms(2) by (auto simp: dag_inv_def wf_peer_def conserved_def)
    with S show ?thesis by auto
  qed
  with assms(3) show ?thesis by (simp add: stocked_def)
qed

lemma scan_one_stocked:
  assumes "scan_one E v (p, l) = Inr (keep, q, l')" and "stocked (crypt E) G p l" and "dag_inv (crypt E) p ws" and "v \<in> G"
    and "iter_ok (iter E)" and "\<forall>v \<in> G. honest final v"
  shows "stocked (crypt E) G q l'"
proof (cases "sint (vround v) \<le> cur_round p")
  case False
  with assms(1,2) show ?thesis by (simp add: scan_one_def Let_def)
next
  case True
  let ?r = "sint (vround v)"
  let ?hist = "if ?r = 1 then Inr (True, missing_set l) else mutual_history ?r (references v) p"
  obtain ok S where hist: "?hist = Inr (ok, S)"
    using assms(1) True by (cases ?hist) (auto simp: scan_one_def Let_def)
  note found = history_stocked [OF hist assms(3,2)]
  from assms(1) show ?thesis
  proof (cases rule: scan_one_cases)
    case 1
    with assms(1) True hist have "q = p" "l' = l\<lparr>missing_set := S\<rparr>"
      by (auto simp: scan_one_def Let_def bindR_Inr_iff split: if_splits)
    with found show ?thesis by simp
  next
    case (2 k r)
    with assms(1) True hist obtain r' D where offer: "offer_missing E v (p, l\<lparr>missing_set := S\<rparr>) = Inr (r', l')"
      and "vec_at (dag_image r') (?r - 1) = Inr D"
      and q: "q = r'\<lparr>dag_image := (dag_image r')[nat (?r - 1) := insert (vertex_hash (crypt E) v) D]\<rparr>"
      by (auto simp: scan_one_def Let_def bindR_Inr_iff split: if_splits)
    then have "q = grow_dag k (vertex_hash (crypt E) v) r'"
      using 2(2) by (simp add: grow_dag_def vec_at_Inr_iff joins_def)
    moreover have "joins r' k v"
      using 2(2) offer_missing_core [OF offer] by (simp add: joins_def same_core_def)
    ultimately show ?thesis
      using stocked_grow [OF offer_stocked [OF offer found assms(5,6)] _ assms(4)] by simp
  qed
qed

lemma scan_buffer_stocked:
  assumes "scan_buffer E vs (p, l) = Inr (kept, q, l')" and "stocked (crypt E) G p l"
    and "dag_inv (crypt E) p (pre @ vs @ post)" and "set vs \<subseteq> G"
    and "iter_ok (iter E)" and "\<forall>v \<in> G. honest final v"
  shows "stocked (crypt E) G q l' \<and> set kept \<subseteq> set vs"
  using assms(1-4)
proof (induction vs arbitrary: pre p l kept)
  case Nil
  then show ?case by simp
next
  case (Cons v vs)
  from Cons.prems(1) obtain keep p' l2 kept' where one: "scan_one E v (p, l) = Inr (keep, p', l2)"
    and rest: "scan_buffer E vs (p', l2) = Inr (kept', q, l')" and kept: "kept = (if keep then v # kept' else kept')"
    by (auto simp: bindR_Inr_iff)
  from one have single: "scan_buffer E [v] (p, l) = Inr (if keep then [v] else [], p', l2)" by simp
  have "dag_inv (crypt E) p' ((pre @ (if keep then [v] else [])) @ vs @ post)"
    using scan_buffer_inv [OF single, of pre "vs @ post"] Cons.prems(3) by simp
  moreover have "stocked (crypt E) G p' l2"
    using scan_one_stocked [OF one Cons.prems(2,3) _ assms(5,6)] Cons.prems(4) by simp
  ultimately have "stocked (crypt E) G q l' \<and> set kept' \<subseteq> set vs"
    using Cons.IH [OF rest, of "pre @ (if keep then [v] else [])"] Cons.prems(4) by simp
  with kept show ?case by auto
qed

lemma after_wait_stocked:
  assumes "after_wait E due (p, l) = Inr (left, q, l')" and "stocked (crypt E) G p l"
    and "dag_inv (crypt E) p (buffer p @ ts)" and "iter_ok (iter E)" and "\<forall>v \<in> G. honest final v"
  shows "stocked (crypt E) G q l'"
proof -
  obtain p0 where requests: "foldR deliver_request (requests p) p = Inr p0"
    using assms(1) by (auto simp: after_wait_def process_requests_def bindR_Inr_iff)
  define p1 l1 where "p1 = p0\<lparr>requests := []\<rparr>" and "l1 = l\<lparr>requests_answered := requests_answered l + int (length (requests p))\<rparr>"
  have "process_requests (p, l) = Inr (p1, l1)"
    using requests by (simp add: process_requests_def p1_def l1_def)
  then obtain kept p2 l2 where scan: "scan_buffer E (buffer p1) (p1, l1) = Inr (kept, p2, l2)"
    and q: "(q = p2\<lparr>buffer := kept\<rparr> \<or> q = p2\<lparr>buffer := kept, server := set_thread_ready True ((server p2)\<lparr>is_up := False\<rparr>)\<rparr>) \<and>
      missing_set l' = missing_set l2"
    using assms(1) by (auto simp: after_wait_def bindR_Inr_iff Let_def split: if_splits)
  have core: "same_core p p0" by (rule requests_core [OF requests])
  have "stocked (crypt E) G p1 l"
    unfolding p1_def by (rule requests_stocked [OF requests assms(2,5)])
  then have stocked: "stocked (crypt E) G p1 l1" by (simp add: l1_def stocked_def)
  moreover have "dag_inv (crypt E) p1 ([] @ buffer p1 @ ts)"
    using dag_inv_core [OF core assms(3)] core unfolding p1_def
    by (auto intro: dag_inv_same [rotated -1] simp: same_core_def)
  moreover have "set (buffer p1) \<subseteq> G" using stocked by (simp add: stocked_def)
  ultimately have "stocked (crypt E) G p2 l2 \<and> set kept \<subseteq> set (buffer p1)"
    using scan_buffer_stocked [OF scan _ _ _ assms(4,5)] by blast
  with q \<open>set (buffer p1) \<subseteq> G\<close> show ?thesis by (auto simp: stocked_def set_thread_ready_def)
qed

section \<open>A new vertex\<close>

lemma next_vertex_sel:
  assumes "wf_peer p" and "cur_round p < last_round p"
  shows "sint (vround (next_vertex E p)) = cur_round p + 1" and "peer_id (next_vertex E p) = own_id p"
    and "vertex_hash C (next_vertex E p) = own_key C p (cur_round p + 1)"
proof -
  let ?p = "p\<lparr>cur_round := cur_round p + 1, dag_image := dag_image p @ [{}]\<rparr>"
  have "0 \<le> cur_round ?p" "cur_round ?p < 2 ^ 31" using assms by (auto simp: wf_peer_def)
  from own_vertex_sel [OF this] show "sint (vround (next_vertex E p)) = cur_round p + 1"
    and "vertex_hash C (next_vertex E p) = own_key C p (cur_round p + 1)"
    by (simp_all add: next_vertex_def own_key_def)
  show "peer_id (next_vertex E p) = own_id p" by (simp add: next_vertex_def own_vertex_def Vertex_def)
qed

lemma next_vertex_honest:
  assumes "dag_inv (crypt E) p ws" and "iter_ok (iter E)" and "crypto_ok (crypt E)" and "cur_round p < last_round p"
    and "plain_id (own_id p)" and "0 < cur_round p \<Longrightarrow> card (dag_image p ! nat (cur_round p - 1)) \<le> 398"
  shows "honest (last_round p) (next_vertex E p)"
proof -
  have wf: "wf_peer p" using assms(1) by (simp add: dag_inv_def)
  note sel = next_vertex_sel [OF wf assms(4)]
  have "text_vertex (next_vertex E p)"
    using assms(6) by (intro next_vertex_text [OF assms(1-4)]) simp
  moreover have "length (payload (next_vertex E p)) \<le> 31"
  proof -
    have "length (to_string (cur_round p + 1)) \<le> 10"
      using wf assms(4) by (intro length_round_text) (auto simp: wf_peer_def)
    with length_id_text [of "own_id p"] show ?thesis
      by (simp add: next_vertex_def own_vertex_def Vertex_def)
  qed
  moreover have "length (references (next_vertex E p)) \<le> 398 \<and> distinct (references (next_vertex E p))"
  proof (cases "0 < cur_round p")
    case True
    moreover have "int (length (dag_image p)) = cur_round p" using wf assms(4) by (simp add: wf_peer_def)
    ultimately have k: "nat (cur_round p - 1) < length (dag_image p)" by linarith
    then have "finite (dag_image p ! nat (cur_round p - 1))" using wf by (simp add: wf_peer_def)
    from iter_okD(1,3) [OF assms(2) this] True k assms(6) show ?thesis
      by (simp add: next_vertex_def own_vertex_def nth_append)
  qed (simp add: next_vertex_def own_vertex_def Vertex_def)
  moreover have "0 \<le> cur_round p" using wf by (simp add: wf_peer_def)
  ultimately show ?thesis using assms(4,5) sel by (simp add: honest_def)
qed

text \<open>
  \<open>makes E W p q\<close>: on the way from \<open>p\<close> to \<open>q\<close> the validator has made the vertices \<open>W\<close>, which is at
  most its next one, and has put that into its map.
\<close>

definition makes :: "env \<Rightarrow> vertex set \<Rightarrow> peer \<Rightarrow> peer \<Rightarrow> bool" where
  "makes E W p q \<longleftrightarrow> own_id q = own_id p \<and> last_round q = last_round p \<and> crowd q = crowd p \<and>
     (W = {} \<and> vertex_map (server p) \<subseteq>\<^sub>m vertex_map (server q) \<and> cur_round p \<le> cur_round q \<or>
      W = {next_vertex E p} \<and> cur_round p < last_round p \<and> cur_round q = cur_round p + 1 \<and>
      vertex_map (server q) = (vertex_map (server p))(vertex_hash (crypt E) (next_vertex E p) \<mapsto> next_vertex E p))"

lemma makes_none: "same_core p q \<Longrightarrow> makes E {} p q"
  by (simp add: makes_def same_core_def)

lemma after_wait_makes:
  assumes "after_wait E due (p, l) = Inr (left, q, l')"
  shows "makes E {} p q"
proof -
  obtain p1 l1 kept p2 l2 where requests: "process_requests (p, l) = Inr (p1, l1)"
    and scan: "scan_buffer E (buffer p1) (p1, l1) = Inr (kept, p2, l2)"
    and q: "own_id q = own_id p2" "last_round q = last_round p2" "cur_round q = cur_round p2" "crowd q = crowd p2"
      "vertex_map (server q) = vertex_map (server p2)"
    using assms by (auto simp: after_wait_def bindR_Inr_iff Let_def set_thread_ready_def split: if_splits)
  from requests obtain p0 where "same_core p p0" and "p1 = p0\<lparr>requests := []\<rparr>"
    by (auto simp: process_requests_def bindR_Inr_iff dest: requests_core)
  with q scan_buffer_frame [OF scan] show ?thesis by (simp add: makes_def same_core_def)
qed

lemma proposed_stocked:
  assumes "propose E (r\<lparr>cur_round := cur_round r + 1\<rparr>) = Inr q" and "stocked (crypt E) G r l" and "wf_peer r"
    and "cur_round r < last_round r" and "honest final (next_vertex E r)"
  shows "stocked (crypt E) (insert (next_vertex E r) G) q l \<and> makes E {next_vertex E r} r q"
proof -
  let ?r = "r\<lparr>cur_round := cur_round r + 1\<rparr>" and ?v = "next_vertex E r"
  have len: "int (length (dag_image r)) = cur_round r" and cur: "0 \<le> cur_round r"
    using assms(3,4) by (auto simp: wf_peer_def)
  have v: "own_vertex E (?r\<lparr>dag_image := dag_image ?r @ [{}]\<rparr>) = ?v"
    by (simp add: next_vertex_def)
  have core: "same_core (proposed E ?r) q"
    using assms(1) len cur by (intro propose_core) auto
  have made: "proposed E ?r = ?r\<lparr>server := add_to_map (vertex_hash (crypt E) ?v) ?v (server r),
      dag_image := dag_image r @ [{vertex_hash (crypt E) ?v}]\<rparr>"
    using v by (simp add: proposed_def Let_def)
  have "posted (insert ?v G) ?r q"
    using propose_posted [OF assms(1), of "insert ?v G" final] len cur assms(5) v by simp
  then have post: "posted (insert ?v G) (proposed E ?r) q"
    by (simp add: made posted_def)
  have old: "stocked (crypt E) (insert ?v G) r l"
    by (rule stocked_mono [OF assms(2)]) blast
  have "filed (crypt E) (insert ?v G) (dag_image r @ [{vertex_hash (crypt E) ?v}])"
    using old next_vertex_sel(1) [OF assms(3,4)] len by (intro filed_append) (auto simp: stocked_def)
  moreover have "ran ((vertex_map (server r))(vertex_hash (crypt E) ?v \<mapsto> ?v)) \<subseteq> insert ?v G"
    using old by (auto simp: stocked_def ran_def)
  ultimately have "stocked (crypt E) (insert ?v G) (proposed E ?r) l"
    using old by (auto simp: stocked_def made add_to_map_def umap_insert_def)
  from stocked_posted [OF this core post] core assms(4) show ?thesis
    by (simp add: makes_def same_core_def made add_to_map_def umap_insert_def)
qed

lemma next_vertex_core: "same_core p r \<Longrightarrow> next_vertex E r = next_vertex E p"
  by (simp add: next_vertex_def own_vertex_def same_core_def)

lemma move_round_stocked:
  assumes "move_round E t (p, l) = Inr (q, l')" and "stocked (crypt E) G p l" and "wf_peer p"
    and "cur_round p < last_round p \<Longrightarrow> honest final (next_vertex E p)"
  shows "\<exists>W. stocked (crypt E) (W \<union> G) q l' \<and> makes E W p q"
proof -
  have l': "missing_set l' = missing_set l"
    using assms(1) by (auto simp: move_round_def bindR_Inr_iff split: if_splits)
  have l: "stocked (crypt E) H r l' = stocked (crypt E) H r l" for H r
    by (simp add: stocked_def l')
  show ?thesis
  proof (cases "cur_round p \<le> last_round p \<and> can_advance p = Inr True")
    case True
    with assms(1) obtain r where work: "wave_work E p = Inr r"
      and rest: "(if cur_round r + 1 \<le> last_round r then propose E (r\<lparr>cur_round := cur_round r + 1\<rparr>)
        else Inr (r\<lparr>cur_round := cur_round r + 1\<rparr>)) = Inr q"
      by (auto simp: move_round_def advance_def bindR_Inr_iff Let_def)
    have core: "same_core p r" using work by (rule wave_work_core)
    have r: "stocked (crypt E) G r l"
      by (rule stocked_posted [OF assms(2) core posted_same [OF wave_work_pool [OF work]]])
    show ?thesis
    proof (cases "cur_round r < last_round r")
      case True
      have wf: "wf_peer r" using assms(3) core by (simp add: wf_peer_def same_core_def)
      have v: "next_vertex E r = next_vertex E p" by (rule next_vertex_core [OF core])
      have "propose E (r\<lparr>cur_round := cur_round r + 1\<rparr>) = Inr q" using True rest by simp
      from proposed_stocked [OF this r wf True, of final] assms(4) v True core show ?thesis
        by (intro exI [of _ "{next_vertex E p}"]) (auto simp: l makes_def same_core_def)
    next
      case False
      with rest have "q = r\<lparr>cur_round := cur_round r + 1\<rparr>" by simp
      with r core show ?thesis
        by (intro exI [of _ "{}"]) (auto simp: l' makes_def same_core_def stocked_def)
    qed
  next
    case False
    with assms(1) have "q = p \<or> (\<exists>e s. dag_scan e s p = Inr q)"
      by (auto simp: move_round_def bindR_Inr_iff split: if_split_asm)
    then have "same_core p q" "pool q = pool p" using dag_scan_core dag_scan_pool by auto
    then show ?thesis
      using stocked_posted [OF assms(2) _ posted_same] makes_none by (intro exI [of _ "{}"]) (simp add: l)
  qed
qed

end
