(* ===== verification/Protocol.thy ===== *)
theory Protocol
  imports Progress
begin

text \<open>
  What a validator is meant to do, without threads, buffers and messages: a ledger of rounds and
  a store of vertices that change in three ways only. Every run of the program is a run of this
  protocol. And what two validators have in common: the history of a vertex that both have in
  their DAGs.
\<close>

section \<open>The protocol\<close>

record ledger =
  rounds :: "string set list"
  store :: "string \<rightharpoonup> vertex"

text \<open>
  A vertex is received: it is admissible and new. A vertex is added to a round that has begun:
  it is stored, it belongs to the round, and all its references are in the round before. A round
  is begun: the last one has a quorum, and the validator stores a vertex of its own that refers
  to each vertex of the last round once.
\<close>

inductive ledger_step :: "crypto \<Rightarrow> int \<Rightarrow> u64 \<Rightarrow> ledger \<Rightarrow> ledger \<Rightarrow> bool" for C n me where
  receive: "admissible (majority n) v \<Longrightarrow> vertex_hash C v \<notin> dom (store s) \<Longrightarrow>
     ledger_step C n me s (s\<lparr>store := (store s)(vertex_hash C v \<mapsto> v)\<rparr>)"
| add: "admissible (majority n) v \<Longrightarrow> vertex_hash C v \<in> dom (store s) \<Longrightarrow>
     k < length (rounds s) \<Longrightarrow> sint (vround v) = int k + 1 \<Longrightarrow>
     0 < k \<longrightarrow> set (references v) \<subseteq> rounds s ! (k - 1) \<Longrightarrow>
     ledger_step C n me s (s\<lparr>rounds := (rounds s)[k := insert (vertex_hash C v) (rounds s ! k)]\<rparr>)"
| begin_round: "rounds s \<noteq> [] \<longrightarrow> majority n \<le> int (card (last (rounds s))) \<Longrightarrow>
     peer_id v = me \<Longrightarrow> sint (vround v) = int (length (rounds s)) + 1 \<Longrightarrow>
     distinct (references v) \<Longrightarrow> set (references v) = (if rounds s = [] then {} else last (rounds s)) \<Longrightarrow>
     ledger_step C n me s
       (s\<lparr>rounds := rounds s @ [{vertex_hash C v}], store := (store s)(vertex_hash C v \<mapsto> v)\<rparr>)"

definition ledger_of :: "peer \<Rightarrow> ledger" where
  "ledger_of p = \<lparr>rounds = dag_image p, store = vertex_map (server p)\<rparr>"

lemma ledger_of_same:
  "dag_image q = dag_image p \<Longrightarrow> vertex_map (server q) = vertex_map (server p) \<Longrightarrow> ledger_of q = ledger_of p"
  by (simp add: ledger_of_def)

lemma ledger_of_core: "same_core p q \<Longrightarrow> ledger_of q = ledger_of p"
  by (simp add: ledger_of_def same_core_def)

section \<open>Each step of the program is some steps of the protocol\<close>

lemma receive_all:
  assumes "\<forall>v \<in> set vs. admissible (majority n) v \<and> vertex_hash C v \<notin> dom m"
    and "distinct (map (vertex_hash C) vs)"
  shows "\<exists>m'. (ledger_step C n me)\<^sup>*\<^sup>* \<lparr>rounds = D, store = m\<rparr> \<lparr>rounds = D, store = m'\<rparr> \<and>
    m \<subseteq>\<^sub>m m' \<and> dom m' = dom m \<union> vertex_hash C ` set vs \<and> (\<forall>v \<in> set vs. m' (vertex_hash C v) = Some v)"
  using assms
proof (induction vs arbitrary: m)
  case Nil
  then show ?case by auto
next
  case (Cons v vs)
  let ?h = "vertex_hash C v"
  have "ledger_step C n me \<lparr>rounds = D, store = m\<rparr> \<lparr>rounds = D, store = m(?h \<mapsto> v)\<rparr>"
    using ledger_step.receive [of n v C "\<lparr>rounds = D, store = m\<rparr>"] Cons.prems by simp
  moreover have fresh: "\<forall>w \<in> set vs. admissible (majority n) w \<and> vertex_hash C w \<notin> dom (m(?h \<mapsto> v))"
    using Cons.prems by (auto simp: image_iff)
  moreover obtain m' where m': "(ledger_step C n me)\<^sup>*\<^sup>* \<lparr>rounds = D, store = m(?h \<mapsto> v)\<rparr> \<lparr>rounds = D, store = m'\<rparr>"
    "m(?h \<mapsto> v) \<subseteq>\<^sub>m m'" "dom m' = dom (m(?h \<mapsto> v)) \<union> vertex_hash C ` set vs"
    "\<forall>v \<in> set vs. m' (vertex_hash C v) = Some v"
    using Cons.IH [OF fresh] Cons.prems(2) by (metis distinct.simps(2) list.simps(9))
  moreover have "m' ?h = Some v" using m'(2) by (simp add: map_le_def)
  moreover have "m \<subseteq>\<^sub>m m'"
    using m'(2) Cons.prems(1) by (auto simp: map_le_def) (metis domI fun_upd_other)
  ultimately show ?case
    by (intro exI [of _ m']) (auto intro: converse_rtranclp_into_rtranclp)
qed

lemma grows_simulates:
  assumes "grows C (majority n) (server p, lv) (s, lv')"
  shows "(ledger_step C n me)\<^sup>*\<^sup>* (ledger_of p) (ledger_of (p\<lparr>server := s\<rparr>))"
proof -
  obtain new where new: "distinct (map (vertex_hash C) new)"
    "\<forall>v \<in> set new. admissible (majority n) v \<and> vertex_hash C v \<notin> dom (vertex_map (server p)) \<and>
       vertex_map s (vertex_hash C v) = Some v"
    "dom (vertex_map s) = dom (vertex_map (server p)) \<union> vertex_hash C ` set new"
    "vertex_map (server p) \<subseteq>\<^sub>m vertex_map s"
    using assms unfolding grows_def by auto
  obtain m where m: "(ledger_step C n me)\<^sup>*\<^sup>* \<lparr>rounds = dag_image p, store = vertex_map (server p)\<rparr> \<lparr>rounds = dag_image p, store = m\<rparr>"
    "vertex_map (server p) \<subseteq>\<^sub>m m" "dom m = dom (vertex_map (server p)) \<union> vertex_hash C ` set new"
    "\<forall>v \<in> set new. m (vertex_hash C v) = Some v"
    using receive_all [of new n C "vertex_map (server p)" me "dag_image p"] new(1,2) by blast
  have "m h = vertex_map s h" for h
  proof (cases "h \<in> dom m")
    case True
    with m(3) consider "h \<in> dom (vertex_map (server p))" | v where "v \<in> set new" "h = vertex_hash C v" by auto
    then show ?thesis
    proof cases
      case 1
      with m(2) new(4) show ?thesis by (metis map_le_def)
    qed (use m(4) new(2) in simp)
  next
    case False
    with m(3) new(3) have "h \<notin> dom (vertex_map s)" by simp
    with False show ?thesis by (simp add: domIff)
  qed
  then have "m = vertex_map s" by (rule ext)
  with m(1) show ?thesis by (simp add: ledger_of_def)
qed

lemma scan_one_simulates:
  assumes "scan_one E v (p, l) = Inr (keep, q, l')" and "dag_inv (crypt E) p ws" and "v \<in> set ws" and "crowd p = n"
  shows "(ledger_step (crypt E) n me)\<^sup>*\<^sup>* (ledger_of p) (ledger_of q)"
  using assms(1)
proof (cases rule: scan_one_cases)
  case 1
  then show ?thesis by (simp add: ledger_of_core)
next
  case (2 k r)
  let ?h = "vertex_hash (crypt E) v"
  have "?h \<in> dom (vertex_map (server p))" and "admissible (majority n) v"
    using assms(2-4) by (auto simp: dag_inv_def conserved_def waiting_ok_def)
  then have "ledger_step (crypt E) n me (ledger_of p)
      ((ledger_of p)\<lparr>rounds := (dag_image p)[k := insert ?h (dag_image p ! k)]\<rparr>)"
    using ledger_step.add [of n v "crypt E" "ledger_of p" k me] 2(2) by (simp add: ledger_of_def joins_def)
  moreover have "ledger_of q = (ledger_of p)\<lparr>rounds := (dag_image p)[k := insert ?h (dag_image p ! k)]\<rparr>"
    using 2(3,4) by (simp add: ledger_of_def grow_dag_def same_core_def)
  ultimately show ?thesis by (simp add: r_into_rtranclp)
qed

lemma scan_buffer_simulates:
  assumes "scan_buffer E vs (p, l) = Inr (kept, q, l')" and "dag_inv (crypt E) p (pre @ vs @ post)" and "crowd p = n"
  shows "(ledger_step (crypt E) n me)\<^sup>*\<^sup>* (ledger_of p) (ledger_of q)"
  using assms
proof (induction vs arbitrary: pre p l kept)
  case Nil
  then show ?case by simp
next
  case (Cons v vs)
  from Cons.prems(1) obtain keep p' l2 kept' where one: "scan_one E v (p, l) = Inr (keep, p', l2)"
    and rest: "scan_buffer E vs (p', l2) = Inr (kept', q, l')"
    by (auto simp: bindR_Inr_iff)
  from one have single: "scan_buffer E [v] (p, l) = Inr (if keep then [v] else [], p', l2)" by simp
  have "dag_inv (crypt E) p' ((pre @ (if keep then [v] else [])) @ vs @ post)"
    using scan_buffer_inv [OF single, of pre "vs @ post"] Cons.prems(2) by simp
  moreover have "crowd p' = n" using scan_buffer_frame [OF single] Cons.prems(3) by simp
  ultimately have "(ledger_step (crypt E) n me)\<^sup>*\<^sup>* (ledger_of p') (ledger_of q)"
    using Cons.IH [OF rest] by blast
  moreover have "(ledger_step (crypt E) n me)\<^sup>*\<^sup>* (ledger_of p) (ledger_of p')"
    by (rule scan_one_simulates [OF one Cons.prems(2) _ Cons.prems(3)]) simp
  ultimately show ?case by (rule rtranclp_trans [rotated])
qed

lemma after_wait_simulates:
  assumes "after_wait E due (p, l) = Inr (left, q, l')" and "dag_inv (crypt E) p (buffer p @ ts)" and "crowd p = n"
  shows "(ledger_step (crypt E) n me)\<^sup>*\<^sup>* (ledger_of p) (ledger_of q) \<and> crowd q = crowd p \<and> own_id q = own_id p"
proof -
  obtain p1 l1 kept p2 l2 where requests: "process_requests (p, l) = Inr (p1, l1)"
    and scan: "scan_buffer E (buffer p1) (p1, l1) = Inr (kept, p2, l2)"
    and q: "dag_image q = dag_image p2 \<and> vertex_map (server q) = vertex_map (server p2) \<and> crowd q = crowd p2 \<and> own_id q = own_id p2"
    using assms(1) by (auto simp: after_wait_def bindR_Inr_iff Let_def set_thread_ready_def split: if_splits)
  from requests obtain p0 where p0: "same_core p p0" and p1: "p1 = p0\<lparr>requests := []\<rparr>"
    by (auto simp: process_requests_def bindR_Inr_iff dest: requests_core)
  have "dag_inv (crypt E) p1 ([] @ buffer p1 @ ts)"
    using dag_inv_core [OF p0 assms(2)] p0 unfolding p1
    by (auto intro: dag_inv_same [rotated -1] simp: same_core_def)
  moreover have "ledger_of p1 = ledger_of p" and frame: "crowd p1 = crowd p" "own_id p1 = own_id p"
    using p0 by (simp_all add: p1 ledger_of_def same_core_def)
  ultimately have "(ledger_step (crypt E) n me)\<^sup>*\<^sup>* (ledger_of p) (ledger_of p2)"
    using scan_buffer_simulates [OF scan, of "[]" ts n me] assms(3) by simp
  with q frame show ?thesis
    using scan_buffer_frame [OF scan] ledger_of_same [of q p2] by simp
qed

lemma proposed_simulates:
  assumes "wf_peer p" and "cur_round p < last_round p" and "iter_ok (iter E)" and "crowd p = n" and "own_id p = me"
    and "0 < cur_round p \<Longrightarrow> majority (crowd p) \<le> int (card (dag_image p ! nat (cur_round p - 1)))"
  shows "ledger_step (crypt E) n me (ledger_of p) (ledger_of (proposed E (p\<lparr>cur_round := cur_round p + 1\<rparr>)))"
proof -
  define v where "v = own_vertex E (p\<lparr>cur_round := cur_round p + 1, dag_image := dag_image p @ [{}]\<rparr>)"
  have n: "int (length (dag_image p)) = cur_round p" and last: "last_round p < 2 ^ 31"
    using assms(1,2) by (auto simp: wf_peer_def)
  have round: "sint (vround v) = int (length (dag_image p)) + 1"
    using own_vertex_sel(1) [of "p\<lparr>cur_round := cur_round p + 1, dag_image := dag_image p @ [{}]\<rparr>" E] n last assms(2)
    by (simp add: v_def)
  have last_D: "dag_image p ! nat (cur_round p - 1) = last (dag_image p)" if "dag_image p \<noteq> []"
    using that n by (simp add: last_conv_nth nat_diff_distrib' flip: n)
  have refs: "references v = (if dag_image p = [] then [] else iter E (last (dag_image p)))"
  proof (cases "dag_image p = []")
    case False
    then have "nat (cur_round p - 1) < length (dag_image p)" "0 < cur_round p" using n by (cases "dag_image p"; auto)+
    with last_D [OF False] False show ?thesis by (simp add: v_def own_vertex_def nth_append)
  qed (use n in \<open>simp add: v_def own_vertex_def\<close>)
  have "finite (last (dag_image p))" if "dag_image p \<noteq> []"
    using that assms(1) by (simp add: wf_peer_def)
  with iter_okD [OF assms(3)] refs have "distinct (references v)"
    "set (references v) = (if dag_image p = [] then {} else last (dag_image p))"
    by auto
  moreover have "dag_image p \<noteq> [] \<longrightarrow> majority n \<le> int (card (last (dag_image p)))"
    using assms(4,6) last_D n by (auto simp: neq_Nil_conv)
  moreover have "peer_id v = me" using assms(5) by (simp add: v_def own_vertex_def Vertex_def)
  ultimately show ?thesis
    using ledger_step.begin_round [of "ledger_of p" n v me "crypt E"] round
    by (simp add: ledger_of_def proposed_def Let_def add_to_map_def umap_insert_def v_def)
qed

lemma advance_simulates:
  assumes "advance E p = Inr q" and "can_advance p = Inr True" and "wf_peer p"
    and "cur_round p \<le> last_round p" and "iter_ok (iter E)" and "crowd p = n" and "own_id p = me"
  shows "(ledger_step (crypt E) n me)\<^sup>*\<^sup>* (ledger_of p) (ledger_of q) \<and> crowd q = crowd p \<and> own_id q = own_id p"
proof -
  obtain r where work: "wave_work E p = Inr r"
    and rest: "(if cur_round r + 1 \<le> last_round r then propose E (r\<lparr>cur_round := cur_round r + 1\<rparr>)
      else Inr (r\<lparr>cur_round := cur_round r + 1\<rparr>)) = Inr q"
    using assms(1) by (auto simp: advance_def bindR_Inr_iff Let_def)
  have core: "same_core p r" using work by (rule wave_work_core)
  have wf: "wf_peer r" using assms(3) core by (simp add: wf_peer_def same_core_def)
  have same: "ledger_of r = ledger_of p" "crowd r = n" "own_id r = me"
    using core assms(6,7) ledger_of_core by (auto simp: same_core_def)
  have quorum: "majority (crowd r) \<le> int (card (dag_image r ! nat (cur_round r - 1)))" if "0 < cur_round r"
    using can_advance_quorum [OF _ wf that] assms(2) core by (simp add: can_advance_def same_core_def split: if_splits)
  show ?thesis
  proof (cases "cur_round r < last_round r")
    case True
    then have "propose E (r\<lparr>cur_round := cur_round r + 1\<rparr>) = Inr q" using rest by simp
    then have "same_core (proposed E (r\<lparr>cur_round := cur_round r + 1\<rparr>)) q"
      using wf True by (intro propose_core) (auto simp: wf_peer_def)
    then have "ledger_of q = ledger_of (proposed E (r\<lparr>cur_round := cur_round r + 1\<rparr>))" "crowd q = n" "own_id q = me"
      using ledger_of_core same(2,3) by (auto simp: same_core_def proposed_def Let_def)
    moreover have "ledger_step (crypt E) n me (ledger_of r) (ledger_of (proposed E (r\<lparr>cur_round := cur_round r + 1\<rparr>)))"
      by (rule proposed_simulates [OF wf True assms(5) same(2,3) quorum])
    ultimately show ?thesis using same(1) assms(6,7) by auto
  next
    case False
    with rest have "q = r\<lparr>cur_round := cur_round r + 1\<rparr>" by simp
    with same assms(6,7) show ?thesis by (simp add: ledger_of_def)
  qed
qed

lemma move_round_cases:
  assumes "move_round E t (p, l) = Inr (q, l')"
  obtains "cur_round p \<le> last_round p" "can_advance p = Inr True" "advance E p = Inr q" | "same_core p q"
proof (cases "cur_round p \<le> last_round p \<and> can_advance p = Inr True")
  case True
  with assms that(1) show ?thesis by (auto simp: move_round_def bindR_Inr_iff)
next
  case False
  with assms have "q = p \<or> (\<exists>e s. dag_scan e s p = Inr q)"
    by (auto simp: move_round_def bindR_Inr_iff split: if_split_asm)
  with that(2) show ?thesis using dag_scan_core by auto
qed

lemma move_round_simulates:
  assumes "move_round E t (p, l) = Inr (q, l')" and "wf_peer p" and "iter_ok (iter E)" and "crowd p = n" and "own_id p = me"
  shows "(ledger_step (crypt E) n me)\<^sup>*\<^sup>* (ledger_of p) (ledger_of q) \<and> crowd q = crowd p \<and> own_id q = own_id p"
proof -
  from assms(1) consider (advance) "cur_round p \<le> last_round p" "can_advance p = Inr True" "advance E p = Inr q"
    | (core) "same_core p q"
    by (rule move_round_cases)
  then show ?thesis
  proof cases
    case advance
    then show ?thesis using advance_simulates [OF _ _ assms(2)] assms(3-5) by blast
  next
    case core
    from core ledger_of_core [OF core] show ?thesis by (simp add: same_core_def)
  qed
qed

definition validator_of :: "env \<Rightarrow> int \<Rightarrow> u64 \<Rightarrow> validator \<Rightarrow> bool" where
  "validator_of E n me st \<longleftrightarrow> validator_inv E st \<and> crowd (fst (snd st)) = n \<and> own_id (fst (snd st)) = me"

lemma act_simulates:
  assumes "act E a s t" and "validator_of E n me s"
  shows "(ledger_step (crypt E) n me)\<^sup>*\<^sup>* (ledger_of (fst (snd s))) (ledger_of (fst (snd t))) \<and>
    crowd (fst (snd t)) = n \<and> own_id (fst (snd t)) = me"
  using assms
proof (induction rule: act.induct)
  case (round t p l q l' lv)
  then have "(ledger_step (crypt E) n me)\<^sup>*\<^sup>* (ledger_of p) (ledger_of q) \<and> crowd q = crowd p \<and> own_id q = own_id p"
    by (intro move_round_simulates) (auto simp: validator_of_def validator_inv_def dag_inv_def)
  with round show ?case by (simp add: validator_of_def ledger_of_def set_thread_ready_def)
next
  case (wake due p l q l' lv)
  then show ?case
    using after_wait_simulates [OF wake(1), of "temp_list lv" n me] by (simp add: validator_of_def validator_inv_def)
next
  case (leave due p l q l' lv)
  then show ?case
    using after_wait_simulates [OF leave(1), of "temp_list lv" n me]
    by (simp add: validator_of_def validator_inv_def ledger_of_def)
next
  case (event p e lv s lv' pc l)
  then have "grows (crypt E) (majority n) (server p, lv) (s, lv')"
    using event_grows [OF event(1)] by (simp add: validator_of_def)
  with event show ?case by (simp add: validator_of_def grows_simulates)
next
  case (hand p lv s lv' buf reqs pc l)
  then show ?case by (auto simp: validator_of_def ledger_of_def hand_over_def split: if_splits)
next
  case (search p xs r ys q pc l lv)
  then show ?case using check_round_core [OF search(2)] by (simp add: validator_of_def ledger_of_def same_core_def)
next
  case (work a b p ts pc l lv)
  then show ?case by (simp add: validator_of_def ledger_of_def)
qed

interpretation protocol: simulation "step E" "validator_of E n me" "ledger_step (crypt E) n me" "\<lambda>s. ledger_of (fst (snd s))"
  for E n me
proof unfold_locales
  fix s t :: validator
  assume "validator_of E n me s" and "step E s t"
  then show "(ledger_step (crypt E) n me)\<^sup>*\<^sup>* (ledger_of (fst (snd s))) (ledger_of (fst (snd t)))"
    and "validator_of E n me t"
    using act_simulates act_inv unfolding validator_of_def step_def by blast+
qed

lemma launched_ledger: "launched s \<Longrightarrow> ledger_of (fst (snd s)) = \<lparr>rounds = [], store = Map.empty\<rparr>"
proof (induction rule: launched.induct)
  case (launch fd bound clock domain type protocol port listen n final fails p os port0 addresses q streams)
  from launch(1) have "dag_image p = []" "vertex_map (server p) = Map.empty"
    by (auto simp: Peer_def Server_def bindR_Inr_iff split: if_splits)
  moreover from launch(6) have "same_core p q" using setup_network_frame by blast
  ultimately show ?case by (simp add: ledger_of_def same_core_def)
qed

text \<open>
  C8. Refinement: whatever the other validators send, however the threads interleave and whatever
  is lost, every run of a validator is, on its DAG and its vertex map, a run of the protocol with
  its three rules, from the empty ledger.
\<close>

theorem validator_refines_protocol:
  assumes "launched (pc0, p0, l0, lv0)" and "iter_ok (iter E)" and "(step E)\<^sup>*\<^sup>* (pc0, p0, l0, lv0) (pc, p, l, lv)"
  shows "(ledger_step (crypt E) (crowd p0) (own_id p0))\<^sup>*\<^sup>* \<lparr>rounds = [], store = Map.empty\<rparr>
    \<lparr>rounds = dag_image p, store = vertex_map (server p)\<rparr>"
proof -
  have "validator_of E (crowd p0) (own_id p0) (pc0, p0, l0, lv0)"
    using launched_inv [OF assms(1,2)] by (simp add: validator_of_def)
  from protocol.run_simulates [OF assms(3) this] launched_ledger [OF assms(1)] show ?thesis
    by (simp add: ledger_of_def)
qed

theorem validator_refines_protocol_witness:
  "\<exists>h m. (ledger_step demo_crypto 4 17)\<^sup>*\<^sup>* \<lparr>rounds = [], store = Map.empty\<rparr> \<lparr>rounds = [{h}], store = m\<rparr>"
proof -
  obtain p l lv where run: "(step demo_env)\<^sup>*\<^sup>* first_state (Asleep, p, l, lv)"
    and p: "dag_image p = [{own_key demo_crypto p 1}]"
    by (rule demo_run)
  from validator_refines_protocol [OF launched_first [unfolded first_state_def] demo_env_ok(1) run [unfolded first_state_def]] p
  show ?thesis by (auto simp: first_peer_sel demo_env_def)
qed

section \<open>Common histories\<close>

text \<open>
  The history of a vertex in a vertex map: the vertex, and through its references the vertices of
  the rounds before, down to the first round, where references are not looked at.
\<close>

inductive ancestor :: "(string \<rightharpoonup> vertex) \<Rightarrow> string \<Rightarrow> string \<Rightarrow> bool" for m where
  itself: "ancestor m h h"
| through: "m h = Some v \<Longrightarrow> vround v \<noteq> 1 \<Longrightarrow> g \<in> set (references v) \<Longrightarrow> ancestor m g a \<Longrightarrow> ancestor m h a"

text \<open>No vertex of the DAG has the hash of an own vertex of another round.\<close>

definition all_alien :: "crypto \<Rightarrow> peer \<Rightarrow> bool" where
  "all_alien C p \<longleftrightarrow> (\<forall>i < length (dag_image p). \<forall>h \<in> dag_image p ! i. alien C p i h)"

lemma in_dag_vouched:
  assumes "supported C p" and "all_alien C p" and "i < length (dag_image p)" and "h \<in> dag_image p ! i"
  shows "\<exists>v. vertex_map (server p) h = Some v \<and> sint (vround v) = int i + 1 \<and>
    (0 < i \<longrightarrow> set (references v) \<subseteq> dag_image p ! (i - 1))"
proof -
  have "vouched C p i h" using assms by (simp add: supported_def all_alien_def)
  then show ?thesis unfolding vouched_def by blast
qed

lemma ancestor_shared:
  assumes "ancestor (vertex_map (server p)) h a"
    and "supported C p" and "all_alien C p" and "supported C q" and "all_alien C q"
    and "\<forall>g \<in> \<Union> (set (dag_image p)) \<inter> \<Union> (set (dag_image q)). vertex_map (server p) g = vertex_map (server q) g"
    and "i < length (dag_image p)" and "i < length (dag_image q)" and "h \<in> dag_image p ! i" and "h \<in> dag_image q ! i"
  shows "ancestor (vertex_map (server q)) h a \<and> (\<exists>k \<le> i. a \<in> dag_image p ! k \<and> a \<in> dag_image q ! k)"
  using assms(1,7-)
proof (induction arbitrary: i rule: ancestor.induct)
  case (itself h)
  then show ?case by (auto intro: ancestor.itself)
next
  case (through h v g a)
  obtain v' where v': "vertex_map (server p) h = Some v'" "sint (vround v') = int i + 1"
    "0 < i \<longrightarrow> set (references v') \<subseteq> dag_image p ! (i - 1)"
    using in_dag_vouched [OF assms(2,3) through.prems(1,3)] by blast
  obtain w where w: "vertex_map (server q) h = Some w" "0 < i \<longrightarrow> set (references w) \<subseteq> dag_image q ! (i - 1)"
    using in_dag_vouched [OF assms(4,5) through.prems(2,4)] by blast
  have eq: "v' = v" "w = v"
    using v'(1) w(1) through.hyps(1) assms(6) through.prems by (auto dest!: bspec [of _ _ h] intro: nth_mem)
  have "0 < i"
  proof (rule ccontr)
    assume "\<not> 0 < i"
    then have "sint (vround v) = sint (1 :: i32)" using v'(2) eq by simp
    then have "vround v = 1" by (rule signed_word_eqI)
    with through.hyps(2) show False by simp
  qed
  then have "g \<in> dag_image p ! (i - 1)" "g \<in> dag_image q ! (i - 1)"
    using through.hyps(3) v'(3) w(2) eq by auto
  moreover have "i - 1 < length (dag_image p)" "i - 1 < length (dag_image q)"
    using through.prems(1,2) by auto
  ultimately have "ancestor (vertex_map (server q)) g a" and "\<exists>k \<le> i - 1. a \<in> dag_image p ! k \<and> a \<in> dag_image q ! k"
    using through.IH [of "i - 1"] by blast+
  moreover from this(1) through.hyps(2,3) w(1) eq have "ancestor (vertex_map (server q)) h a"
    by (auto intro: ancestor.through)
  ultimately show ?case by (meson diff_le_self le_trans)
qed

end
