(* ===== verification/Network.thy ===== *)
theory Network
  imports Outbox Protocol
begin

text \<open>
  Several validators and the connections between them. Each runs its own threads; what a worker
  of one sends is appended to the stream of the connection at another, or lost. All of them run
  this program: what follows is about a network without faulty validators, in which anything may
  be lost, delayed or overtaken.
\<close>

section \<open>One validator between streams of messages\<close>

definition node :: "crypto \<Rightarrow> vertex set \<Rightarrow> validator \<Rightarrow> bool" where
  "node C G = (\<lambda>(pc, p, l, lv). stocked C G p l \<and> fed G (server p, lv))"

lemma node_mono: "node C G s \<Longrightarrow> G \<subseteq> H \<Longrightarrow> node C H s"
  by (cases s) (auto simp: node_def intro: stocked_mono fed_mono)

lemma fed_stocked:
  assumes "fed G (s, lv)" and "stocked C H q l" and "G \<subseteq> H"
  shows "fed H (server q, lv)"
  using fed_mono [OF assms(1,3)] assms(2) by (simp add: fed_def stocked_def)

lemma worker_outbox:
  assumes "worker_step a b" and "outbox G (the_pool a)" and "finished b = finished a @ ts"
  shows "outbox G (the_pool b) \<and> (\<forall>t \<in> set ts. carries G t)"
  using assms
proof (cases rule: worker_step.cases)
  case (take i t p)
  with assms(2,3) show ?thesis
    by (auto simp: outbox_def worker_wake_simps dest!: set_update_subset_insert [THEN subsetD] dest: list.set_sel(2))
next
  case (return i p)
  with assms(2,3) show ?thesis
    by (auto simp: outbox_def worker_wake_simps dest!: set_update_subset_insert [THEN subsetD])
next
  case (execute i t)
  then have "Running t \<in> set (workers (the_pool a))" by (metis nth_mem)
  with execute assms(2,3) show ?thesis
    by (auto simp: outbox_def dest!: set_update_subset_insert [THEN subsetD])
qed

lemma act_work_carries:
  assumes "act E (Work ts) s t" and "node C G s" and "x \<in> set ts"
  shows "carries G x"
  using assms(1)
proof (rule act_WorkE)
  fix a b p pc l lv
  assume "s = (pc, p, l, lv)" "worker_step a b" "the_pool a = pool p" "finished b = finished a @ ts"
  with worker_outbox [of a b G ts] assms(2,3) show ?thesis
    by (auto simp: node_def stocked_def)
qed

text \<open>The arrival that an action presupposes.\<close>

fun timely :: "action \<Rightarrow> bool" where
  "timely (Event e) = whole e"
| "timely _ = True"

lemma act_node:
  assumes "act E a s t" and "node (crypt E) G s" and "validator_inv E s" and "timely a"
    and "\<forall>v \<in> G. honest final v" and "final < 8960" and "crypto_ok (crypt E)"
    and "cur_round (fst (snd s)) < last_round (fst (snd s)) \<Longrightarrow> honest final (next_vertex E (fst (snd s)))"
  shows "\<exists>W. node (crypt E) (W \<union> G) t \<and> makes E W (fst (snd s)) (fst (snd t))"
  using assms(1-4,8)
proof (induction rule: act.induct)
  case (round t p l q l' lv)
  have "wf_peer p" using round.prems(2) by (simp add: validator_inv_def dag_inv_def)
  then obtain W where W: "stocked (crypt E) (W \<union> G) q l'" "makes E W p q"
    using move_round_stocked [OF round.hyps, of G final] round.prems(1,4) by (auto simp: node_def)
  have fed: "fed (W \<union> G) (server q, lv)"
    using round.prems(1) by (intro fed_stocked [OF _ W(1)]) (auto simp: node_def)
  let ?q = "q\<lparr>server := set_thread_ready True (server q)\<rparr>"
  have "node (crypt E) (W \<union> G) (Asleep, ?q, l', lv)"
    using W(1) fed by (simp add: node_def stocked_def fed_def set_thread_ready_def)
  moreover have "makes E W p ?q"
    using W(2) by (simp add: makes_def set_thread_ready_def)
  ultimately show ?case by auto
next
  case (wake due p l q l' lv)
  have q: "stocked (crypt E) G q l'"
    using wake.prems assms(5) by (intro after_wait_stocked [OF wake.hyps]) (auto simp: node_def validator_inv_def)
  moreover have "fed G (server q, lv)"
    using wake.prems(1) by (intro fed_stocked [OF _ q]) (auto simp: node_def)
  moreover have "makes E {} p q"
    by (rule after_wait_makes [OF wake.hyps])
  ultimately show ?case by (intro exI [of _ "{}"]) (simp add: node_def)
next
  case (leave due p l q l' lv)
  have q: "stocked (crypt E) G q l'"
    using leave.prems assms(5) by (intro after_wait_stocked [OF leave.hyps]) (auto simp: node_def validator_inv_def)
  moreover have "fed G (server q, lv)"
    using leave.prems(1) by (intro fed_stocked [OF _ q]) (auto simp: node_def)
  moreover have "makes E {} p q"
    by (rule after_wait_makes [OF leave.hyps])
  ultimately show ?case by (intro exI [of _ "{}"]) (simp add: node_def stocked_def makes_def)
next
  case (event p e lv s lv' pc l)
  have fed: "fed G (s, lv')"
    using event.prems assms(5,6) by (intro event_fed [OF event.hyps]) (auto simp: node_def)
  have "vertex_map (server p) \<subseteq>\<^sub>m vertex_map s"
    using event_grows [OF event.hyps] by (auto simp: grows_def)
  moreover have "stocked (crypt E) G (p\<lparr>server := s\<rparr>) l"
    using event.prems(1) fed map_le_implies_dom_le [OF calculation] by (simp add: node_def stocked_def fed_def) blast
  ultimately show ?case
    using fed by (intro exI [of _ "{}"]) (simp add: node_def makes_def)
next
  case (hand p lv s lv' buf reqs pc l)
  then have "s = (server p)\<lparr>scan_buffer_thread_ready := False\<rparr>" "buf = buffer p @ temp_list lv"
    "lv' = lv\<lparr>temp_list := [], temp_request_list := []\<rparr>" "reqs = requests p @ temp_request_list lv"
    by (auto simp: hand_over_def split: if_splits)
  with hand.prems(1) show ?case
    by (intro exI [of _ "{}"]) (simp add: node_def stocked_def fed_def makes_def ball_Un)
next
  case (search p xs r ys q pc l lv)
  let ?p = "p\<lparr>detached := xs @ ys\<rparr>"
  have "stocked (crypt E) G ?p l" using search.prems(1) by (simp add: node_def stocked_def)
  then have q: "stocked (crypt E) G q l"
    by (rule stocked_posted [OF _ check_round_core [OF search.hyps(2)] check_round_posted [OF search.hyps(2) assms(7)]])
  moreover have "fed G (server q, lv)"
    using search.prems(1) by (intro fed_stocked [OF _ q]) (auto simp: node_def)
  moreover have "makes E {} p q"
    using check_round_core [OF search.hyps(2)] by (simp add: makes_def same_core_def)
  ultimately show ?case by (intro exI [of _ "{}"]) (simp add: node_def)
next
  case (work a b p ts pc l lv)
  have "outbox G (the_pool b)"
    using worker_outbox [OF work.hyps(1) _ work.hyps(3)] work.prems(1) work.hyps(2) by (simp add: node_def stocked_def)
  with work.prems(1) show ?case
    by (intro exI [of _ "{}"]) (simp add: node_def stocked_def makes_def)
qed

section \<open>The network\<close>

text \<open>
  A network: its validators with their environments and ids, the hash functions and the last
  round, and for each descriptor of a validator the validator and the descriptor at the other
  end of the connection.
\<close>

record network =
  nodes :: nat
  env_of :: "nat \<Rightarrow> env"
  id_of :: "nat \<Rightarrow> u64"
  lib :: crypto
  horizon :: int
  link :: "nat \<Rightarrow> int \<Rightarrow> (nat \<times> int) option"

type_synonym config = "nat \<Rightarrow> validator"

definition peer_of :: "validator \<Rightarrow> peer" where
  "peer_of s = fst (snd s)"

definition known :: "validator \<Rightarrow> string \<rightharpoonup> vertex" where
  "known s = vertex_map (server (peer_of s))"

definition deliver :: "nat \<times> int \<Rightarrow> string \<Rightarrow> config \<Rightarrow> config" where
  "deliver to bytes c = (case to of (j, fd) \<Rightarrow> case c j of (pc, p, l, lv) \<Rightarrow>
     c(j := (pc, p, l, lv\<lparr>net := (net lv)(fd := net lv fd @ bytes)\<rparr>)))"

text \<open>
  A step of one validator; if a worker sends in it, the message is lost. Or a worker sends and
  the whole message arrives behind what is on the connection. (A message that is cut short makes
  the connection useless, as everything behind it is out of step; that is not part of the model.)
\<close>

inductive net_step :: "network \<Rightarrow> config \<Rightarrow> config \<Rightarrow> bool" for N where
  own: "i < nodes N \<Longrightarrow> act (env_of N i) a (c i) t \<Longrightarrow> timely a \<Longrightarrow> net_step N c (c(i := t))"
| send: "i < nodes N \<Longrightarrow> act (env_of N i) (Work [Sendn fd msg]) (c i) t \<Longrightarrow>
     c_sendn d rs msg = Some (Inr (msg, 1)) \<Longrightarrow> link N i fd = Some to \<Longrightarrow>
     net_step N c (deliver to msg (c(i := t)))"

text \<open>
  What is asked of a network: no two vertices of it have the same hash, no id has a delimiter in
  it, there are at most 398 validators and the last round is below 8960. (The bounds are those
  under which every packet fits the receiver's buffer and no header imitates the end of a
  vertex.)
\<close>

definition good_network :: "network \<Rightarrow> bool" where
  "good_network N \<longleftrightarrow> nodes N \<le> 398 \<and> horizon N < 8960 \<and> crypto_ok (lib N) \<and>
     inj_on (\<lambda>(r, i). hash_256 (lib N) (vertex_key r (id_of N i))) ({1..horizon N} \<times> {..<nodes N}) \<and>
     (\<forall>i < nodes N. plain_id (id_of N i) \<and> crypt (env_of N i) = lib N \<and> iter_ok (iter (env_of N i)))"

definition starting :: "network \<Rightarrow> config \<Rightarrow> bool" where
  "starting N c \<longleftrightarrow> (\<forall>i < nodes N. launched (c i) \<and> own_id (peer_of (c i)) = id_of N i \<and>
     last_round (peer_of (c i)) = horizon N \<and> crowd (peer_of (c i)) = int (nodes N) \<and> (\<forall>fd. net (snd (snd (snd (c i)))) fd = []))"

text \<open>The vertices that some validator has made: they bear its id and are in its own map.\<close>

definition authored :: "network \<Rightarrow> config \<Rightarrow> vertex set" where
  "authored N c = {v. \<exists>i < nodes N. peer_id v = id_of N i \<and> known (c i) (vertex_hash (lib N) v) = Some v}"

definition net_inv :: "network \<Rightarrow> config \<Rightarrow> bool" where
  "net_inv N c \<longleftrightarrow> (\<forall>v \<in> authored N c. honest (horizon N) v) \<and>
     (\<forall>i < nodes N. validator_inv (env_of N i) (c i) \<and> node (lib N) (authored N c) (c i) \<and>
        own_id (peer_of (c i)) = id_of N i \<and> last_round (peer_of (c i)) = horizon N \<and>
        crowd (peer_of (c i)) = int (nodes N) \<and>
        (\<forall>v \<in> authored N c. peer_id v = id_of N i \<longrightarrow> sint (vround v) \<le> cur_round (peer_of (c i))))"

lemma good_networkD:
  assumes "good_network N" and "i < nodes N"
  shows "plain_id (id_of N i)" and "crypt (env_of N i) = lib N" and "iter_ok (iter (env_of N i))"
  using assms by (simp_all add: good_network_def)

lemma net_invD:
  assumes "net_inv N c" and "good_network N" and "i < nodes N" and "c i = (pc, p, l, lv)"
  shows "dag_inv (lib N) p (buffer p @ temp_list lv)" and "stocked (lib N) (authored N c) p l"
    and "fed (authored N c) (server p, lv)" and "own_id p = id_of N i" and "last_round p = horizon N"
    and "crowd p = int (nodes N)" and "\<forall>v \<in> authored N c. peer_id v = id_of N i \<longrightarrow> sint (vround v) \<le> cur_round p"
proof -
  have inv: "validator_inv (env_of N i) (c i)" "node (lib N) (authored N c) (c i)"
    using assms(1,3) by (simp_all add: net_inv_def)
  then show "dag_inv (lib N) p (buffer p @ temp_list lv)" "stocked (lib N) (authored N c) p l"
    "fed (authored N c) (server p, lv)"
    using good_networkD(2) [OF assms(2,3)] by (simp_all add: assms(4) validator_inv_def node_def)
  have "own_id (peer_of (c i)) = id_of N i" "last_round (peer_of (c i)) = horizon N" "crowd (peer_of (c i)) = int (nodes N)"
    "\<forall>v \<in> authored N c. peer_id v = id_of N i \<longrightarrow> sint (vround v) \<le> cur_round (peer_of (c i))"
    using assms(1,3) by (simp_all add: net_inv_def)
  then show "own_id p = id_of N i" "last_round p = horizon N" "crowd p = int (nodes N)"
    "\<forall>v \<in> authored N c. peer_id v = id_of N i \<longrightarrow> sint (vround v) \<le> cur_round p"
    by (simp_all add: assms(4) peer_of_def)
qed

section \<open>What identifies a vertex in the network\<close>

lemma key_inject:
  assumes "good_network N" and "i < nodes N" and "j < nodes N" and "r \<in> {1..horizon N}" and "r' \<in> {1..horizon N}"
    and "hash_256 (lib N) (vertex_key r (id_of N i)) = hash_256 (lib N) (vertex_key r' (id_of N j))"
  shows "r = r' \<and> i = j"
proof -
  from assms(1) have "inj_on (\<lambda>(r, i). hash_256 (lib N) (vertex_key r (id_of N i))) ({1..horizon N} \<times> {..<nodes N})"
    by (simp add: good_network_def)
  from inj_onD [OF this, of "(r, i)" "(r', j)"] assms show ?thesis by simp
qed

lemma authored_cases:
  assumes "v \<in> authored N c" and "net_inv N c"
  obtains i where "i < nodes N" and "peer_id v = id_of N i" and "known (c i) (vertex_hash (lib N) v) = Some v"
    and "sint (vround v) \<in> {1..horizon N}" and "vertex_hash (lib N) v = hash_256 (lib N) (vertex_key (sint (vround v)) (id_of N i))"
  using assms by (auto simp: authored_def net_inv_def honest_def vertex_hash_key)

lemma authored_inject:
  assumes "good_network N" and "net_inv N c" and "v \<in> authored N c" and "w \<in> authored N c"
    and "vertex_hash (lib N) v = vertex_hash (lib N) w"
  shows "v = w"
proof -
  obtain i where i: "i < nodes N" "known (c i) (vertex_hash (lib N) v) = Some v" "sint (vround v) \<in> {1..horizon N}"
    "vertex_hash (lib N) v = hash_256 (lib N) (vertex_key (sint (vround v)) (id_of N i))"
    by (rule authored_cases [OF assms(3,2)]) (rule that)
  obtain j where j: "j < nodes N" "known (c j) (vertex_hash (lib N) w) = Some w" "sint (vround w) \<in> {1..horizon N}"
    "vertex_hash (lib N) w = hash_256 (lib N) (vertex_key (sint (vround w)) (id_of N j))"
    by (rule authored_cases [OF assms(4,2)]) (rule that)
  have "i = j" using key_inject [OF assms(1) i(1) j(1) i(3) j(3)] i(4) j(4) assms(5) by simp
  with i(2) j(2) assms(5) show ?thesis by (metis option.inject)
qed

lemma known_authored:
  assumes "net_inv N c" and "good_network N" and "i < nodes N" and "known (c i) h = Some v"
  shows "v \<in> authored N c" and "vertex_hash (lib N) v = h"
proof -
  obtain pc p l lv where c: "c i = (pc, p, l, lv)" by (metis prod_cases4)
  have "ran (known (c i)) \<subseteq> authored N c" "keyed (lib N) (server p)"
    using net_invD(1,2) [OF assms(1-3) c] by (simp_all add: c stocked_def known_def peer_of_def dag_inv_def)
  with assms(4) show "v \<in> authored N c" "vertex_hash (lib N) v = h"
    by (auto simp: keyed_def c known_def peer_of_def intro: ranI)
qed

section \<open>The invariant of the network\<close>

text \<open>A round of a DAG has at most one vertex of each validator.\<close>

definition round_keys :: "network \<Rightarrow> nat \<Rightarrow> string set" where
  "round_keys N k = (\<lambda>i. hash_256 (lib N) (vertex_key (int k + 1) (id_of N i))) ` {..<nodes N}"

lemma round_keys_card: "finite (round_keys N k)" "card (round_keys N k) \<le> nodes N"
  using card_image_le [of "{..<nodes N}" "\<lambda>i. hash_256 (lib N) (vertex_key (int k + 1) (id_of N i))"]
  by (simp_all add: round_keys_def)

lemma filed_round_keys:
  assumes "filed (lib N) (authored N c) D" and "k < length D"
  shows "D ! k \<subseteq> round_keys N k"
proof
  fix h assume "h \<in> D ! k"
  with assms obtain v where v: "v \<in> authored N c" "vertex_hash (lib N) v = h" "sint (vround v) = int k + 1"
    unfolding filed_def by blast
  from v(1) obtain i where "i < nodes N" "peer_id v = id_of N i" by (auto simp: authored_def)
  with v(2,3) show "h \<in> round_keys N k" by (auto simp: vertex_hash_key round_keys_def)
qed

lemma next_in_network:
  assumes "good_network N" and "net_inv N c" and "i < nodes N" and "cur_round (peer_of (c i)) < horizon N"
  shows "honest (horizon N) (next_vertex (env_of N i) (peer_of (c i)))"
    and "known (c i) (vertex_hash (lib N) (next_vertex (env_of N i) (peer_of (c i)))) = None"
proof -
  obtain pc p l lv where c: "c i = (pc, p, l, lv)" by (metis prod_cases4)
  note N = good_networkD [OF assms(1,3)]
  let ?v = "next_vertex (env_of N i) p"
  note node = net_invD [OF assms(2,1,3) c]
  have inv: "dag_inv (crypt (env_of N i)) p (buffer p @ temp_list lv)" using node(1) N(2) by simp
  note p = node(4,5) and old = node(7)
  have cur: "cur_round p < last_round p" and wf: "wf_peer p"
    using assms(4) p inv by (simp_all add: c peer_of_def dag_inv_def)
  have "card (dag_image p ! nat (cur_round p - 1)) \<le> 398" if pos: "0 < cur_round p"
  proof -
    have "int (length (dag_image p)) = cur_round p" using wf cur by (simp add: wf_peer_def)
    with pos have "nat (cur_round p - 1) < length (dag_image p)" by linarith
    moreover have "filed (lib N) (authored N c) (dag_image p)" using node(2) by (simp add: stocked_def)
    ultimately have "dag_image p ! nat (cur_round p - 1) \<subseteq> round_keys N (nat (cur_round p - 1))"
      by (rule filed_round_keys [rotated])
    from card_mono [OF round_keys_card(1) this] round_keys_card(2) [of N "nat (cur_round p - 1)"]
    have "card (dag_image p ! nat (cur_round p - 1)) \<le> nodes N" by linarith
    with assms(1) show ?thesis by (simp add: good_network_def)
  qed
  with next_vertex_honest [OF inv N(3) _ cur] p N(1,2) assms(1)
  show "honest (horizon N) (next_vertex (env_of N i) (peer_of (c i)))"
    by (simp add: c peer_of_def good_network_def)
  note v = next_vertex_sel [OF wf cur, where E = "env_of N i"]
  show "known (c i) (vertex_hash (lib N) (next_vertex (env_of N i) (peer_of (c i)))) = None"
  proof (rule ccontr)
    assume "known (c i) (vertex_hash (lib N) (next_vertex (env_of N i) (peer_of (c i)))) \<noteq> None"
    then obtain w where w: "known (c i) (vertex_hash (lib N) ?v) = Some w" by (auto simp: c peer_of_def)
    note w = known_authored [OF assms(2,1,3) this]
    obtain j where j: "j < nodes N" "peer_id w = id_of N j" "sint (vround w) \<in> {1..horizon N}"
      "vertex_hash (lib N) w = hash_256 (lib N) (vertex_key (sint (vround w)) (id_of N j))"
      by (rule authored_cases [OF w(1) assms(2)]) (rule that)
    have "vertex_hash (lib N) ?v = hash_256 (lib N) (vertex_key (cur_round p + 1) (id_of N i))"
      using v(3) p(1) by (simp add: own_key_def)
    moreover have "cur_round p + 1 \<in> {1..horizon N}" using wf cur p by (simp add: wf_peer_def)
    ultimately have "sint (vround w) = cur_round p + 1 \<and> j = i"
      using key_inject [OF assms(1) j(1) assms(3) j(3), of "cur_round p + 1"] j(4) w(2) by simp
    with old w(1) j(2) show False by auto
  qed
qed

text \<open>What a validator makes is added to the vertices of the network.\<close>

lemma authored_step:
  assumes "good_network N" and "net_inv N c" and "i < nodes N"
    and "makes (env_of N i) W (peer_of (c i)) (peer_of t)" and "node (lib N) (W \<union> authored N c) t"
  shows "authored N (c(i := t)) = W \<union> authored N c"
proof
  have keep: "known t h = Some v" if "known (c i) h = Some v" for h v
  proof (cases "W = {}")
    case True
    with assms(4) that show ?thesis by (auto simp: makes_def known_def map_le_def dom_def)
  next
    case False
    with assms(4) have new: "W = {next_vertex (env_of N i) (peer_of (c i))}" "cur_round (peer_of (c i)) < last_round (peer_of (c i))"
      "known t = (known (c i))(vertex_hash (lib N) (next_vertex (env_of N i) (peer_of (c i))) \<mapsto> next_vertex (env_of N i) (peer_of (c i)))"
      using good_networkD(2) [OF assms(1,3)] by (auto simp: makes_def known_def)
    moreover have "last_round (peer_of (c i)) = horizon N" using assms(2,3) by (simp add: net_inv_def)
    ultimately show ?thesis using next_in_network(2) [OF assms(1-3)] that by auto
  qed
  show "authored N (c(i := t)) \<subseteq> W \<union> authored N c"
  proof
    fix v assume "v \<in> authored N (c(i := t))"
    then obtain j where j: "j < nodes N" "peer_id v = id_of N j" "known ((c(i := t)) j) (vertex_hash (lib N) v) = Some v"
      by (auto simp: authored_def)
    show "v \<in> W \<union> authored N c"
    proof (cases "j = i")
      case True
      with j(3) have "v \<in> ran (known t)" by (auto intro: ranI)
      moreover have "ran (known t) \<subseteq> W \<union> authored N c"
        using assms(5) by (cases t) (simp add: node_def stocked_def known_def peer_of_def)
      ultimately show ?thesis by blast
    qed (use j in \<open>auto simp: authored_def\<close>)
  qed
  show "W \<union> authored N c \<subseteq> authored N (c(i := t))"
  proof
    fix v assume "v \<in> W \<union> authored N c"
    then consider (new) "v \<in> W" | (old) "v \<in> authored N c" by blast
    then show "v \<in> authored N (c(i := t))"
    proof cases
      case new
      then have v: "v = next_vertex (env_of N i) (peer_of (c i))" "known t (vertex_hash (lib N) v) = Some v"
        using assms(4) good_networkD(2) [OF assms(1,3)] by (auto simp: makes_def known_def)
      moreover have "peer_id v = id_of N i"
        using assms(2,3) by (simp add: v net_inv_def next_vertex_def own_vertex_def Vertex_def)
      ultimately show ?thesis using assms(3) by (auto simp: authored_def)
    next
      case old
      then obtain j where "j < nodes N" "peer_id v = id_of N j" "known (c j) (vertex_hash (lib N) v) = Some v"
        by (auto simp: authored_def)
      with keep show ?thesis by (auto simp: authored_def intro!: exI [of _ j])
    qed
  qed
qed

lemma own_inv:
  assumes "good_network N" and "net_inv N c" and "i < nodes N"
    and "act (env_of N i) a (c i) t" and "timely a"
  shows "net_inv N (c(i := t)) \<and> authored N c \<subseteq> authored N (c(i := t))"
proof -
  let ?G = "authored N c" and ?p = "peer_of (c i)" and ?q = "peer_of t" and ?E = "env_of N i"
  note N = good_networkD [OF assms(1,3)]
  have inv: "validator_inv ?E (c i)" "node (lib N) ?G (c i)" "own_id ?p = id_of N i" "last_round ?p = horizon N"
    "\<forall>v \<in> ?G. honest (horizon N) v" "\<forall>v \<in> ?G. peer_id v = id_of N i \<longrightarrow> sint (vround v) \<le> cur_round ?p"
    "crowd ?p = int (nodes N)"
    using assms(2,3) by (simp_all add: net_inv_def)
  have next_ok: "cur_round ?p < last_round ?p \<Longrightarrow> honest (horizon N) (next_vertex ?E ?p)"
    using next_in_network(1) [OF assms(1-3)] inv(4) by simp
  obtain W where W: "node (lib N) (W \<union> ?G) t" "makes ?E W ?p ?q"
    using act_node [OF assms(4) _ inv(1) assms(5) inv(5)] inv(2) next_ok assms(1) N(2)
    by (auto simp: good_network_def peer_of_def)
  have G: "authored N (c(i := t)) = W \<union> ?G"
    by (rule authored_step [OF assms(1-3) W(2,1)])
  have wf: "wf_peer ?p"
    using inv(1) by (cases "c i") (simp add: validator_inv_def dag_inv_def peer_of_def)
  have new: "honest (horizon N) v \<and> peer_id v = id_of N i \<and> sint (vround v) = cur_round ?q \<and> 1 \<le> horizon N" if "v \<in> W" for v
  proof -
    from that W(2) have v: "v = next_vertex ?E ?p" "cur_round ?p < last_round ?p" "cur_round ?q = cur_round ?p + 1"
      by (auto simp: makes_def)
    with next_ok next_vertex_sel [OF wf v(2)] inv(3,4) wf show ?thesis by (simp add: wf_peer_def)
  qed
  have rounds: "\<forall>v \<in> W \<union> ?G. peer_id v = id_of N j \<longrightarrow> sint (vround v) \<le> cur_round (peer_of ((c(i := t)) j))" if j: "j < nodes N" for j
  proof (cases "j = i")
    case True
    have "cur_round ?p \<le> cur_round ?q" using W(2) by (auto simp: makes_def)
    with True new inv(6) show ?thesis by fastforce
  next
    case False
    have "peer_id v \<noteq> id_of N j" if "v \<in> W" for v
      using new [OF that] key_inject [OF assms(1) j assms(3), of 1 1] False by auto
    moreover have "\<forall>v \<in> ?G. peer_id v = id_of N j \<longrightarrow> sint (vround v) \<le> cur_round (peer_of (c j))"
      using assms(2) j by (simp add: net_inv_def)
    ultimately show ?thesis using False by auto
  qed
  have "validator_inv (env_of N j) ((c(i := t)) j) \<and> node (lib N) (W \<union> ?G) ((c(i := t)) j) \<and>
      own_id (peer_of ((c(i := t)) j)) = id_of N j \<and> last_round (peer_of ((c(i := t)) j)) = horizon N \<and>
      crowd (peer_of ((c(i := t)) j)) = int (nodes N)" if "j < nodes N" for j
  proof (cases "j = i")
    case True
    have "own_id ?q = own_id ?p" "last_round ?q = last_round ?p" "crowd ?q = crowd ?p" using W(2) by (simp_all add: makes_def)
    with True W(1) act_inv [OF assms(4) inv(1)] inv(3,4,7) show ?thesis by simp
  next
    case False
    with assms(2) that show ?thesis by (auto simp: net_inv_def intro: node_mono)
  qed
  with rounds new inv(5) show ?thesis unfolding net_inv_def G by blast
qed

lemma deliver_inv:
  assumes "net_inv N c" and "message (authored N c) m"
  shows "net_inv N (deliver to m c) \<and> authored N (deliver to m c) = authored N c"
proof -
  obtain j fd where to: "to = (j, fd)" by force
  obtain pc p l lv where c: "c j = (pc, p, l, lv)" by (metis prod_cases4)
  have eq: "deliver to m c = c(j := (pc, p, l, lv\<lparr>net := (net lv)(fd := net lv fd @ m)\<rparr>))"
    by (simp add: deliver_def to c)
  have peers: "peer_of (deliver to m c i) = peer_of (c i)" for i
    by (simp add: eq c peer_of_def)
  then have G: "authored N (deliver to m c) = authored N c"
    by (simp add: authored_def known_def)
  have "validator_inv (env_of N i) (deliver to m c i) \<and> node (lib N) (authored N c) (deliver to m c i)" if "i < nodes N" for i
  proof (cases "i = j")
    case True
    have "validator_inv (env_of N j) (pc, p, l, lv)" "node (lib N) (authored N c) (pc, p, l, lv)"
      using assms(1) that True by (simp_all add: net_inv_def flip: c)
    then show ?thesis
      using assms(2) by (simp add: eq True validator_inv_def node_def fed_def stream_append)
  next
    case False
    with assms(1) that show ?thesis by (simp add: eq net_inv_def)
  qed
  with assms(1) peers show ?thesis by (simp add: net_inv_def G)
qed

lemma net_step_inv:
  assumes "net_step N c c'" and "good_network N" and "net_inv N c"
  shows "net_inv N c' \<and> authored N c \<subseteq> authored N c'"
  using assms(1)
proof (cases rule: net_step.cases)
  case (own i a t)
  then show ?thesis using own_inv [OF assms(2,3)] by simp
next
  case (send i fd msg t d rs to)
  have one: "net_inv N (c(i := t))" "authored N c \<subseteq> authored N (c(i := t))"
    using own_inv [OF assms(2,3) send(2,3)] by simp_all
  have "message (authored N c) msg"
    using act_work_carries [OF send(3), of "lib N" "authored N c" "Sendn fd msg"] assms(3) send(2)
    by (simp add: net_inv_def)
  then have "message (authored N (c(i := t))) msg" by (rule message_mono [OF _ one(2)])
  from deliver_inv [OF one(1) this] one(2) show ?thesis by (simp add: send(1))
qed

lemma launched_node:
  assumes "launched s" and "\<forall>fd. net (snd (snd (snd s))) fd = []"
  shows "node C {} s"
  using assms
proof (induction rule: launched.induct)
  case (launch fd bound clock domain type protocol port listen n final fails p os port0 addresses q streams)
  have core: "same_core p q" "pool q = pool p" using setup_network_frame [OF launch(6)] by simp_all
  from launch(1) have "dag_image p = []" "vertex_map (server p) = Map.empty" "buffer p = []" "requests p = []"
    "pool p = Threadpool 160"
    by (auto simp: Peer_def Server_def bindR_Inr_iff split: if_splits)
  with core launch.prems show ?case
    by (simp add: node_def stocked_def fed_def filed_def outbox_def scan_init_def server_init_def Threadpool_def same_core_def)
qed

lemma launched_known: "launched s \<Longrightarrow> known s = Map.empty"
  using launched_ledger [of s] by (simp add: ledger_of_def known_def peer_of_def)

lemma starting_inv:
  assumes "starting N c" and "good_network N"
  shows "net_inv N c"
proof -
  have "authored N c = {}"
    using assms(1) launched_known by (auto simp: authored_def starting_def)
  moreover have "validator_inv (env_of N i) (c i) \<and> node (lib N) {} (c i)" if "i < nodes N" for i
    using assms(1) that launched_inv [of "c i" "env_of N i"] launched_node [of "c i"] good_networkD(3) [OF assms(2)]
    by (simp add: starting_def)
  ultimately show ?thesis using assms(1) by (simp add: net_inv_def starting_def)
qed

interpretation nets: step_invariant "net_step N" "\<lambda>c. good_network N \<and> net_inv N c \<and> G \<subseteq> authored N c" for N G
  by unfold_locales (use net_step_inv in blast)

lemma net_reachable:
  assumes "starting N c0" and "good_network N" and "(net_step N)\<^sup>*\<^sup>* c0 c"
  shows "net_inv N c"
  using nets.run_inv [OF assms(3), of "{}"] starting_inv [OF assms(1,2)] assms(2) by simp

end
