(* ===== verification/Agreement.thy ===== *)
theory Agreement
  imports Network
begin

text \<open>
  What the validators of a network have in common, whatever is lost, delayed or overtaken between
  them: authentic vertices, one vertex for each creator and round, DAGs that are closed under
  history and share quorums, and what a server takes from a connection.
\<close>

section \<open>Properties of the network\<close>

text \<open>
  C10. Authenticity: whatever is lost, delayed or overtaken, a vertex that a validator of the
  network has stored was made by the validator whose id it bears; that one has it in its own map,
  under its hash, and had reached its round.
\<close>

theorem network_authentic:
  assumes "good_network N" and "starting N c0" and "(net_step N)\<^sup>*\<^sup>* c0 c"
    and "i < nodes N" and "known (c i) h = Some v"
  shows "vertex_hash (lib N) v = h \<and> (\<exists>j < nodes N. peer_id v = id_of N j \<and> known (c j) h = Some v \<and>
    1 \<le> sint (vround v) \<and> sint (vround v) \<le> cur_round (peer_of (c j)))"
proof -
  have inv: "net_inv N c" by (rule net_reachable [OF assms(2,1,3)])
  note v = known_authored [OF inv assms(1,4,5)]
  obtain j where "j < nodes N" "peer_id v = id_of N j" "known (c j) (vertex_hash (lib N) v) = Some v"
    "sint (vround v) \<in> {1..horizon N}"
    by (rule authored_cases [OF v(1) inv]) (rule that)
  with v inv show ?thesis by (auto simp: net_inv_def)
qed

text \<open>
  C1. Agreement: two validators never store different vertices of the same creator and round, so
  not under the same hash either; and what is stored is agreed on for good.
\<close>

theorem network_agreement:
  assumes "good_network N" and "starting N c0" and "(net_step N)\<^sup>*\<^sup>* c0 c" and "(net_step N)\<^sup>*\<^sup>* c c'"
    and "i < nodes N" and "j < nodes N" and "known (c i) h = Some v" and "known (c' j) g = Some w"
    and "h = g \<or> vround v = vround w \<and> peer_id v = peer_id w"
  shows "v = w"
proof -
  have inv: "net_inv N c" by (rule net_reachable [OF assms(2,1,3)])
  then have inv': "net_inv N c'" "authored N c \<subseteq> authored N c'"
    using nets.run_inv [OF assms(4), of "authored N c"] assms(1) by simp_all
  note v = known_authored [OF inv assms(1,5,7)] and w = known_authored [OF inv'(1) assms(1,6,8)]
  have "vertex_hash (lib N) v = vertex_hash (lib N) w"
    using assms(9) v(2) w(2) by (auto simp: vertex_hash_def)
  with authored_inject [OF assms(1) inv'(1)] v(1) w(1) inv'(2) show ?thesis by blast
qed

section \<open>The DAGs of a network\<close>

lemma node_dag:
  assumes "good_network N" and "net_inv N c" and "i < nodes N"
  shows "supported (lib N) (peer_of (c i))" and "filed (lib N) (authored N c) (dag_image (peer_of (c i)))"
    and "wf_peer (peer_of (c i))" and "quorate (peer_of (c i))" and "all_alien (lib N) (peer_of (c i))"
proof -
  obtain pc p l lv where c: "c i = (pc, p, l, lv)" by (metis prod_cases4)
  note inv = net_invD [OF assms(2,1,3) c]
  from inv(1,2) show "supported (lib N) (peer_of (c i))" "wf_peer (peer_of (c i))" "quorate (peer_of (c i))"
    and filed: "filed (lib N) (authored N c) (dag_image (peer_of (c i)))"
    by (simp_all add: c dag_inv_def stocked_def peer_of_def)
  show "all_alien (lib N) (peer_of (c i))"
    unfolding all_alien_def alien_def c peer_of_def snd_conv fst_conv
  proof (intro allI impI ballI)
    fix k h r
    assume k: "k < length (dag_image p)" "h \<in> dag_image p ! k" and r: "r \<in> {1..last_round p}" "own_key (lib N) p r = h"
    with filed obtain v where v: "v \<in> authored N c" "vertex_hash (lib N) v = h" "sint (vround v) = int k + 1"
      unfolding filed_def c peer_of_def snd_conv fst_conv by blast
    obtain j where j: "j < nodes N" "peer_id v = id_of N j" "sint (vround v) \<in> {1..horizon N}"
      "vertex_hash (lib N) v = hash_256 (lib N) (vertex_key (sint (vround v)) (id_of N j))"
      by (rule authored_cases [OF v(1) assms(2)]) (rule that)
    show "r = int k + 1"
      using key_inject [OF assms(1,3) j(1) _ j(3), of r] r j(4) v(2,3) inv(4,5) by (simp add: own_key_def)
  qed
qed

text \<open>
  C3. Causal completeness in a network, without exceptions: every vertex in the DAG of a validator
  was made by a validator of the network for that round, both have it stored, and beyond the
  first round it names a quorum of different vertices, all of which are in the round before.
\<close>

theorem network_dag_sound:
  assumes "good_network N" and "starting N c0" and "(net_step N)\<^sup>*\<^sup>* c0 c" and "i < nodes N"
    and "k < length (dag_image (peer_of (c i)))" and "h \<in> dag_image (peer_of (c i)) ! k"
  shows "\<exists>v. \<exists>j < nodes N. known (c i) h = Some v \<and> known (c j) h = Some v \<and>
    peer_id v = id_of N j \<and> sint (vround v) = int k + 1 \<and> distinct (references v) \<and>
    (0 < k \<longrightarrow> set (references v) \<subseteq> dag_image (peer_of (c i)) ! (k - 1) \<and>
       majority (int (nodes N)) \<le> int (card (set (references v))))"
proof -
  have inv: "net_inv N c" by (rule net_reachable [OF assms(2,1,3)])
  note dag = node_dag [OF assms(1) inv assms(4)]
  have "vouched (lib N) (peer_of (c i)) k h"
    using dag(1,5) assms(5,6) by (simp add: supported_def all_alien_def)
  then obtain v where v: "known (c i) h = Some v" "sint (vround v) = int k + 1"
    "0 < k \<longrightarrow> set (references v) \<subseteq> dag_image (peer_of (c i)) ! (k - 1) \<and>
       majority (int (nodes N)) \<le> int (length (references v))"
    using inv assms(4) by (auto simp: vouched_def known_def net_inv_def)
  note G = known_authored [OF inv assms(1,4) v(1)]
  obtain j where "j < nodes N" "peer_id v = id_of N j" "known (c j) (vertex_hash (lib N) v) = Some v"
    by (rule authored_cases [OF G(1) inv]) (rule that)
  moreover have "distinct (references v)"
    using G(1) inv by (simp add: net_inv_def honest_def)
  ultimately show ?thesis
    using v G(2) by (auto simp: distinct_card)
qed

text \<open>
  C2. Common history in a network: a vertex that two validators have in their DAGs is in the same
  round of both and has the same history in both, which is in both DAGs. No condition is left:
  nothing has to be assumed of the vertices that they store.
\<close>

theorem network_common_history:
  assumes "good_network N" and "starting N c0" and "(net_step N)\<^sup>*\<^sup>* c0 c" and "i < nodes N" and "j < nodes N"
    and "a < length (dag_image (peer_of (c i)))" and "h \<in> dag_image (peer_of (c i)) ! a"
    and "b < length (dag_image (peer_of (c j)))" and "h \<in> dag_image (peer_of (c j)) ! b"
  shows "a = b \<and> (\<forall>g. ancestor (known (c i)) h g \<longleftrightarrow> ancestor (known (c j)) h g) \<and>
    (\<forall>g. ancestor (known (c i)) h g \<longrightarrow> (\<exists>k \<le> a. g \<in> dag_image (peer_of (c i)) ! k \<and> g \<in> dag_image (peer_of (c j)) ! k))"
proof -
  let ?p = "peer_of (c i)" and ?q = "peer_of (c j)"
  have inv: "net_inv N c" by (rule net_reachable [OF assms(2,1,3)])
  note p = node_dag [OF assms(1) inv assms(4)] and q = node_dag [OF assms(1) inv assms(5)]
  have same: "\<forall>g \<in> \<Union> (set (dag_image ?p)) \<inter> \<Union> (set (dag_image ?q)). vertex_map (server ?p) g = vertex_map (server ?q) g"
  proof
    fix g assume "g \<in> \<Union> (set (dag_image ?p)) \<inter> \<Union> (set (dag_image ?q))"
    then obtain k k' where k: "k < length (dag_image ?p)" "g \<in> dag_image ?p ! k" "k' < length (dag_image ?q)" "g \<in> dag_image ?q ! k'"
      by (auto simp: in_set_conv_nth)
    from in_dag_vouched [OF p(1,5) k(1,2)] obtain v where v: "known (c i) g = Some v" by (auto simp: known_def)
    from in_dag_vouched [OF q(1,5) k(3,4)] obtain w where w: "known (c j) g = Some w" by (auto simp: known_def)
    have "v = w"
      using authored_inject [OF assms(1) inv] known_authored [OF inv assms(1,4) v] known_authored [OF inv assms(1,5) w] by metis
    with v w show "vertex_map (server ?p) g = vertex_map (server ?q) g" by (simp add: known_def)
  qed
  then have sym: "\<forall>g \<in> \<Union> (set (dag_image ?q)) \<inter> \<Union> (set (dag_image ?p)). vertex_map (server ?q) g = vertex_map (server ?p) g"
    by auto
  obtain v where v: "vertex_map (server ?p) h = Some v" "sint (vround v) = int a + 1"
    using in_dag_vouched [OF p(1,5) assms(6,7)] by blast
  obtain w where w: "vertex_map (server ?q) h = Some w" "sint (vround w) = int b + 1"
    using in_dag_vouched [OF q(1,5) assms(8,9)] by blast
  have "h \<in> \<Union> (set (dag_image ?p)) \<inter> \<Union> (set (dag_image ?q))"
    using assms(6-9) nth_mem by blast
  with same v w have ab: "a = b" by simp
  show ?thesis
    unfolding known_def
    using ab ancestor_shared [OF _ p(1,5) q(1,5) same assms(6), of h] ancestor_shared [OF _ q(1,5) p(1,5) sym assms(8), of h] assms(6-9)
    by blast
qed

text \<open>
  C15. Shared quorums: for any number \<open>n\<close> of validators, any two of them that have left a round
  have at least \<open>2 q - n\<close> vertices of that round in common, where \<open>q\<close> is the quorum of the code;
  if \<open>n = 3 f + 1\<close> these are \<open>f + 1\<close>, so one of a correct validator. Neither has more vertices
  of a round than there are validators. (For other \<open>n\<close> the bound may be nothing at all: see
  \<open>quorums_may_be_disjoint\<close>.)
\<close>

theorem network_quorums_meet:
  assumes "good_network N" and "starting N c0" and "(net_step N)\<^sup>*\<^sup>* c0 c" and "i < nodes N" and "j < nodes N"
    and "int k + 1 < cur_round (peer_of (c i))" and "int k + 1 < cur_round (peer_of (c j))"
    and "A = dag_image (peer_of (c i)) ! k" and "B = dag_image (peer_of (c j)) ! k"
  shows "2 * majority (int (nodes N)) \<le> int (card (A \<inter> B)) + int (nodes N) \<and>
    (int (nodes N) = 3 * max_byzantines (int (nodes N)) + 1 \<longrightarrow> max_byzantines (int (nodes N)) + 1 \<le> int (card (A \<inter> B))) \<and>
    card A \<le> nodes N"
proof -
  have inv: "net_inv N c" by (rule net_reachable [OF assms(2,1,3)])
  have quorum: "dag_image (peer_of (c m)) ! k \<subseteq> round_keys N k \<and>
      majority (int (nodes N)) \<le> int (card (dag_image (peer_of (c m)) ! k))"
    if "m < nodes N" and left: "int k + 1 < cur_round (peer_of (c m))" for m
  proof -
    note dag = node_dag [OF assms(1) inv that(1)]
    have "int k < int (length (dag_image (peer_of (c m))))" using dag(3) left unfolding wf_peer_def by linarith
    then have "k < length (dag_image (peer_of (c m)))" by simp
    moreover have "crowd (peer_of (c m)) = int (nodes N)" using inv that(1) by (simp add: net_inv_def)
    ultimately show ?thesis
      using dag(4) left filed_round_keys [OF dag(2)] by (simp add: quorate_def)
  qed
  have "nodes N \<le> 398" using assms(1) by (simp add: good_network_def)
  then have size: "1 \<le> int (nodes N)" "int (nodes N) < 2 ^ 31" using assms(4) by simp_all
  have "2 * majority (int (nodes N)) \<le> int (card (A \<inter> B)) + int (nodes N)"
    using quorum [OF assms(4,6)] quorum [OF assms(5,7)] round_keys_card [of N k] assms(8,9)
    by (intro quorum_overlap_any [of "round_keys N k"]) auto
  moreover have "card A \<le> card (round_keys N k)"
    using quorum [OF assms(4,6)] round_keys_card(1) assms(8) by (intro card_mono) auto
  ultimately show ?thesis
    using round_keys_card(2) [of N k] quorum_size [OF size] by linarith
qed

section \<open>Connections\<close>

text \<open>The server of a validator refuses no vertex of the network.\<close>

lemma authored_admissible:
  assumes "good_network N" and "net_inv N c" and "v \<in> authored N c"
  shows "admissible (majority (int (nodes N))) v"
proof -
  obtain j where j: "j < nodes N" "known (c j) (vertex_hash (lib N) v) = Some v"
    by (rule authored_cases [OF assms(3,2)]) (rule that)
  obtain pc p l lv where c: "c j = (pc, p, l, lv)" by (metis prod_cases4)
  let ?h = "vertex_hash (lib N) v"
  note node = net_invD [OF assms(2,1) j(1) c]
  note dag = node_dag [OF assms(1,2) j(1), unfolded c peer_of_def snd_conv fst_conv]
  have v: "vertex_map (server p) ?h = Some v" using j(2) by (simp add: c known_def peer_of_def)
  then have "?h \<in> vertex_hash (lib N) ` (set (buffer p) \<union> set (temp_list lv)) \<union> \<Union> (set (dag_image p))"
    using node(1) by (auto simp: dag_inv_def conserved_def)
  then consider (waits) w where "w \<in> set (buffer p) \<union> set (temp_list lv)" "?h = vertex_hash (lib N) w"
    | (filed) D where "D \<in> set (dag_image p)" "?h \<in> D"
    by blast
  then show ?thesis
  proof cases
    case waits
    then have "w \<in> authored N c" using node(2,3) by (auto simp: stocked_def fed_def)
    with authored_inject [OF assms(1,2) _ assms(3)] waits(2) have "w = v" by simp
    with waits(1) node(1,6) show ?thesis by (auto simp: dag_inv_def waiting_ok_def)
  next
    case filed
    then obtain k where "k < length (dag_image p)" "?h \<in> dag_image p ! k" by (auto simp: in_set_conv_nth)
    then have "vouched (lib N) p k ?h" using dag(1,5) by (simp add: supported_def all_alien_def)
    with v have round: "sint (vround v) = int k + 1" and refs: "0 < k \<longrightarrow> majority (crowd p) \<le> int (length (references v))"
      by (auto simp: vouched_def)
    show ?thesis
    proof (cases "k = 0")
      case True
      with round have "sint (vround v) = sint (1 :: i32)" by simp
      then show ?thesis by (auto simp: admissible_def intro: signed_word_eqI)
    qed (use refs node(6) in \<open>simp add: admissible_def\<close>)
  qed
qed

lemma admit_stores:
  assumes "foldl (admit C maj) (s, l) vs = (s', l')" and "v \<in> set vs" and "admissible maj v"
  shows "vertex_hash C v \<in> dom (vertex_map s')"
  using assms(1,2)
proof (induction vs arbitrary: s l)
  case (Cons w vs)
  obtain s1 l1 where one: "admit C maj (s, l) w = (s1, l1)" by force
  then have rest: "foldl (admit C maj) (s1, l1) vs = (s', l')" using Cons.prems(1) by simp
  show ?case
  proof (cases "w = v")
    case True
    with one assms(3) have "vertex_hash C v \<in> dom (vertex_map s1)"
      by (auto simp: admit_def umap_insert_def split: if_splits)
    moreover have "dom (vertex_map s1) \<subseteq> dom (vertex_map s')"
      using admit_all_grows [of C maj "(s1, l1)" vs] by (auto simp: rest grows_def)
    ultimately show ?thesis by blast
  next
    case False
    with Cons.prems(2) Cons.IH [OF rest] show ?thesis by simp
  qed
qed simp

text \<open>What a server takes from a connection on which there are whole messages.\<close>

lemma network_takes_message:
  assumes "good_network N" and "starting N c0" and "(net_step N)\<^sup>*\<^sup>* c0 c" and "i < nodes N" and "c i = (pc, p, l, lv)"
    and "ev_events e AND EPOLLIN = EPOLLIN" and "ev_fd e \<noteq> s_socket (server p)"
    and "ev_arrived e = Arrived k" and "4 \<le> k" and "net lv (ev_fd e) \<noteq> []"
  shows "\<exists>s lv' rest. handle_event (lib N) (majority (crowd p)) e (server p, lv) = Some (Inr (s, lv')) \<and>
    net lv' = (net lv)(ev_fd e := rest) \<and>
    ((\<exists>vs. vs \<noteq> [] \<and> net lv (ev_fd e) = packet_of vs @ rest \<and>
        (\<forall>v \<in> set vs. vertex_map s (vertex_hash (lib N) v) = Some v)) \<or>
     (\<exists>h pid. net lv (ev_fd e) = request_msg h pid @ rest \<and> s = server p \<and>
        (\<forall>v. known (c i) h = Some v \<longrightarrow> (pid, v) \<in> set (temp_request_list lv'))))"
proof -
  have inv: "net_inv N c" by (rule net_reachable [OF assms(2,1,3)])
  note node = net_invD [OF inv assms(1,4,5)]
  let ?G = "authored N c" and ?C = "lib N" and ?maj = "majority (crowd p)"
  have honest: "\<forall>v \<in> ?G. honest (horizon N) v" and final: "horizon N < 8960"
    using inv assms(1) by (simp_all add: net_inv_def good_network_def)
  have str: "stream ?G (net lv (ev_fd e))" using node(3) by (simp add: fed_def)
  from str assms(10) honest final assms(6-9) show ?thesis
  proof (rule event_takes_message [where C = ?C and maj = ?maj])
    fix vs rest bytes
    let ?l = "lv\<lparr>bytes_to_recv := bytes, net := (net lv)(ev_fd e := rest)\<rparr>"
    assume vs: "vs \<noteq> []" "set vs \<subseteq> ?G" "net lv (ev_fd e) = packet_of vs @ rest"
      and event: "handle_event ?C ?maj e (server p, lv) = Some (Inr (foldl (admit ?C ?maj) (server p, ?l) vs))"
    obtain s lv' where fold: "foldl (admit ?C ?maj) (server p, ?l) vs = (s, lv')" by force
    note within = admit_within [OF fold]
    have keyed: "keyed ?C s"
      using grows_keyed [OF event_grows [OF event]] node(1) by (simp add: fold dag_inv_def)
    have ran: "ran (vertex_map s) \<subseteq> ?G"
      using within vs(2) node(3) by (auto simp: fed_def)
    have stored: "vertex_map s (vertex_hash ?C v) = Some v" if "v \<in> set vs" for v
    proof -
      have "vertex_hash ?C v \<in> dom (vertex_map s)"
        using admit_stores [OF fold that] authored_admissible [OF assms(1) inv] vs(2) that node(6) by auto
      then obtain w where w: "vertex_map s (vertex_hash ?C v) = Some w" by blast
      then have "w \<in> ?G" using ran by (auto intro: ranI)
      moreover have "vertex_hash ?C w = vertex_hash ?C v" using w keyed by (simp add: keyed_def)
      ultimately show ?thesis using w that vs(2) authored_inject [OF assms(1) inv] by blast
    qed
    with within vs event fold show ?thesis
      by (intro exI [of _ s] exI [of _ lv'] exI [of _ rest]) auto
  next
    fix h pid rest
    assume "net lv (ev_fd e) = request_msg h pid @ rest"
      and "handle_event ?C ?maj e (server p, lv) = Some (Inr (server p, lv\<lparr>net := (net lv)(ev_fd e := rest),
        temp_request_list := (case vertex_map (server p) h of Some v \<Rightarrow> (pid, v) # temp_request_list lv | None \<Rightarrow> temp_request_list lv)\<rparr>))"
    then show ?thesis
      by (intro exI [of _ "server p"] exI conjI disjI2) (auto simp: known_def peer_of_def assms(5))
  qed
qed

lemma short_peek_hangs:
  assumes "vs \<noteq> []" and "wire_length vs < 2 ^ 24" and "net l (ev_fd e) = packet_of vs @ rest"
    and "ev_events e AND EPOLLIN = EPOLLIN" and "ev_fd e \<noteq> s_socket s" and "ev_arrived e = Arrived 1"
  shows "handle_event C maj e (s, l) = None"
proof -
  have "be_enc 4 (wire_length vs) = NUL # be_enc 3 (wire_length vs)"
    using be_enc_Suc_Cons [of 3 "wire_length vs"] assms(2) by simp
  then have "\<exists>s'. packet_of vs = NUL # s'"
    by (simp add: packet_of_def Let_def flip: wire_length_def)
  then have "peeked (ev_arrived e) (net l (ev_fd e)) = Some [NUL]"
    using assms(3,6) by (auto simp: MAX_STREAM_SIZE_def)
  then have "examine_msg (peeked (ev_arrived e) (net l (ev_fd e))) (bytes_to_recv l) = Inr (REG_MSG, replicate 4 NUL)"
    by (simp add: examine_msg_def PREFIX_def NUL_def numeral_eq_Suc)
  then show ?thesis
    using assms(4-6) by (simp add: handle_event_def handle_vertices_def c_recvn_zero_length_diverges Let_def)
qed

text \<open>
  C11. Connections of a network in which every message is put on its connection whole (so not
  those of \<open>interleaved_packets_hang\<close>): if the peek of an event sees at least four bytes, the
  server neither fails nor hangs; it takes off exactly one message, whole, and either stores
  every vertex of a packet or, for a request, keeps the vertex that is asked for, if it has it,
  to be sent. But if the peek sees only the first byte of a packet, the length that the server
  reads is zero and the call never comes back.
\<close>

theorem network_reads_message:
  assumes "good_network N" and "starting N c0" and "(net_step N)\<^sup>*\<^sup>* c0 c" and "i < nodes N" and "c i = (pc, p, l, lv)"
    and "ev_events e AND EPOLLIN = EPOLLIN" and "ev_fd e \<noteq> s_socket (server p)"
    and "ev_arrived e = Arrived k" and "net lv (ev_fd e) \<noteq> []"
  shows "(4 \<le> k \<longrightarrow> (\<exists>s lv' rest. handle_event (lib N) (majority (crowd p)) e (server p, lv) = Some (Inr (s, lv')) \<and>
    net lv' = (net lv)(ev_fd e := rest) \<and>
    ((\<exists>vs. vs \<noteq> [] \<and> net lv (ev_fd e) = packet_of vs @ rest \<and>
        (\<forall>v \<in> set vs. vertex_map s (vertex_hash (lib N) v) = Some v)) \<or>
     (\<exists>h pid. net lv (ev_fd e) = request_msg h pid @ rest \<and> s = server p \<and>
        (\<forall>v. known (c i) h = Some v \<longrightarrow> (pid, v) \<in> set (temp_request_list lv')))))) \<and>
    (k = 1 \<and> hd (net lv (ev_fd e)) \<noteq> PREFIX \<longrightarrow>
      handle_event (lib N) (majority (crowd p)) e (server p, lv) = None)"
proof (intro conjI impI)
  assume "4 \<le> k"
  then show "\<exists>s lv' rest. handle_event (lib N) (majority (crowd p)) e (server p, lv) = Some (Inr (s, lv')) \<and>
    net lv' = (net lv)(ev_fd e := rest) \<and>
    ((\<exists>vs. vs \<noteq> [] \<and> net lv (ev_fd e) = packet_of vs @ rest \<and>
        (\<forall>v \<in> set vs. vertex_map s (vertex_hash (lib N) v) = Some v)) \<or>
     (\<exists>h pid. net lv (ev_fd e) = request_msg h pid @ rest \<and> s = server p \<and>
        (\<forall>v. known (c i) h = Some v \<longrightarrow> (pid, v) \<in> set (temp_request_list lv'))))"
    using network_takes_message [OF assms(1-8) _ assms(9)] by blast
next
  assume k: "k = 1 \<and> hd (net lv (ev_fd e)) \<noteq> PREFIX"
  have "net_inv N c" by (rule net_reachable [OF assms(2,1,3)])
  from net_invD(3) [OF this assms(1,4,5)] have "stream (authored N c) (net lv (ev_fd e))" by (simp add: fed_def)
  then show "handle_event (lib N) (majority (crowd p)) e (server p, lv) = None"
    using assms(9)
  proof (cases rule: stream_cases)
    case (packet vs rest)
    then have "wire_length vs < 2 ^ 24" by (simp add: MAX_STREAM_SIZE_def)
    with packet k assms(6-8) show ?thesis by (intro short_peek_hangs [of vs]) simp_all
  next
    case (request h pid rest)
    with k show ?thesis by (simp add: request_msg_def)
  qed
qed

section \<open>A creator that does not keep to the protocol\<close>

lemma first_version_stays:
  assumes "admissible maj v" and "vertex_hash C v \<notin> dom (vertex_map s)"
  shows "vertex_map (fst (foldl (admit C maj) (s, l) (v # vs))) (vertex_hash C v) = Some v"
proof -
  obtain s1 l1 where one: "admit C maj (s, l) v = (s1, l1)" by force
  then have "vertex_map s1 (vertex_hash C v) = Some v" using admit_fresh [OF assms] by auto
  moreover have "vertex_map s1 \<subseteq>\<^sub>m vertex_map (fst (foldl (admit C maj) (s1, l1) vs))"
    using admit_all_grows [of C maj "(s1, l1)" vs] by (auto simp: grows_def)
  ultimately show ?thesis unfolding map_le_def foldl_Cons one by (metis domI)
qed

text \<open>
  Agreement is lost as soon as one creator sends two versions of a vertex: nothing compares them,
  and each server keeps the version that it has received first, whatever it receives later.
\<close>

theorem equivocation_splits:
  assumes "admissible maj v" and "admissible maj w" and "vertex_hash C v = vertex_hash C w"
    and "vertex_hash C v \<notin> dom (vertex_map s)" and "vertex_hash C v \<notin> dom (vertex_map s')"
  shows "vertex_map (fst (foldl (admit C maj) (s, l) (v # vs))) (vertex_hash C v) = Some v \<and>
    vertex_map (fst (foldl (admit C maj) (s', l') (w # ws))) (vertex_hash C v) = Some w"
  using first_version_stays [OF assms(1,4)] first_version_stays [of maj w C s' l' ws] assms by simp

theorem equivocation_splits_witness:
  "\<exists>(s :: server) (s' :: server). vertex_map s (vertex_hash demo_crypto (Vertex 1 18 ''a'')) = Some (Vertex 1 18 ''a'') \<and>
     vertex_map s' (vertex_hash demo_crypto (Vertex 1 18 ''a'')) = Some (Vertex 1 18 ''b'')"
proof -
  fix l
  have "admissible 3 (Vertex 1 18 ''a'')" "admissible 3 (Vertex 1 18 ''b'')"
    "vertex_hash demo_crypto (Vertex 1 18 ''a'') = vertex_hash demo_crypto (Vertex 1 18 ''b'')"
    "vertex_hash demo_crypto (Vertex 1 18 ''a'') \<notin> dom (vertex_map (fst (demo_server [])))"
    by (simp_all add: admissible_def Vertex_def vertex_hash_def demo_server_def)
  from equivocation_splits [where l = l and l' = l and vs = "[]" and ws = "[]", OF this this(4)] show ?thesis by fast
qed

end
