(* ===== verification/Network_Run.thy ===== *)
theory Network_Run
  imports Agreement
begin

text \<open>
  A network of four validators for the witnesses: the first proposes its vertex of round 1, a
  worker sends it, and it arrives at the second.
\<close>

section \<open>The hash functions of the witnesses tell vertices apart\<close>

lemma hex_byte_inject: "hex_byte c = hex_byte d \<longleftrightarrow> c = d"
proof
  assume eq: "hex_byte c = hex_byte d"
  let ?m = "of_char c :: nat" and ?n = "of_char d :: nat"
  have digits: "distinct hex_digits" "length hex_digits = 16" by (simp_all add: hex_digits_def)
  have "?m < 256" "?n < 256" by (rule nat_of_char_less_256)+
  then have "?m div 16 < 16" "?n div 16 < 16" by (simp_all add: div_less_iff_less_mult)
  then have "?m div 16 = ?n div 16" "?m mod 16 = ?n mod 16"
    using eq digits by (simp_all add: hex_byte_def nth_eq_iff_index_eq)
  then have "?m = ?n" by (metis div_mult_mod_eq)
  then show "c = d" by simp
qed simp

lemma demo_hash_inject:
  assumes "hash_256 demo_crypto x = hash_256 demo_crypto y"
    and "NUL \<notin> set x" and "NUL \<notin> set y" and "length x \<le> 32" and "length y \<le> 32"
  shows "x = y"
proof -
  let ?pad = "\<lambda>x. take 32 (x @ replicate 32 NUL)"
  have "concat (map hex_byte (?pad x)) = concat (map hex_byte (?pad y))"
    using assms(1) by (simp add: hash_256_def demo_crypto_def Let_def)
  then have "map hex_byte (?pad x) = map hex_byte (?pad y)"
    by (intro concat_inject_uniform [of _ _ 2]) (auto simp: hex_byte_def)
  then have "?pad x = ?pad y"
    by (simp only: inj_map_eq_map [OF injI [OF hex_byte_inject [THEN iffD1]]])
  then have pad: "x @ replicate (32 - length x) NUL = y @ replicate (32 - length y) NUL"
    using assms(4,5) by (simp add: min_def)
  have strip: "takeWhile (\<lambda>c. c \<noteq> NUL) (z @ replicate k NUL) = z" if "NUL \<notin> set z" for z k
  proof -
    have "takeWhile (\<lambda>c. c \<noteq> NUL) (z @ replicate k NUL) = z @ takeWhile (\<lambda>c. c \<noteq> NUL) (replicate k NUL)"
      using that by (intro takeWhile_append2) auto
    then show ?thesis by (cases k) simp_all
  qed
  have "x = takeWhile (\<lambda>c. c \<noteq> NUL) (x @ replicate (32 - length x) NUL)" by (simp only: strip [OF assms(2)])
  also have "\<dots> = y" unfolding pad by (rule strip [OF assms(3)])
  finally show ?thesis .
qed

lemma NUL_to_string: "NUL \<notin> set (to_string i)"
  using dec_digits_no [of NUL] by (simp add: to_string_def NUL_def)

lemma demo_key_inject:
  assumes "hash_256 demo_crypto (vertex_key r x) = hash_256 demo_crypto (vertex_key r' y)"
    and "length (to_string (uint x)) = length (to_string (uint y))"
    and "r \<in> {0..<2 ^ 31}" and "r' \<in> {0..<2 ^ 31}"
  shows "r = r' \<and> x = y"
proof -
  have "length (vertex_key s z) \<le> 32" if "s \<in> {0..<2 ^ 31}" for s z
    using that length_round_text [of s] length_id_text [of z] by (simp add: vertex_key_def)
  moreover have "NUL \<notin> set (vertex_key s z)" for s z
    by (simp add: vertex_key_def NUL_to_string)
  ultimately have "vertex_key r x = vertex_key r' y"
    using assms(1,3,4) demo_hash_inject by blast
  then have "to_string r = to_string r'" "to_string (uint x) = to_string (uint y)"
    using assms(2) by (auto simp: vertex_key_def)
  then show ?thesis by (simp add: word_uint_eq_iff)
qed

section \<open>Four validators\<close>

definition member :: "u64 \<Rightarrow> peer" where
  "member k = first_peer\<lparr>own_id := k, known_peers := [(''a'', 5000)],
     client := (Client 2 1 6 20)\<lparr>c_sockets := [5], socket_map := [18 \<mapsto> 5], peers := [18]\<rparr>\<rparr>"

definition demo_start :: config where
  "demo_start i = (let p = member (17 + of_nat i) in (Top, p, scan_init p, server_init (server p) (\<lambda>_. [])))"

definition demo_network :: network where
  "demo_network = \<lparr>nodes = 4, env_of = (\<lambda>_. demo_env), id_of = (\<lambda>i. 17 + of_nat i), lib = demo_crypto, horizon = 20,
     link = (\<lambda>i fd. if fd = 5 then Some (1, 9) else None)\<rparr>"

lemma member_sel [simp]:
  "cur_round (member k) = 0" "crowd (member k) = 4" "last_round (member k) = 20" "own_id (member k) = k"
  "dag_image (member k) = []" "pool (member k) = Threadpool 160" "vertex_map (server (member k)) = Map.empty"
  "c_sockets (client (member k)) = [5]"
  by (simp_all add: member_def first_peer_sel)

lemma launched_member: "launched (Top, member k, scan_init (member k), server_init (server (member k)) streams)"
proof -
  let ?p = "first_peer\<lparr>own_id := k\<rparr>" and ?a = "(''a'', 5000) :: string \<times> int"
  have p: "Peer 4 0 k 2 1 6 4999 1024 4 20 False = Inr ?p"
    by (simp add: first_peer_def Peer_def Server_def c_socket_def)
  have "good_address ?a" by (simp add: good_address_def isspace_def)
  from read_line_address [OF this] have "read_addresses 4999 [address_line ?a] ([], 0) = [?a]" by simp
  moreover have "getport (server ?p) = 4999"
    by (simp add: getport_def first_peer_def Peer_def Server_def c_socket_def)
  ultimately have "setup_network (\<lambda>_. \<lparr>conn_socket = 5, conn_connect = 0, conn_value = 18\<rparr>) 0 (Some [address_line ?a]) ?p = Inr (member k)"
    by (simp add: setup_network_def connect_to_def first_peer_sel member_def Client_def c_socket_def c_connect_def)
  from launch [OF p _ _ _ _ this] show ?thesis by simp
qed

lemma demo_ids:
  assumes "i < 4"
  shows "length (to_string (uint (17 + of_nat i :: u64))) = 2" and "plain_id (17 + of_nat i)"
    and "j < 4 \<Longrightarrow> (17 + of_nat i :: u64) = 17 + of_nat j \<Longrightarrow> i = j"
proof -
  have cases: "n < 4 \<Longrightarrow> n = 0 \<or> n = 1 \<or> n = 2 \<or> n = 3" for n :: nat by arith
  from cases [OF assms] show "length (to_string (uint (17 + of_nat i :: u64))) = 2"
    by (auto simp: to_string_def dec_digits.simps)
  have "plain_id 17" "plain_id 18" "plain_id 19" "plain_id 20" by code_simp+
  with cases [OF assms] show "plain_id (17 + of_nat i)" by auto
  show "j < 4 \<Longrightarrow> (17 + of_nat i :: u64) = 17 + of_nat j \<Longrightarrow> i = j"
    using cases [OF assms] cases [of j] by auto
qed

lemma good_demo_network: "good_network demo_network"
proof -
  have "inj_on (\<lambda>(r, i). hash_256 demo_crypto (vertex_key r (17 + of_nat i))) ({1..20} \<times> {..<4 :: nat})"
  proof (intro inj_onI)
    fix x y :: "int \<times> nat"
    assume x: "x \<in> {1..20} \<times> {..<4}" and y: "y \<in> {1..20} \<times> {..<4}"
      and eq: "(case x of (r, i) \<Rightarrow> hash_256 demo_crypto (vertex_key r (17 + of_nat i))) =
        (case y of (r, i) \<Rightarrow> hash_256 demo_crypto (vertex_key r (17 + of_nat i)))"
    obtain r i s j where xy: "x = (r, i)" "y = (s, j)" by force
    have "r = s \<and> (17 + of_nat i :: u64) = 17 + of_nat j"
      using eq x y demo_ids(1) by (intro demo_key_inject) (auto simp: xy)
    with demo_ids(3) x y show "x = y" by (simp add: xy)
  qed
  then show ?thesis
    using demo_ids(2) demo_env_ok by (simp add: good_network_def demo_network_def demo_env_def)
qed

lemma starting_demo: "starting demo_network demo_start"
  by (simp add: starting_def demo_network_def demo_start_def Let_def peer_of_def server_init_def launched_member [unfolded server_init_def])

section \<open>A vertex on its way\<close>

definition demo_sent :: vertex where
  "demo_sent = next_vertex demo_env (member 17)"

text \<open>The first validator after its proposal.\<close>

definition proposer :: peer where
  "proposer = (proposed demo_env ((member 17)\<lparr>cur_round := 1\<rparr>))
     \<lparr>pool := (Threadpool 160)\<lparr>task_queue := [Sendn 5 (packet_of [demo_sent])]\<rparr>\<rparr>"

definition demo_lv :: server_vars where
  "demo_lv = server_init (server (member 17)) (\<lambda>_. [])"

definition awake :: "task pool \<Rightarrow> validator" where
  "awake pl = (Asleep, proposer\<lparr>server := set_thread_ready True (server proposer), pool := pl\<rparr>,
     (scan_init (member 17))\<lparr>need_help := False\<rparr>, demo_lv)"

text \<open>The first turn of any validator of the witnesses.\<close>

lemma first_move:
  assumes "cur_round p = 0" and "dag_image p = []" and "1 \<le> last_round p" and "int (length (c_sockets (client p))) \<le> crowd p - 1"
  shows "move_round demo_env 0 (p, l) = Inr ((proposed demo_env (p\<lparr>cur_round := 1\<rparr>))\<lparr>pool := (pool p)
    \<lparr>task_queue := task_queue (pool p) @ map (\<lambda>s. Sendn s (packet_of [next_vertex demo_env p])) (c_sockets (client p))\<rparr>\<rparr>,
    l\<lparr>need_help := False\<rparr>)"
proof -
  let ?p = "p\<lparr>cur_round := 1\<rparr>"
  have v: "own_vertex demo_env (?p\<lparr>dag_image := dag_image ?p @ [{}]\<rparr>) = next_vertex demo_env p"
    by (simp add: next_vertex_def assms)
  have "sendable (next_vertex demo_env p)"
    unfolding next_vertex_def
    by (rule own_vertex_sendable) (simp_all add: demo_env_ok assms)
  then have "propose demo_env ?p = Inr ((proposed demo_env ?p)\<lparr>pool := (pool p)
    \<lparr>task_queue := task_queue (pool p) @ map (\<lambda>s. Sendn s (packet_of [next_vertex demo_env p])) (c_sockets (client p))\<rparr>\<rparr>)"
    using propose_eq [of ?p demo_env] v assms by simp
  then show ?thesis
    using assms by (simp add: move_round_def can_advance_def advance_def wave_work_def WAVE_def HALF_WAVE_def Let_def)
qed

lemma demo_move: "act demo_env Turn (demo_start 0) (awake (pool proposer))"
proof -
  have "move_round demo_env 0 (member 17, scan_init (member 17)) = Inr (proposer, (scan_init (member 17))\<lparr>need_help := False\<rparr>)"
    using first_move [of "member 17"] by (simp add: proposer_def demo_sent_def Threadpool_def)
  moreover have "proposer\<lparr>server := s, pool := pool proposer\<rparr> = proposer\<lparr>server := s\<rparr>" for s
    by (rule peer.equality) simp_all
  ultimately show ?thesis
    using act.round [of demo_env 0 "member 17" _ proposer _ demo_lv] by (simp add: awake_def demo_start_def demo_lv_def Let_def)
qed

lemma demo_known: "known (awake pl) = [vertex_hash demo_crypto demo_sent \<mapsto> demo_sent]"
  by (simp add: known_def peer_of_def awake_def proposer_def proposed_def Let_def set_thread_ready_def
      add_to_map_def umap_insert_def demo_env_def demo_sent_def next_vertex_def)

lemma demo_dag: "dag_image (peer_of (awake pl)) = [{vertex_hash demo_crypto demo_sent}]"
  by (simp add: peer_of_def awake_def proposer_def proposed_def Let_def demo_env_def demo_sent_def next_vertex_def)

lemma demo_first: "(net_step demo_network)\<^sup>*\<^sup>* demo_start (demo_start(0 := awake (pool proposer)))"
  using net_step.own [of 0 demo_network Turn demo_start] demo_move by (simp add: demo_network_def r_into_rtranclp)

theorem network_authentic_witness:
  "\<exists>j < 4. peer_id demo_sent = 17 + of_nat j \<and> 1 \<le> sint (vround demo_sent)"
proof -
  have "known ((demo_start(0 := awake (pool proposer))) 0) (vertex_hash demo_crypto demo_sent) = Some demo_sent"
    by (simp add: demo_known)
  from network_authentic [OF good_demo_network starting_demo demo_first _ this] show ?thesis
    by (auto simp: demo_network_def)
qed

theorem network_dag_sound_witness:
  "\<exists>v. \<exists>j < 4. known (awake (pool proposer)) (vertex_hash demo_crypto demo_sent) = Some v \<and>
     peer_id v = 17 + of_nat j \<and> sint (vround v) = 1"
  using network_dag_sound [OF good_demo_network starting_demo demo_first, of 0 0 "vertex_hash demo_crypto demo_sent"]
    demo_dag
  by (auto simp: demo_network_def)

text \<open>A worker takes the message and sends it; it is then on the connection at the second validator.\<close>

definition demo_packet :: string where
  "demo_packet = packet_of [demo_sent]"

definition demo_pool :: "task worker \<Rightarrow> task list \<Rightarrow> task pool" where
  "demo_pool w ts = \<lparr>task_queue = ts, stop = False, workers = w # replicate 159 Waiting\<rparr>"

definition demo_pool_run :: "task worker \<Rightarrow> task list \<Rightarrow> task list \<Rightarrow> task pool_run" where
  "demo_pool_run w ts done = \<lparr>the_pool = demo_pool w ts, submitted = [], started = [], finished = done\<rparr>"

lemma pool_proposer: "pool proposer = demo_pool Waiting [Sendn 5 demo_packet]"
  by (simp add: proposer_def Threadpool_def demo_pool_def demo_packet_def numeral_eq_Suc)

lemma act_workI:
  assumes "worker_step a b" and "finished b = finished a @ ts"
  shows "act demo_env (Work ts) (awake (the_pool a)) (awake (the_pool b))"
  using act.work [OF assms(1) _ assms(2), of "peer_of (awake (the_pool a))" demo_env] by (simp add: awake_def peer_of_def)

lemma demo_take: "act demo_env (Work []) (awake (pool proposer)) (awake (demo_pool (Running (Sendn 5 demo_packet)) []))"
proof -
  have "worker_step \<lparr>the_pool = pool proposer, submitted = [], started = [], finished = []\<rparr>
      \<lparr>the_pool = demo_pool (Running (Sendn 5 demo_packet)) [], submitted = [], started = [Sendn 5 demo_packet], finished = []\<rparr>"
    using take [of 0 "\<lparr>the_pool = pool proposer, submitted = [], started = [], finished = []\<rparr>" "Sendn 5 demo_packet" "demo_pool Waiting []"]
    by (simp add: pool_proposer demo_pool_def worker_wake_def)
  from act_workI [OF this, of "[]"] show ?thesis by simp
qed

lemma demo_execute: "act demo_env (Work [Sendn 5 demo_packet]) (awake (demo_pool (Running (Sendn 5 demo_packet)) [])) (awake (demo_pool Waiting []))"
proof -
  have "worker_step \<lparr>the_pool = demo_pool (Running (Sendn 5 demo_packet)) [], submitted = [], started = [], finished = []\<rparr>
      \<lparr>the_pool = demo_pool Waiting [], submitted = [], started = [], finished = [Sendn 5 demo_packet]\<rparr>"
    using execute [of 0 "\<lparr>the_pool = demo_pool (Running (Sendn 5 demo_packet)) [], submitted = [], started = [], finished = []\<rparr>" "Sendn 5 demo_packet"]
    by (simp add: demo_pool_def)
  from act_workI [OF this, of "[Sendn 5 demo_packet]"] show ?thesis by simp
qed

lemma demo_send: "c_sendn 50 [of_nat (length demo_packet)] demo_packet = Some (Inr (demo_packet, 1))"
proof -
  have "sendable demo_sent"
    unfolding demo_sent_def next_vertex_def
    by (rule own_vertex_sendable) (simp_all add: demo_env_ok)
  then show ?thesis
    using length_packet_of [of "[demo_sent]"] length_wire_ge [of demo_sent]
    by (intro c_sendn_whole) (auto simp: demo_packet_def sendable_def MAX_STREAM_SIZE_def)
qed

definition demo_arrived :: config where
  "demo_arrived = deliver (1, 9) demo_packet (demo_start(0 := awake (demo_pool Waiting [])))"

lemma demo_arrives: "(net_step demo_network)\<^sup>*\<^sup>* demo_start demo_arrived"
proof -
  let ?c1 = "demo_start(0 := awake (pool proposer))" and ?c2 = "demo_start(0 := awake (demo_pool (Running (Sendn 5 demo_packet)) []))"
  have "act (env_of demo_network 0) (Work []) (?c1 0) (awake (demo_pool (Running (Sendn 5 demo_packet)) []))"
    using demo_take by (simp add: demo_network_def)
  with own [of 0 demo_network "Work []" ?c1] have "net_step demo_network ?c1 (?c1(0 := awake (demo_pool (Running (Sendn 5 demo_packet)) [])))"
    by (simp add: demo_network_def)
  then have "net_step demo_network ?c1 ?c2" by simp
  moreover have "net_step demo_network ?c2 (deliver (1, 9) demo_packet (?c2(0 := awake (demo_pool Waiting []))))"
    using demo_execute demo_send by (intro send) (simp_all add: demo_network_def)
  then have "net_step demo_network ?c2 demo_arrived" by (simp add: demo_arrived_def)
  ultimately show ?thesis
    using demo_first by (meson rtranclp.rtrancl_into_rtrancl)
qed

theorem network_reads_message_witness:
  "\<exists>s lv lv' rest. net lv 9 = demo_packet \<and>
     handle_event demo_crypto (majority 4) (demo_event 64) (server (member 18), lv) = Some (Inr (s, lv')) \<and>
     net lv' = (net lv)(9 := rest)"
proof -
  define lv where "lv = (server_init (server (member 18)) (\<lambda>_. []))\<lparr>net := (\<lambda>_. [])(9 := demo_packet)\<rparr>"
  have c: "demo_arrived 1 = (Top, member 18, scan_init (member 18), lv)"
    by (simp add: demo_arrived_def deliver_def demo_start_def Let_def server_init_def lv_def)
  have "s_socket (server (member 18)) = 4"
    by (simp add: member_def first_peer_def Peer_def Server_def c_socket_def)
  moreover have "demo_packet \<noteq> []"
    using length_packet_of [of "[demo_sent]"] length_wire_ge [of demo_sent] by (auto simp: demo_packet_def)
  ultimately have "\<exists>s lv' rest. handle_event demo_crypto (majority 4) (demo_event 64) (server (member 18), lv) = Some (Inr (s, lv')) \<and>
      net lv' = (net lv)(9 := rest)"
    using network_reads_message [OF good_demo_network starting_demo demo_arrives _ c, of "demo_event 64" 64]
    by (auto simp: demo_network_def demo_event_def lv_def EPOLLIN_def)
  moreover have "net lv 9 = demo_packet" by (simp add: lv_def)
  ultimately show ?thesis by blast
qed

section \<open>A validator on its own\<close>

text \<open>A network of one validator, which is its own quorum, leaves round 1 by itself.\<close>

definition solo :: peer where
  "solo = (case Peer 4 0 17 2 1 6 4999 1024 1 20 False of Inr p \<Rightarrow> p)"

definition solo_network :: network where
  "solo_network = \<lparr>nodes = 1, env_of = (\<lambda>_. demo_env), id_of = (\<lambda>_. 17), lib = demo_crypto, horizon = 20, link = (\<lambda>_ _. None)\<rparr>"

definition solo_start :: config where
  "solo_start i = (Top, solo, scan_init solo, server_init (server solo) (\<lambda>_. []))"

lemma solo_eq: "Peer 4 0 17 2 1 6 4999 1024 1 20 False = Inr solo"
  by (simp add: solo_def Peer_def Server_def c_socket_def)

lemma solo_sel [simp]:
  "cur_round solo = 0" "crowd solo = 1" "last_round solo = 20" "byzantines solo = 0" "own_id solo = 17" "buffer solo = []"
  "requests solo = []" "dag_image solo = []" "client solo = Client 2 1 6 20" "fail solo = False" "known_peers solo = []"
  by (simp_all add: solo_def Peer_def Server_def c_socket_def max_byzantines_div)

lemma good_solo_network: "good_network solo_network"
proof -
  have "inj_on (\<lambda>(r, i :: nat). hash_256 demo_crypto (vertex_key r 17)) ({1..20} \<times> {..<1})"
  proof (intro inj_onI)
    fix x y :: "int \<times> nat"
    assume x: "x \<in> {1..20} \<times> {..<1}" and y: "y \<in> {1..20} \<times> {..<1}"
      and eq: "(case x of (r, i) \<Rightarrow> hash_256 demo_crypto (vertex_key r 17)) = (case y of (r, i) \<Rightarrow> hash_256 demo_crypto (vertex_key r 17))"
    obtain r i s j where xy: "x = (r, i)" "y = (s, j)" by force
    have "r = s" using demo_key_inject [of r 17 s 17] eq x y by (simp add: xy)
    with x y show "x = y" by (simp add: xy)
  qed
  then show ?thesis
    using demo_ids(2) [of 0] demo_env_ok by (simp add: good_network_def solo_network_def demo_env_def)
qed

lemma launched_solo: "launched (solo_start 0)"
proof -
  have "setup_network (\<lambda>_. \<lparr>conn_socket = 0, conn_connect = 0, conn_value = 0\<rparr>) 0 (Some []) solo = Inr solo"
    by (simp add: setup_network_def connect_to_def)
  from launch [OF solo_eq _ _ _ _ this] show ?thesis by (simp add: solo_start_def)
qed

lemma starting_solo: "starting solo_network solo_start"
  using launched_solo by (simp add: starting_def solo_network_def solo_start_def peer_of_def server_init_def)

lemma solo_run:
  obtains c where "(net_step solo_network)\<^sup>*\<^sup>* solo_start c" and "cur_round (peer_of (c 0)) = 2" and "fst (c 0) = Asleep"
proof -
  define q where "q = (proposed demo_env (solo\<lparr>cur_round := 1\<rparr>))\<lparr>pool := pool solo\<rparr>"
  define q' where "q' = q\<lparr>server := set_thread_ready True (server q)\<rparr>"
  define l lv where "l = (scan_init solo)\<lparr>need_help := False\<rparr>" and "lv = server_init (server solo) (\<lambda>_. [])"
  have "move_round demo_env 0 (solo, scan_init solo) = Inr (q, l)"
    using first_move [of solo] by (simp add: q_def l_def Client_def)
  from act.round [OF this, of lv] have one: "act demo_env Turn (solo_start 0) (Asleep, q', l, lv)"
    by (simp add: solo_start_def q'_def lv_def)
  have q': "cur_round q' = 1" "last_round q' = 20" "crowd q' = 1" "byzantines q' = 0" "buffer q' = []" "requests q' = []"
    "client q' = Client 2 1 6 20" "fail q' = False" "\<exists>h. dag_image q' = [{h}]"
    by (simp_all add: q'_def q_def proposed_def Let_def)
  have "q'\<lparr>requests := [], buffer := []\<rparr> = q'"
    by (rule peer.equality) (simp_all add: q')
  then have "after_wait demo_env False (q', l) = Inr (False, q', l\<lparr>requests_answered := 0\<rparr>)"
    by (simp add: after_wait_def process_requests_def q' l_def scan_init_def Let_def)
  then have two: "act demo_env Turn (Asleep, q', l, lv) (Top, q', l\<lparr>requests_answered := 0\<rparr>, lv)" by (rule act.wake)
  have inv: "dag_inv (crypt demo_env) q' (buffer q' @ temp_list lv)"
    using act_inv [OF one launched_inv [OF launched_solo demo_env_ok(1)]] by (simp add: validator_inv_def)
  obtain r where "advance demo_env q' = Inr r" "cur_round r = 2"
    using advance_eq [OF inv demo_env_ok, of q'] q'
    by (auto simp: wave_work_def WAVE_def HALF_WAVE_def Client_def)
  moreover have "can_advance q' = Inr True"
    using q' by (auto simp: can_advance_def vec_at_def)
  ultimately have "move_round demo_env 0 (q', l\<lparr>requests_answered := 0\<rparr>) = Inr (r, l\<lparr>requests_answered := 0, need_help := False\<rparr>)"
    using q' by (simp add: move_round_def)
  from act.round [OF this, of lv]
  have three: "act demo_env Turn (Top, q', l\<lparr>requests_answered := 0\<rparr>, lv) (Asleep, r\<lparr>server := set_thread_ready True (server r)\<rparr>,
      l\<lparr>requests_answered := 0, need_help := False\<rparr>, lv)" .
  have go: "net_step solo_network (solo_start(0 := s)) (solo_start(0 := t))" if "act demo_env Turn s t" for s t
    using own [of 0 solo_network Turn "solo_start(0 := s)" t] that by (simp add: solo_network_def)
  have start: "solo_start(0 := solo_start 0) = solo_start" by (rule fun_upd_triv)
  have "(net_step solo_network)\<^sup>*\<^sup>* solo_start (solo_start(0 := (Asleep, q', l, lv)))"
    using go [OF one] start by simp
  also note r_into_rtranclp [of "net_step solo_network", OF go [OF two]]
  also note r_into_rtranclp [of "net_step solo_network", OF go [OF three]]
  finally have "(net_step solo_network)\<^sup>*\<^sup>* solo_start (solo_start(0 := (Asleep, r\<lparr>server := set_thread_ready True (server r)\<rparr>,
      l\<lparr>requests_answered := 0, need_help := False\<rparr>, lv)))" .
  from that [OF this] \<open>cur_round r = 2\<close> show thesis by (simp add: peer_of_def)
qed

end
