(* ===== verification/Lifecycle.thy ===== *)
theory Lifecycle
  imports Progress
begin

text \<open>
  How a validator ends: the flag \<open>is_up\<close> is the scan thread's word that it has left its loop, and
  in the last round it does leave, with a quorum or, after the time-out, without one.
\<close>

section \<open>The flag and the bound of the loop\<close>

lemma foldl_admit_is_up: "foldl (admit C maj) (s, l) vs = (s', l') \<Longrightarrow> is_up s' = is_up s"
proof (induction vs arbitrary: s l)
  case (Cons v vs)
  obtain s1 l1 where one: "admit C maj (s, l) v = (s1, l1)" by force
  then have "is_up s1 = is_up s" by (auto simp: admit_def split: if_splits)
  with Cons.IH [of s1 l1] Cons.prems one show ?case by simp
qed simp

lemma handle_event_is_up:
  assumes "handle_event C maj e (s, l) = Some (Inr (s', l'))"
  shows "is_up s' = is_up s"
proof -
  have vertices: "is_up s' = is_up s" if "handle_vertices C maj en fd (s, k) = Some (Inr (s', k'))" for en fd k k'
    using that by (auto simp: handle_vertices_def bindC_Inr_iff dest: foldl_admit_is_up)
  have request: "is_up s' = is_up s" if "handle_request en fd (s, k) = Some (Inr (s', k'))" for en fd k k'
    using that by (auto simp: handle_request_Inr)
  from assms show ?thesis
    by (auto simp: handle_event_def Let_def bindR_Inr_iff split: if_splits sum.splits msg_type.splits
        dest: vertices request)
qed

lemma scan_one_stop: "scan_one E v (p, l) = Inr (keep, q, l') \<Longrightarrow> stop_round l' = stop_round l"
  by (auto simp: scan_one_def Let_def bindR_Inr_iff split: if_splits prod.splits dest!: offer_missing_core)

lemma scan_buffer_stop: "scan_buffer E vs (p, l) = Inr (kept, q, l') \<Longrightarrow> stop_round l' = stop_round l"
proof (induction vs arbitrary: p l kept)
  case (Cons v vs)
  from Cons.prems obtain keep p' l2 kept' where one: "scan_one E v (p, l) = Inr (keep, p', l2)"
    and rest: "scan_buffer E vs (p', l2) = Inr (kept', q, l')"
    by (auto simp: bindR_Inr_iff)
  from Cons.IH [OF rest] scan_one_stop [OF one] show ?case by simp
qed simp

text \<open>What the code behind the wait does with round, bound and flag.\<close>

lemma after_wait_bounds:
  assumes "after_wait E due (p, l) = Inr (left, q, l')"
  shows "cur_round q = cur_round p \<and> last_round q = last_round p \<and> stop_round l' = stop_round l \<and>
    (left \<longleftrightarrow> stop_round l < cur_round p \<or> fail p \<and> cur_round p = 27) \<and>
    is_up (server q) = (is_up (server p) \<and> \<not> left)"
proof -
  obtain p1 l1 kept p2 l2 where requests: "process_requests (p, l) = Inr (p1, l1)"
    and scan: "scan_buffer E (buffer p1) (p1, l1) = Inr (kept, p2, l2)"
    and q: "cur_round q = cur_round p2" "last_round q = last_round p2" "stop_round l' = stop_round l2"
      "left \<longleftrightarrow> stop_round l2 < cur_round p2 \<or> fail p2 \<and> cur_round p2 = 27"
      "is_up (server q) = (is_up (server p2) \<and> \<not> left)"
    using assms by (auto simp: after_wait_def bindR_Inr_iff Let_def set_thread_ready_def split: if_splits)
  from requests obtain p0 where "same_core p p0" and "p1 = p0\<lparr>requests := []\<rparr>" and "stop_round l1 = stop_round l"
    by (auto simp: process_requests_def bindR_Inr_iff dest: requests_core)
  then show ?thesis
    using q scan_buffer_frame [OF scan] scan_buffer_stop [OF scan] by (simp add: same_core_def)
qed

lemma propose_bounds:
  "propose E p = Inr q \<Longrightarrow> is_up (server q) = is_up (server p) \<and> cur_round q = cur_round p \<and> last_round q = last_round p"
  by (auto simp: propose_def Let_def bindR_Inr_iff same_core_def add_to_map_def dest!: broadcast_core)

lemma advance_bounds:
  assumes "advance E p = Inr q"
  shows "is_up (server q) = is_up (server p) \<and> cur_round q = cur_round p + 1 \<and> last_round q = last_round p"
proof -
  obtain r where "same_core p r"
    and rest: "(if cur_round r + 1 \<le> last_round r then propose E (r\<lparr>cur_round := cur_round r + 1\<rparr>)
      else Inr (r\<lparr>cur_round := cur_round r + 1\<rparr>)) = Inr q"
    using assms wave_work_core by (fastforce simp: advance_def bindR_Inr_iff Let_def)
  then show ?thesis
    using propose_bounds [of E "r\<lparr>cur_round := cur_round r + 1\<rparr>" q] by (auto simp: same_core_def split: if_splits)
qed

lemma move_round_bounds:
  assumes "move_round E t (p, l) = Inr (q, l')"
  shows "is_up (server q) = is_up (server p) \<and> last_round q = last_round p \<and> stop_round l' \<le> stop_round l"
    and "last_round p \<le> cur_round p \<Longrightarrow> stop_round l \<le> last_round p \<Longrightarrow> MAX_DELAY * 4 < t \<Longrightarrow> stop_round l' < cur_round q"
proof -
  from assms have "(q = p \<and> l' = l \<and> (last_round p < cur_round p \<or> t \<le> MAX_DELAY * 4)) \<or>
      (advance E p = Inr q \<and> stop_round l' = stop_round l) \<or>
      (q = p \<and> cur_round p = last_round p \<and> stop_round l' = stop_round l - 1) \<or>
      (same_core p q \<and> stop_round l' = stop_round l \<and> cur_round p < last_round p)"
    by (auto simp: move_round_def bindR_Inr_iff dest: dag_scan_core split: if_split_asm)
  then show "is_up (server q) = is_up (server p) \<and> last_round q = last_round p \<and> stop_round l' \<le> stop_round l"
    and "last_round p \<le> cur_round p \<Longrightarrow> stop_round l \<le> last_round p \<Longrightarrow> MAX_DELAY * 4 < t \<Longrightarrow> stop_round l' < cur_round q"
    using advance_bounds [of E p q] by (auto simp: same_core_def)
qed

section \<open>Invariants\<close>

definition flagged :: "validator \<Rightarrow> bool" where
  "flagged = (\<lambda>(pc, p, l, lv). stop_round l \<le> last_round p \<and> (is_up (server p) \<longleftrightarrow> pc \<noteq> Gone))"

text \<open>The scan thread has decided to leave: it sleeps for the last time, or it has gone.\<close>

definition leaving :: "validator \<Rightarrow> bool" where
  "leaving = (\<lambda>(pc, p, l, lv). pc = Gone \<or> pc = Asleep \<and> stop_round l < cur_round p)"

lemma act_flagged: "act E a s t \<Longrightarrow> flagged s \<Longrightarrow> flagged t"
proof (induction rule: act.induct)
  case (round t p l q l' lv)
  from move_round_bounds(1) [OF round(1)] round(2) show ?case by (simp add: flagged_def set_thread_ready_def)
next
  case (wake due p l q l' lv)
  from after_wait_bounds [OF wake(1)] wake(2) show ?case by (simp add: flagged_def)
next
  case (leave due p l q l' lv)
  from after_wait_bounds [OF leave(1)] leave(2) show ?case by (simp add: flagged_def)
next
  case (event p e lv s lv' pc l)
  from handle_event_is_up [OF event(1)] event(2) show ?case by (simp add: flagged_def)
next
  case (hand p lv s lv' buf reqs pc l)
  then show ?case by (auto simp: flagged_def hand_over_def split: if_splits)
next
  case (search p xs r ys q pc l lv)
  from check_round_core [OF search(2)] search(3) show ?case by (simp add: flagged_def same_core_def)
next
  case (work a b p ts pc l lv)
  then show ?case by (simp add: flagged_def)
qed

lemma act_leaving: "act E a s t \<Longrightarrow> leaving s \<Longrightarrow> leaving t"
proof (induction rule: act.induct)
  case (wake due p l q l' lv)
  from after_wait_bounds [OF wake(1)] wake(2) show ?case by (simp add: leaving_def)
next
  case (search p xs r ys q pc l lv)
  from check_round_core [OF search(2)] search(3) show ?case by (simp add: leaving_def same_core_def)
qed (auto simp: leaving_def)

interpretation flags: step_invariant "step E" flagged for E
  by unfold_locales (unfold step_def, blast intro: act_flagged)

interpretation leaves: step_invariant "step E" leaving for E
  by unfold_locales (unfold step_def, blast intro: act_leaving)

lemma launched_flagged: "launched s \<Longrightarrow> flagged s"
proof (induction rule: launched.induct)
  case (launch fd bound clock domain type protocol port listen n final fails p os port0 addresses q streams)
  from launch(1) have "is_up (server p)"
    by (auto simp: Peer_def Server_def bindR_Inr_iff split: if_splits)
  moreover from launch(6) have "same_core p q" using setup_network_frame by blast
  ultimately show ?case by (simp add: flagged_def same_core_def scan_init_def)
qed

text \<open>
  C18. The end: once a validator is in its last round (or past it), one more turn of the loop after
  the time-out is enough. With a quorum or without, the scan thread never begins another turn
  after it; it can only go on sleeping or leave, and when it has left, the server thread has been
  told to stop. Before that it is never told.
\<close>

theorem last_round_ends:
  assumes "launched s" and "(step E)\<^sup>*\<^sup>* s (Top, p, l, lv)"
    and "last_round p \<le> cur_round p" and "MAX_DELAY * 4 < t" and "move_round E t (p, l) = Inr (q, l')"
    and "(step E)\<^sup>*\<^sup>* (Asleep, q\<lparr>server := set_thread_ready True (server q)\<rparr>, l', lv) (pc, r, k, kv)"
  shows "pc \<in> {Asleep, Gone} \<and> (is_up (server r) \<longleftrightarrow> pc \<noteq> Gone)"
proof -
  have "flagged (Top, p, l, lv)" using flags.run_inv [OF assms(2) launched_flagged [OF assms(1)]] .
  then have stop: "stop_round l \<le> last_round p" and start: "flagged (Asleep, q\<lparr>server := set_thread_ready True (server q)\<rparr>, l', lv)"
    using move_round_bounds(1) [OF assms(5)] by (simp_all add: flagged_def set_thread_ready_def)
  have "leaving (Asleep, q\<lparr>server := set_thread_ready True (server q)\<rparr>, l', lv)"
    using move_round_bounds(2) [OF assms(5,3) stop assms(4)] by (simp add: leaving_def)
  from leaves.run_inv [OF assms(6) this] flags.run_inv [OF assms(6) start] show ?thesis
    by (auto simp: leaving_def flagged_def)
qed

text \<open>A validator whose last round is 0, for the witness: it ends at once.\<close>

definition short_peer :: peer where
  "short_peer = (case Peer 4 0 17 2 1 6 4999 1024 4 0 False of Inr p \<Rightarrow> p)"

lemma short_peer_eq: "Peer 4 0 17 2 1 6 4999 1024 4 0 False = Inr short_peer"
  by (simp add: short_peer_def Peer_def Server_def c_socket_def)

lemma short_peer_sel:
  "cur_round short_peer = 0" "last_round short_peer = 0" "requests short_peer = []" "buffer short_peer = []"
  "known_peers short_peer = []"
  by (simp_all add: short_peer_def Peer_def Server_def c_socket_def)

theorem last_round_ends_witness:
  "\<exists>r l lv. (step demo_env)\<^sup>*\<^sup>* (Top, short_peer, scan_init short_peer, server_init (server short_peer) (\<lambda>_. [])) (Gone, r, l, lv) \<and>
     \<not> is_up (server r)"
proof -
  let ?lv = "server_init (server short_peer) (\<lambda>_. [])" and ?l = "(scan_init short_peer)\<lparr>need_help := False\<rparr>"
  let ?q = "short_peer\<lparr>cur_round := 1\<rparr>"
  let ?s = "set_thread_ready True (server ?q)"
  have "setup_network (\<lambda>_. \<lparr>conn_socket = 0, conn_connect = 0, conn_value = 0\<rparr>) 0 (Some []) short_peer = Inr short_peer"
    by (simp add: setup_network_def connect_to_def short_peer_sel)
  from launch [OF short_peer_eq _ _ _ _ this]
  have start: "launched (Top, short_peer, scan_init short_peer, ?lv)" by simp
  have move: "move_round demo_env 5 (short_peer, scan_init short_peer) = Inr (?q, ?l)"
    by (simp add: move_round_def can_advance_def advance_def wave_work_def short_peer_sel WAVE_def HALF_WAVE_def)
  have "after_wait demo_env False (?q\<lparr>server := ?s\<rparr>, ?l) =
      Inr (True, ?q\<lparr>server := set_thread_ready True (?s\<lparr>is_up := False\<rparr>)\<rparr>, ?l)"
    by (simp add: after_wait_def process_requests_def short_peer_sel scan_init_def)
  note down = act_step [OF act.leave [OF this, of ?lv]]
  then obtain r where leave: "step demo_env (Asleep, ?q\<lparr>server := ?s\<rparr>, ?l, ?lv) (Gone, r, ?l, ?lv)" by blast
  have run: "(step demo_env)\<^sup>*\<^sup>* (Asleep, ?q\<lparr>server := ?s\<rparr>, ?l, ?lv) (Gone, r, ?l, ?lv)"
    by (rule r_into_rtranclp) (rule leave)
  have "\<not> is_up (server r)"
    using last_round_ends [OF start rtranclp.rtrancl_refl _ _ move run] by (simp add: short_peer_sel MAX_DELAY_def)
  moreover have "step demo_env (Top, short_peer, scan_init short_peer, ?lv) (Asleep, ?q\<lparr>server := ?s\<rparr>, ?l, ?lv)"
    using act_step [OF act.round [OF move]] by simp
  ultimately show ?thesis using run by (meson converse_rtranclp_into_rtranclp)
qed

section \<open>The threads of a peer\<close>

text \<open>
  The main thread of the process holds the handles of the two threads: the server's, started by the
  constructor, and the scan thread's, started by \<open>start_thread\<close>. Assigning to a handle that is still
  joinable ends the program. \<open>join\<close> returns only when the thread has ended (\<open>None\<close>: it waits).
\<close>

datatype std_thread = No_Thread | Running_Thread | Ended_Thread

record handles =
  scan_buffer_thread :: std_thread
  server_thread :: std_thread

definition joinable :: "std_thread \<Rightarrow> bool" where
  "joinable t \<longleftrightarrow> t \<noteq> No_Thread"

definition constructed :: handles where
  "constructed = \<lparr>scan_buffer_thread = No_Thread, server_thread = Running_Thread\<rparr>"

definition start_thread :: "handles \<Rightarrow> handles res" where
  "start_thread h =
     (if joinable (scan_buffer_thread h) then Inl Uncaught else Inr (h\<lparr>scan_buffer_thread := Running_Thread\<rparr>))"

fun join :: "std_thread \<Rightarrow> std_thread option" where
  "join Running_Thread = None"
| "join _ = Some No_Thread"

definition join_threads :: "handles \<Rightarrow> handles option" where
  "join_threads h =
     (case (if joinable (scan_buffer_thread h) then join (scan_buffer_thread h) else Some (scan_buffer_thread h)) of
        None \<Rightarrow> None
      | Some a \<Rightarrow>
          (case (if joinable (server_thread h) then join (server_thread h) else Some (server_thread h)) of
             None \<Rightarrow> None
           | Some b \<Rightarrow> Some \<lparr>scan_buffer_thread = a, server_thread = b\<rparr>))"

definition getid :: "peer \<Rightarrow> u64" where
  "getid p = own_id p"

definition close_server :: "peer \<Rightarrow> int list" where
  "close_server p = close_socket (server p)"

text \<open>
  The handles once the threads have come to a state. The server's loop runs while \<open>is_up\<close>; that it
  comes to this test after the scan thread has left is \<open>server_stops\<close> of the theory \<open>Handshake\<close>.
\<close>

definition handles_at :: "validator \<Rightarrow> handles" where
  "handles_at = (\<lambda>(pc, p, l, lv).
     \<lparr>scan_buffer_thread = (if pc = Gone then Ended_Thread else Running_Thread),
      server_thread = (if is_up (server p) then Running_Thread else Ended_Thread)\<rparr>)"

text \<open>
  The main thread waits exactly as long as the scan thread is in its loop: when that has left, the
  server's loop is over as well, and no handle is joinable any more.
\<close>

theorem joins_when_gone:
  assumes "launched s" and "(step E)\<^sup>*\<^sup>* s t"
  shows "start_thread constructed = Inr \<lparr>scan_buffer_thread = Running_Thread, server_thread = Running_Thread\<rparr> \<and>
    join_threads (handles_at t) =
      (if fst t = Gone then Some \<lparr>scan_buffer_thread = No_Thread, server_thread = No_Thread\<rparr> else None)"
proof -
  obtain pc p l lv where t: "t = (pc, p, l, lv)" by (metis prod_cases4)
  have "flagged t" using flags.run_inv [OF assms(2) launched_flagged [OF assms(1)]] .
  then show ?thesis
    by (simp add: t flagged_def handles_at_def join_threads_def joinable_def start_thread_def constructed_def)
qed

theorem joins_when_gone_witness:
  "join_threads (handles_at (Top, short_peer, scan_init short_peer, server_init (server short_peer) (\<lambda>_. []))) = None"
proof -
  have "setup_network (\<lambda>_. \<lparr>conn_socket = 0, conn_connect = 0, conn_value = 0\<rparr>) 0 (Some []) short_peer = Inr short_peer"
    by (simp add: setup_network_def connect_to_def short_peer_sel)
  from launch [OF short_peer_eq _ _ _ _ this]
  have "launched (Top, short_peer, scan_init short_peer, server_init (server short_peer) (\<lambda>_. []))" by simp
  from joins_when_gone [OF this, of demo_env, OF rtranclp.rtrancl_refl] show ?thesis by simp
qed

end
