(* ===== verification/Faults.thy ===== *)
theory Faults
  imports Network_Run Lifecycle
begin

text \<open>
  Where a validator can fail. A step of the network is only defined where the code returns; this
  theory shows that it does, and names the places where it may not: the loop that takes the
  connection of a failed validator out of the list, and searches with too few connections left.
\<close>

section \<open>What every validator keeps\<close>

text \<open>
  A law of the single validator that says nothing of the bytes on its connections holds along
  every run of a network.
\<close>

locale validator_law =
  fixes law :: "validator \<Rightarrow> bool"
  assumes act_law: "act E a s t \<Longrightarrow> law s \<Longrightarrow> law t"
    and streams: "law (pc, p, l, lv) \<Longrightarrow> law (pc, p, l, lv')"
begin

lemma net_step_law: "net_step N c c' \<Longrightarrow> \<forall>i < nodes N. law (c i) \<Longrightarrow> \<forall>i < nodes N. law (c' i)"
proof (induction rule: net_step.induct)
  case (own i a c t)
  then show ?case using act_law by (metis fun_upd_apply)
next
  case (send i fd msg c t d rs to)
  let ?c = "c(i := t)"
  obtain j fd' pc p l lv where to: "to = (j, fd')" and j: "?c j = (pc, p, l, lv)" by (metis prod_cases4 surj_pair)
  have all: "\<forall>k < nodes N. law (?c k)" using send act_law by (metis fun_upd_apply)
  have deliver: "deliver to msg ?c = ?c(j := (pc, p, l, lv\<lparr>net := (net lv)(fd' := net lv fd' @ msg)\<rparr>))"
    by (simp only: deliver_def to j prod.case)
  show ?case
  proof (intro allI impI)
    fix k assume "k < nodes N"
    with all have k: "law (?c k)" by blast
    show "law (deliver to msg ?c k)"
    proof (cases "k = j")
      case True
      with k j have "law (pc, p, l, lv)" by metis
      then show ?thesis unfolding deliver True fun_upd_same by (rule streams)
    next
      case False
      show ?thesis unfolding deliver fun_upd_other [OF False] by (rule k)
    qed
  qed
qed

lemma run_law:
  assumes "(net_step N)\<^sup>*\<^sup>* c c'" and "\<forall>i < nodes N. law (c i)" and "i < nodes N"
  shows "law (c' i)"
proof -
  have "\<forall>i < nodes N. law (c' i)"
    using assms(1)
  proof (induction rule: rtranclp_induct)
    case (step c' c'')
    from step(2,3) show ?case by (rule net_step_law)
  qed (rule assms(2))
  with assms(3) show ?thesis by blast
qed

end

interpretation flag_law: validator_law flagged
proof unfold_locales
  fix E a s t
  assume "act E a s t" and "flagged s"
  then show "flagged t" by (rule act_flagged)
qed (simp add: flagged_def)

text \<open>The scan thread does not sleep before the first round.\<close>

definition begun :: "validator \<Rightarrow> bool" where
  "begun = (\<lambda>(pc, p, l, lv). 0 \<le> last_round p \<and> 0 \<le> cur_round p \<and> (pc = Asleep \<longrightarrow> 1 \<le> cur_round p))"

lemma move_round_begins:
  assumes "move_round E t (p, l) = Inr (q, l')" and "0 \<le> last_round p" and "0 \<le> cur_round p"
  shows "1 \<le> cur_round q \<and> last_round q = last_round p"
proof -
  from assms have "(q = p \<and> 0 < cur_round p) \<or> advance E p = Inr q \<or> (same_core p q \<and> 0 < cur_round p)"
    by (cases "cur_round p = 0") (auto simp: move_round_def can_advance_def bindR_Inr_iff dest: dag_scan_core split: if_split_asm)
  then show ?thesis using advance_bounds [of E p q] assms(2,3) by (auto simp: same_core_def)
qed

lemma act_begun: "act E a s t \<Longrightarrow> begun s \<Longrightarrow> begun t"
proof (induction rule: act.induct)
  case (round t p l q l' lv)
  from move_round_begins [OF round(1)] round(2) show ?case by (simp add: begun_def)
next
  case (wake due p l q l' lv)
  from after_wait_bounds [OF wake(1)] wake(2) show ?case by (simp add: begun_def)
next
  case (leave due p l q l' lv)
  from after_wait_bounds [OF leave(1)] leave(2) show ?case by (simp add: begun_def)
next
  case (search p xs r ys q pc l lv)
  from check_round_core [OF search(2)] search(3) show ?case by (simp add: begun_def same_core_def)
qed (simp_all add: begun_def)

lemma launched_begun: "launched s \<Longrightarrow> begun s"
proof (induction rule: launched.induct)
  case (launch fd bound clock domain type protocol port listen n final fails p os port0 addresses q streams)
  from launch(1) have "cur_round p = 0" "last_round p = final"
    by (auto simp: Peer_def bindR_Inr_iff)
  moreover from launch(6) have "same_core p q" using setup_network_frame by blast
  ultimately show ?case using launch(4) by (simp add: begun_def same_core_def)
qed

interpretation begun_law: validator_law begun
proof unfold_locales
  fix E a s t
  assume "act E a s t" and "begun s"
  then show "begun t" by (rule act_begun)
qed (simp add: begun_def)

section \<open>The list of connections only gets shorter\<close>

definition fewer :: "peer \<Rightarrow> peer \<Rightarrow> bool" where
  "fewer p q \<longleftrightarrow> peers (client q) = peers (client p) \<and> length (c_sockets (client q)) \<le> length (c_sockets (client p))"

lemma fewer_refl [simp, intro]: "fewer p p"
  by (simp add: fewer_def)

lemma fewer_trans: "fewer p q \<Longrightarrow> fewer q r \<Longrightarrow> fewer p r"
  by (simp add: fewer_def)

lemma foldR_fewer:
  assumes "foldR f xs p = Inr q" and "\<And>x p q. x \<in> set xs \<Longrightarrow> f x p = Inr q \<Longrightarrow> fewer p q"
  shows "fewer p q"
  using assms(1)
proof (rule foldR_inv [where I = "fewer p"])
  fix x s t
  assume "x \<in> set xs" "fewer p s" "f x s = Inr t"
  then show "fewer p t" using assms(2) fewer_trans by blast
qed simp

lemma fewer_send [simp]: "fewer p (enqueue_send s m q) = fewer p q"
  by (simp add: fewer_def enqueue_send_def)

lemma fewer_sends: "fewer p (foldl (\<lambda>p x. enqueue_send (f x) (g x) p) p xs)"
  by (induction xs rule: rev_induct) auto

lemma fewer_lookup: "lookup_socket pid p = (s, q) \<Longrightarrow> fewer p q \<and> c_sockets (client q) = c_sockets (client p)"
  by (auto simp: lookup_socket_def get_socket_def fewer_def split: option.splits)

lemma broadcast_fewer: "broadcast m p = Inr q \<Longrightarrow> fewer p q"
  by (auto simp: broadcast_eq Let_def fewer_def split: if_splits)

lemma deliver_fewer: "deliver_request r p = Inr q \<Longrightarrow> fewer p q"
  by (auto simp: deliver_request_def bindR_Inr_iff split: prod.splits dest: fewer_lookup)

lemma send_missing_fewer: "send_missing_vertices E fd S p = Inr q \<Longrightarrow> fewer p q"
  by (auto simp: send_missing_vertices_def bindR_Inr_iff intro: fewer_sends)

lemma erase_loop_length: "erase_loop d xs it = Inr ys \<Longrightarrow> length ys \<le> length xs"
proof (induction d xs it rule: erase_loop.induct)
  case (1 d xs it)
  from 1(3) consider "ys = xs" | "it < length xs" "xs ! it = d" "erase_loop d (take it xs @ drop (Suc it) xs) (Suc it) = Inr ys"
    | "it < length xs" "xs ! it \<noteq> d" "erase_loop d xs (Suc it) = Inr ys"
    by (subst (asm) erase_loop.simps) (auto split: if_splits)
  then show ?case
  proof cases
    case 2
    then have "length ys \<le> length (take it xs @ drop (Suc it) xs)" using 1(1) by simp
    with 2(1) show ?thesis by simp
  qed (use 1(2) in simp_all)
qed

lemma blame_fewer:
  assumes "blame pid p = Inr q"
  shows "fewer p q"
proof -
  let ?p = "p\<lparr>black_list := uset_emplace pid (black_list p)\<rparr>"
  obtain d r socks where r: "lookup_socket pid ?p = (d, r)" and socks: "erase_loop d (c_sockets (client r)) 0 = Inr socks"
    and q: "q = r\<lparr>client := (client r)\<lparr>c_sockets := socks\<rparr>\<rparr>"
    using assms by (auto simp: blame_def bindR_Inr_iff split: prod.splits)
  have "fewer p r" using fewer_lookup [OF r] by (simp add: fewer_def)
  moreover have "fewer r q" using erase_loop_length [OF socks] by (simp add: q fewer_def)
  ultimately show ?thesis by (rule fewer_trans)
qed

lemma dag_scan_fewer: "dag_scan e s p = Inr q \<Longrightarrow> fewer p q"
  unfolding dag_scan_def Let_def
  by (erule foldR_fewer) (auto simp: bindR_Inr_iff fewer_def split: if_splits)

lemma total_order_fewer: "total_order E e s p = Inr q \<Longrightarrow> fewer p q"
  unfolding total_order_def
proof (erule foldR_fewer)
  fix i p q
  let ?body = "\<lambda>D j p. bindR (get_peer_id_at j (client p)) (\<lambda>peerID.
    let hash = hash_256 (crypt E) (to_string (i + 1) @ to_string (uint peerID)) in
    if hash \<notin> D then blame peerID p else Inr p)"
  assume "bindR (vec_at (dag_image p) i) (\<lambda>D. if int (card D) < size_t (crowd p)
    then foldR (?body D) [0..crowd p - 2] p else Inr p) = Inr q"
  moreover have "fewer s t" if "?body D j s = Inr t" for D j s t
    using that by (auto simp: bindR_Inr_iff Let_def split: if_splits intro: blame_fewer)
  then have "fewer p q" if "foldR (?body D) xs p = Inr q" for D xs
    using foldR_fewer [OF that] by blast
  ultimately show "fewer p q"
    by (auto simp: bindR_Inr_iff split: if_splits)
qed

lemma wave_work_fewer: "wave_work E p = Inr q \<Longrightarrow> fewer p q"
  by (auto simp: wave_work_def Let_def split: if_splits intro: dag_scan_fewer total_order_fewer)

lemma propose_fewer: "propose E p = Inr q \<Longrightarrow> fewer p q"
  by (auto simp: propose_def Let_def bindR_Inr_iff fewer_def dest!: broadcast_fewer)

lemma move_round_fewer:
  assumes "move_round E t (p, l) = Inr (q, l')"
  shows "fewer p q"
proof -
  have "fewer p q" if adv: "advance E p = Inr q"
  proof -
    from adv obtain r where "wave_work E p = Inr r"
      and rest: "(if cur_round r + 1 \<le> last_round r then propose E (r\<lparr>cur_round := cur_round r + 1\<rparr>)
        else Inr (r\<lparr>cur_round := cur_round r + 1\<rparr>)) = Inr q"
      by (auto simp: advance_def bindR_Inr_iff Let_def)
    then have "fewer p r" by (blast intro: wave_work_fewer)
    moreover have "fewer r q"
      using rest propose_fewer [of E "r\<lparr>cur_round := cur_round r + 1\<rparr>" q] by (auto simp: fewer_def split: if_splits)
    ultimately show ?thesis by (rule fewer_trans)
  qed
  with assms show ?thesis
    by (auto simp: move_round_def bindR_Inr_iff dest: dag_scan_fewer split: if_split_asm)
qed

lemma make_request_fewer: "make_request E h s p = Inr q \<Longrightarrow> fewer p q"
proof -
  have sends: "fewer p (foldl (\<lambda>p (sockfd, i). enqueue_send sockfd m p) (p\<lparr>requests_asked := k\<rparr>) xs)" for m k xs
    by (induction xs rule: rev_induct) (auto simp: fewer_def enqueue_send_def split: prod.split)
  show "make_request E h s p = Inr q \<Longrightarrow> fewer p q"
    by (cases "dynamic_copy (request_msg h (own_id p)) (length h + 8 + 1)";
        cases "request_sends (byzantines p) (shuffle E (requests_asked p) (c_sockets (client p))) s")
      (auto simp: make_request_def Let_def sends split: if_splits)
qed

lemma check_round_fewer: "check_round E r p = Inr q \<Longrightarrow> fewer p q"
  unfolding check_round_def
  by (erule foldR_fewer)
    (auto simp: bindR_Inr_iff Let_def split: if_splits prod.splits
      dest!: fewer_lookup intro: fewer_trans [OF _ make_request_fewer])

lemma offer_fewer: "offer_missing E v (p, l) = Inr (q, l') \<Longrightarrow> fewer p q"
  by (auto simp: offer_missing_def Let_def bindR_Inr_iff split: if_splits prod.splits
      dest!: fewer_lookup intro: fewer_trans [OF _ send_missing_fewer])

lemma scan_one_fewer: "scan_one E v (p, l) = Inr (keep, q, l') \<Longrightarrow> fewer p q"
  by (auto simp: scan_one_def Let_def bindR_Inr_iff fewer_def split: if_splits prod.splits dest!: offer_fewer)

lemma scan_buffer_fewer: "scan_buffer E vs (p, l) = Inr (kept, q, l') \<Longrightarrow> fewer p q"
proof (induction vs arbitrary: p l kept)
  case (Cons v vs)
  from Cons.prems obtain keep p' l2 kept' where one: "scan_one E v (p, l) = Inr (keep, p', l2)"
    and rest: "scan_buffer E vs (p', l2) = Inr (kept', q, l')"
    by (auto simp: bindR_Inr_iff)
  from fewer_trans [OF scan_one_fewer [OF one] Cons.IH [OF rest]] show ?case .
qed simp

lemma after_wait_fewer:
  assumes "after_wait E due (p, l) = Inr (left, q, l')"
  shows "fewer p q"
proof -
  obtain p1 l1 kept p2 l2 where requests: "process_requests (p, l) = Inr (p1, l1)"
    and scan: "scan_buffer E (buffer p1) (p1, l1) = Inr (kept, p2, l2)"
    and q: "client q = client p2"
    using assms by (auto simp: after_wait_def bindR_Inr_iff Let_def split: if_splits)
  from requests obtain p0 where "foldR deliver_request (requests p) p = Inr p0" and "p1 = p0\<lparr>requests := []\<rparr>"
    by (auto simp: process_requests_def bindR_Inr_iff)
  then have "fewer p p1" using foldR_fewer [of deliver_request _ p p0] deliver_fewer by (simp add: fewer_def)
  moreover have "fewer p1 q" using scan_buffer_fewer [OF scan] by (simp add: fewer_def q)
  ultimately show ?thesis by (rule fewer_trans)
qed

text \<open>The ids of all others are known, and there is at most one connection to each.\<close>

definition linked :: "nat \<Rightarrow> validator \<Rightarrow> bool" where
  "linked n = (\<lambda>(pc, p, l, lv). length (peers (client p)) + 1 = n \<and> length (c_sockets (client p)) + 1 \<le> n)"

lemma act_linked: "act E a s t \<Longrightarrow> linked n s \<Longrightarrow> linked n t"
proof (induction rule: act.induct)
  case (round t p l q l' lv)
  from move_round_fewer [OF round(1)] round(2) show ?case by (simp add: linked_def fewer_def)
next
  case (wake due p l q l' lv)
  from after_wait_fewer [OF wake(1)] wake(2) show ?case by (simp add: linked_def fewer_def)
next
  case (leave due p l q l' lv)
  from after_wait_fewer [OF leave(1)] leave(2) show ?case by (simp add: linked_def fewer_def close_sockets_def)
next
  case (search p xs r ys q pc l lv)
  from check_round_fewer [OF search(2)] search(3) show ?case by (simp add: linked_def fewer_def)
qed (simp_all add: linked_def)

interpretation link_law: validator_law "linked n" for n
proof unfold_locales
  fix E a s t
  assume "act E a s t" and "linked n s"
  then show "linked n t" by (rule act_linked)
qed (simp add: linked_def)

section \<open>Behind the wait nothing fails\<close>

lemma requests_total:
  assumes "\<forall>r \<in> set rs. sendable (snd r)"
  shows "\<exists>q. foldR deliver_request rs p = Inr q"
proof -
  have "\<exists>q. foldR deliver_request rs p = Inr q \<and> True"
  proof (rule foldR_total)
    fix r q assume "r \<in> set rs"
    with assms deliver_request_spec [of "snd r" "fst r" q] show "\<exists>t. deliver_request r q = Inr t \<and> True"
      by (auto split: prod.splits)
  qed simp
  then show ?thesis by blast
qed

lemma scan_one_total:
  assumes "stocked (crypt E) G p l" and "dag_inv (crypt E) p ws" and "v \<in> G" and "iter_ok (iter E)"
    and "\<forall>v \<in> G. honest (last_round p) v"
  shows "\<exists>keep q l'. scan_one E v (p, l) = Inr (keep, q, l')"
proof (cases "sint (vround v) \<le> cur_round p")
  case False
  then have "scan_one E v (p, l) = Inr (True, p, l)" by (simp add: scan_one_def Let_def)
  then show ?thesis by blast
next
  case True
  let ?r = "sint (vround v)"
  let ?hist = "if ?r = 1 then Inr (True, missing_set l) else mutual_history ?r (references v) p"
  have wf: "wf_peer p" using assms(2) by (simp add: dag_inv_def)
  have r: "1 \<le> ?r" "?r \<le> last_round p" using assms(3,5) by (auto simp: honest_def)
  with True wf have len: "?r \<le> int (length (dag_image p))" by (simp add: wf_peer_def)
  have "\<exists>x. ?hist = Inr x" using r(1) len by (auto simp: mutual_history_eq Let_def)
  then obtain ok S where hist: "?hist = Inr (ok, S)" by auto
  from history_stocked [OF hist assms(2,1)] have S: "finite S" "S \<subseteq> dom (vertex_map (server p))"
    and "ran (vertex_map (server p)) \<subseteq> G" by (simp_all add: stocked_def)
  then have "\<forall>v \<in> ran (vertex_map (server p)). sendable v" using assms(5) honest_sendable(2) by blast
  with S obtain q l' where offer: "offer_missing E v (p, l\<lparr>missing_set := S\<rparr>) = Inr (q, l')"
    using offer_missing_total [OF assms(4), of "l\<lparr>missing_set := S\<rparr>" p v] by auto
  moreover have "dag_image q = dag_image p" using offer_missing_core [OF offer] by (simp add: same_core_def)
  ultimately show ?thesis
    using True hist r(1) len by (cases ok) (auto simp: scan_one_def Let_def vec_at_def)
qed

lemma scan_buffer_total:
  assumes "stocked (crypt E) G p l" and "dag_inv (crypt E) p (pre @ vs @ post)" and "set vs \<subseteq> G"
    and "iter_ok (iter E)" and "\<forall>v \<in> G. honest (last_round p) v"
  shows "\<exists>kept q l'. scan_buffer E vs (p, l) = Inr (kept, q, l')"
  using assms
proof (induction vs arbitrary: pre p l)
  case (Cons v vs)
  have "v \<in> G" using Cons.prems(3) by simp
  from scan_one_total [OF Cons.prems(1,2) this Cons.prems(4,5)]
  obtain keep q l' where one: "scan_one E v (p, l) = Inr (keep, q, l')" by blast
  then have single: "scan_buffer E [v] (p, l) = Inr (if keep then [v] else [], q, l')" by simp
  have "dag_inv (crypt E) q ((pre @ (if keep then [v] else [])) @ vs @ post)"
    using scan_buffer_inv [OF single, of pre "vs @ post"] Cons.prems(2) by simp
  moreover have "stocked (crypt E) G q l'"
    using Cons.prems(3) by (intro scan_one_stocked [OF one Cons.prems(1,2) _ Cons.prems(4,5)]) simp
  moreover have "last_round q = last_round p" using scan_buffer_frame [OF single] by simp
  ultimately obtain kept r k where "scan_buffer E vs (q, l') = Inr (kept, r, k)"
    using Cons.IH [of q l' "pre @ (if keep then [v] else [])"] Cons.prems(3-5) by auto
  with one show ?case by simp
qed simp

lemma write_record_total:
  assumes "1 \<le> cur_round p" and "cur_round p \<le> int (length (dag_image p))"
  shows "\<exists>r. write_record a m h n p = Inr r"
proof -
  let ?f = "\<lambda>i (total_vertices, total_absent_vertices).
    bindR (vec_at (dag_image p) i) (\<lambda>D. Inr (total_vertices + int (card D),
      if int (card D) < size_t (crowd p) then total_absent_vertices + (crowd p - int (card D)) else total_absent_vertices))"
  have "\<exists>t. foldR ?f [0..cur_round p - 1] (0, 0) = Inr t \<and> True"
    using assms(2) by (intro foldR_total) (auto simp: vec_at_def split: prod.split)
  then obtain x y where "foldR ?f [0..cur_round p - 1] (0, 0) = Inr (x, y)" by auto
  with assms show ?thesis by (simp add: write_record_def vec_at_def Let_def)
qed

lemma after_wait_total:
  assumes "stocked (crypt E) G p l" and "dag_inv (crypt E) p (buffer p @ ts)" and "iter_ok (iter E)"
    and "\<forall>v \<in> G. honest (last_round p) v" and "1 \<le> cur_round p" and "stop_round l \<le> last_round p"
  shows "\<exists>left q l'. after_wait E due (p, l) = Inr (left, q, l')"
proof -
  have "\<forall>r \<in> set (requests p). sendable (snd r)"
    using assms(1,4) honest_sendable(2) unfolding stocked_def by blast
  then obtain p0 where requests: "foldR deliver_request (requests p) p = Inr p0" using requests_total by blast
  define p1 l1 where "p1 = p0\<lparr>requests := []\<rparr>" and "l1 = l\<lparr>requests_answered := requests_answered l + int (length (requests p))\<rparr>"
  have process: "process_requests (p, l) = Inr (p1, l1)" using requests by (simp add: process_requests_def p1_def l1_def)
  have core: "same_core p p0" by (rule requests_core [OF requests])
  have stocked: "stocked (crypt E) G p1 l1"
    using requests_stocked [OF requests assms(1,4)] by (simp add: p1_def l1_def stocked_def)
  moreover have inv: "dag_inv (crypt E) p1 ([] @ buffer p1 @ ts)"
    using dag_inv_core [OF core assms(2)] core unfolding p1_def
    by (auto intro: dag_inv_same [rotated -1] simp: same_core_def)
  moreover have p1: "last_round p1 = last_round p" "cur_round p1 = cur_round p" "fail p1 = fail p"
    using core by (simp_all add: p1_def same_core_def)
  moreover have "set (buffer p1) \<subseteq> G" using stocked by (simp add: stocked_def)
  ultimately obtain kept p2 l2 where scan: "scan_buffer E (buffer p1) (p1, l1) = Inr (kept, p2, l2)"
    using scan_buffer_total [of E G p1 l1 "[]" "buffer p1" ts] assms(3,4) by auto
  have stop: "stop_round l2 = stop_round l" using scan_buffer_stop [OF scan] by (simp add: l1_def)
  have p2: "cur_round p2 = cur_round p" "fail p2 = fail p" "last_round p2 = last_round p"
    using scan_buffer_frame [OF scan] p1 by simp_all
  show ?thesis
  proof (cases "stop_round l2 < cur_round p2")
    case True
    with process scan show ?thesis by (auto simp: after_wait_def Let_def)
  next
    case False
    have "wf_peer p2" using scan_buffer_inv [OF scan inv] by (simp add: dag_inv_def)
    with False stop p2 assms(6) have "cur_round p2 \<le> int (length (dag_image p2))" by (simp add: wf_peer_def)
    then have "1 \<le> cur_round (p2\<lparr>buffer := kept\<rparr>)" "cur_round (p2\<lparr>buffer := kept\<rparr>) \<le> int (length (dag_image (p2\<lparr>buffer := kept\<rparr>)))"
      using p2(1) assms(5) by simp_all
    from write_record_total [OF this] obtain r where "write_record (requests_answered l2) (missing_vertices l2) (need_help l2) (help_counter l2) (p2\<lparr>buffer := kept\<rparr>) = Inr r"
      by blast
    with process scan show ?thesis by (auto simp: after_wait_def Let_def)
  qed
qed

section \<open>Before the wait\<close>

lemma foldR_idle: "(\<And>i. i \<in> set is \<Longrightarrow> f i s = Inr s) \<Longrightarrow> foldR f is s = Inr s"
  by (induction "is") auto

lemma total_order_complete:
  assumes "0 \<le> start" and "finish \<le> int (length (dag_image p))"
    and "\<forall>i \<in> {start..<finish}. size_t (crowd p) \<le> int (card (dag_image p ! nat i))"
  shows "total_order E finish start p = Inr p"
  unfolding total_order_def
proof (rule foldR_idle)
  fix i assume "i \<in> set [start..finish - 1]"
  then have i: "start \<le> i" "i < finish" by auto
  then have "size_t (crowd p) \<le> int (card (dag_image p ! nat i))" using assms(3) by simp
  with i assms(1,2) show "bindR (vec_at (dag_image p) i) (\<lambda>D. if int (card D) < size_t (crowd p)
      then foldR (\<lambda>j p. bindR (get_peer_id_at j (client p)) (\<lambda>peerID.
        let hash = hash_256 (crypt E) (to_string (i + 1) @ to_string (uint peerID)) in
        if hash \<notin> D then blame peerID p else Inr p)) [0..crowd p - 2] p
      else Inr p) = Inr p"
    by (simp add: vec_at_def)
qed

text \<open>The ordering that is due in round \<open>r\<close> has the rounds \<open>r - 10\<close> to \<open>r - 7\<close> (from 0) as its window.\<close>

definition orders :: "peer \<Rightarrow> bool" where
  "orders p \<longleftrightarrow> cur_round p mod WAVE = HALF_WAVE \<and> 2 * WAVE < cur_round p"

definition window_full :: "peer \<Rightarrow> bool" where
  "window_full p \<longleftrightarrow> (\<forall>i \<in> {cur_round p - 10..<cur_round p - 6}. crowd p \<le> int (card (dag_image p ! nat i)))"

lemma wave_work_total:
  assumes "wf_peer p" and "cur_round p \<le> last_round p" and "orders p \<Longrightarrow> window_full p"
  shows "\<exists>q. wave_work E p = Inr q"
proof -
  have len: "int (length (dag_image p)) = cur_round p" and cur: "0 \<le> cur_round p" and crowd: "size_t (crowd p) = crowd p"
    using assms(1,2) by (simp_all add: wf_peer_def size_t_def)
  show ?thesis
  proof (cases "orders p")
    case True
    then have "cur_round p mod 4 = 2" "8 < cur_round p" by (simp_all add: orders_def WAVE_def HALF_WAVE_def)
    then have "10 \<le> cur_round p" by presburger
    with True have "total_order E (cur_round p - 6) (cur_round p - 10) p = Inr p"
      using assms(3) len crowd by (intro total_order_complete) (auto simp: orders_def window_full_def WAVE_def HALF_WAVE_def)
    with True show ?thesis by (simp add: wave_work_def orders_def WAVE_def HALF_WAVE_def Let_def)
  next
    case False
    with len dag_scan_eq [of "cur_round p - WAVE" p] show ?thesis
      by (auto simp: wave_work_def orders_def Let_def WAVE_def)
  qed
qed

lemma move_round_total:
  assumes "dag_inv (crypt E) p ws" and "iter_ok (iter E)" and "crypto_ok (crypt E)"
    and "\<forall>D \<in> set (dag_image p). card D \<le> 1023"
    and "int (length (c_sockets (client p))) < crowd p" and "orders p \<Longrightarrow> window_full p"
  shows "\<exists>r. move_round E t (p, l) = Inr r"
proof (cases "cur_round p \<le> last_round p")
  case False
  then show ?thesis by (simp add: move_round_def)
next
  case True
  have wf: "wf_peer p" using assms(1) by (simp add: dag_inv_def)
  then have len: "int (length (dag_image p)) = cur_round p" and cur: "0 \<le> cur_round p"
    using True by (simp_all add: wf_peer_def)
  obtain r where work: "wave_work E p = Inr r" using wave_work_total [OF wf True assms(6)] by blast
  have core: "same_core p r" by (rule wave_work_core [OF work])
  have "\<exists>q. advance E p = Inr q"
  proof (cases "cur_round p < last_round p")
    case True
    have "card (dag_image p ! nat (cur_round p - 1)) \<le> 1023" if "0 < cur_round p"
    proof -
      have "nat (cur_round p - 1) < length (dag_image p)" using that len by linarith
      with assms(4) show ?thesis by simp
    qed
    moreover have "int (length (c_sockets (client r))) \<le> crowd p - 1"
      using wave_work_fewer [OF work] assms(5) by (simp add: fewer_def)
    ultimately show ?thesis using advance_eq [OF assms(1-3) True work] by blast
  next
    case False
    with work core show ?thesis by (simp add: advance_def Let_def same_core_def)
  qed
  moreover have "\<exists>b. can_advance p = Inr b"
    using len cur by (auto simp: can_advance_def vec_at_def)
  moreover have "\<exists>q. dag_scan (cur_round p) (cur_round p - WAVE) p = Inr q"
    using dag_scan_eq [of "cur_round p" p] len by simp
  ultimately show ?thesis by (auto simp: move_round_def)
qed

section \<open>Searches\<close>

lemma request_sends_total:
  assumes "0 \<le> f" and "f < int (length sockets)"
  shows "\<exists>sends freed. request_sends f sockets owner = Inr (sends, freed)"
proof -
  have "nat (f + 1) \<le> length sockets" "int (nat (f + 1)) - 1 = f" using assms by auto
  with request_loop [of "nat (f + 1)" sockets owner] show ?thesis
    by (auto simp: request_sends_def)
qed

lemma check_round_total:
  assumes "wf_peer p" and "crypto_ok (crypt E)" and "\<forall>k xs. length (shuffle E k xs) = length xs"
    and "int (length (peers (client p))) = crowd p - 1" and "byzantines p < int (length (c_sockets (client p)))"
  shows "\<exists>q. check_round E r p = Inr q"
proof -
  let ?I = "\<lambda>q. same_core p q \<and> peers (client q) = peers (client p) \<and> c_sockets (client q) = c_sockets (client p)"
  have byz: "0 \<le> byzantines p" using assms(1) by (simp add: wf_peer_def max_byzantines_div pos_imp_zdiv_nonneg_iff)
  have request: "\<exists>t. make_request E h owner q = Inr t \<and> ?I t" if q: "?I q" and h: "length h = HEX_HASH" for h owner q
  proof -
    have "byzantines q < int (length (shuffle E (requests_asked q) (c_sockets (client q))))" "0 \<le> byzantines q"
      using q byz assms(3,5) by (simp_all add: same_core_def)
    then obtain sends freed where
      "request_sends (byzantines q) (shuffle E (requests_asked q) (c_sockets (client q))) owner = Inr (sends, freed)"
      using request_sends_total by blast
    from make_request_eq [OF h this] q show ?thesis by (simp add: same_core_def)
  qed
  have "\<exists>q. check_round E r p = Inr q \<and> ?I q"
    unfolding check_round_def
  proof (rule foldR_total)
    fix j q assume j: "j \<in> set [0..crowd p - 2]" and q: "?I q"
    then have "\<exists>pid. get_peer_id_at j (client q) = Inr pid"
      using assms(4) by (auto simp: get_peer_id_at_def vec_at_def)
    then obtain pid where pid: "get_peer_id_at j (client q) = Inr pid" ..
    obtain s q' where look: "lookup_socket pid q = (s, q')" by force
    have "?I q'" using q same_core_lookup [OF look] fewer_lookup [OF look] by (auto simp: fewer_def intro: same_core_trans)
    note sent = request [OF this length_hash_256 [OF assms(2)]]
    show "\<exists>t. bindR (get_peer_id_at j (client q)) (\<lambda>peerID.
       if \<not> uset_find peerID (black_list q) then
         (let hash = hash_256 (crypt E) (to_string (r + 1) @ to_string (uint peerID)) in
          if \<not> fst (find_in_map hash None (server q)) then
            (case lookup_socket peerID q of (socket, p') \<Rightarrow> make_request E hash socket p')
          else Inr q)
       else Inr q) = Inr t \<and> ?I t"
      using q sent by (simp add: pid look Let_def)
  qed simp
  then show ?thesis by blast
qed

section \<open>The network\<close>

text \<open>
  C12. Where a validator of a network can fail: whatever has been lost or delayed, what its scan
  thread does behind the wait (answering requests, deciding on every waiting vertex, writing a
  record) always returns, without a fault. So does what it does before the wait (moving to the
  next round and proposing, or launching searches), unless an ordering is due and one of the four
  rounds that it orders is incomplete, so that connections are removed. And a search returns as
  long as more than \<open>f\<close> connections are left.
\<close>

theorem network_faults_confined:
  assumes "good_network N" and "starting N c0" and "\<forall>i < nodes N. linked (nodes N) (c0 i)"
    and "(net_step N)\<^sup>*\<^sup>* c0 c" and "i < nodes N" and "c i = (pc, p, l, lv)"
    and "\<forall>k xs. length (shuffle (env_of N i) k xs) = length xs"
  shows "(pc = Asleep \<longrightarrow> (\<exists>r. after_wait (env_of N i) due (p, l) = Inr r)) \<and>
    ((orders p \<longrightarrow> window_full p) \<longrightarrow> (\<exists>r. move_round (env_of N i) t (p, l) = Inr r)) \<and>
    (byzantines p < int (length (c_sockets (client p))) \<longrightarrow>
       (\<exists>q. check_round (env_of N i) r (p\<lparr>detached := ds\<rparr>) = Inr q))"
proof -
  let ?E = "env_of N i" and ?G = "authored N c"
  have inv: "net_inv N c" by (rule net_reachable [OF assms(2,1,4)])
  note env = good_networkD(2,3) [OF assms(1,5)] and node = net_invD [OF inv assms(1,5,6)]
  have dag: "dag_inv (crypt ?E) p (buffer p @ temp_list lv)" and stocked: "stocked (crypt ?E) ?G p l"
    and crypto: "crypto_ok (crypt ?E)" and honest: "\<forall>v \<in> ?G. honest (last_round p) v"
    using node(1,2,5) env(1) assms(1) inv by (simp_all add: good_network_def net_inv_def)
  then have wf: "wf_peer p" by (simp add: dag_inv_def)
  have "linked (nodes N) (c i)" by (rule link_law.run_law [OF assms(4,3,5)])
  then have links: "int (length (peers (client p))) = crowd p - 1" "int (length (c_sockets (client p))) < crowd p"
    using node(6) by (auto simp: linked_def assms(6))
  have "flagged (c i)"
    using assms(2) by (intro flag_law.run_law [OF assms(4) _ assms(5)]) (simp add: starting_def launched_flagged)
  moreover have "begun (c i)"
    using assms(2) by (intro begun_law.run_law [OF assms(4) _ assms(5)]) (simp add: starting_def launched_begun)
  ultimately have bounds: "stop_round l \<le> last_round p" "pc = Asleep \<Longrightarrow> 1 \<le> cur_round p"
    by (simp_all add: flagged_def begun_def assms(6))
  have "card D \<le> 1023" if "D \<in> set (dag_image p)" for D
  proof -
    obtain k where "k < length (dag_image p)" "D = dag_image p ! k" using \<open>D \<in> set (dag_image p)\<close> by (auto simp: in_set_conv_nth)
    moreover have "filed (lib N) (authored N c) (dag_image p)" using node(2) by (simp add: stocked_def)
    ultimately have "D \<subseteq> round_keys N k" using filed_round_keys by blast
    from card_mono [OF round_keys_card(1) this] round_keys_card(2) [of N k] assms(1) show ?thesis
      by (simp add: good_network_def)
  qed
  then have "(orders p \<longrightarrow> window_full p) \<longrightarrow> (\<exists>r. move_round ?E t (p, l) = Inr r)"
    using move_round_total [OF dag env(2) crypto _ links(2)] by blast
  moreover have "pc = Asleep \<longrightarrow> (\<exists>r. after_wait ?E due (p, l) = Inr r)"
    using after_wait_total [OF stocked dag env(2) honest bounds(2,1)] by blast
  moreover have "byzantines p < int (length (c_sockets (client p))) \<longrightarrow> (\<exists>q. check_round ?E r (p\<lparr>detached := ds\<rparr>) = Inr q)"
    using check_round_total [of "p\<lparr>detached := ds\<rparr>", OF _ crypto assms(7)] wf links(1) by (simp add: wf_peer_def)
  ultimately show ?thesis by blast
qed

theorem network_faults_confined_witness:
  "\<exists>c p l lv. (net_step solo_network)\<^sup>*\<^sup>* solo_start c \<and> c 0 = (Asleep, p, l, lv) \<and> cur_round p = 2 \<and>
     (\<exists>r. after_wait demo_env True (p, l) = Inr r) \<and> (\<exists>r. move_round demo_env 0 (p, l) = Inr r)"
proof -
  obtain c where run: "(net_step solo_network)\<^sup>*\<^sup>* solo_start c" and c: "cur_round (peer_of (c 0)) = 2" "fst (c 0) = Asleep"
    by (rule solo_run)
  then obtain p l lv where c0: "c 0 = (Asleep, p, l, lv)" "cur_round p = 2"
    by (cases "c 0") (auto simp: peer_of_def)
  have "\<forall>i < nodes solo_network. linked (nodes solo_network) (solo_start i)"
    by (simp add: linked_def solo_network_def solo_start_def Client_def)
  moreover have "\<not> orders p" by (simp add: orders_def c0(2) WAVE_def)
  ultimately have "(\<exists>r. after_wait demo_env True (p, l) = Inr r) \<and> (\<exists>r. move_round demo_env 0 (p, l) = Inr r)"
    using network_faults_confined [OF good_solo_network starting_solo _ run _ c0(1)]
    by (simp add: solo_network_def demo_env_def)
  with run c0 show ?thesis by blast
qed

end
