(* ===== verification/Main_Program.thy ===== *)
theory Main_Program
  imports Dag_Hash Wave_Ops
begin

text \<open>
  \<open>main.cpp\<close>: the parent process starts one child per validator, collects the hash of each
  child's DAG through a pipe, compares them and prints a report. The processes themselves are
  the theory \<open>Validator\<close>; here a child is what it writes to the pipe and how it ends.
\<close>

section \<open>Arguments and children\<close>

text \<open>\<open>atoi\<close>, for numbers in the range of an \<open>int\<close>; without a number it yields 0.\<close>

definition atoi :: "string \<Rightarrow> int" where
  "atoi s = (case extract_int s of None \<Rightarrow> 0 | Some n \<Rightarrow> n)"

text \<open>
  The outcome of looking at the command line: leave with success, or go on with the file, the
  number of peers and the last round. \<open>peers.reserve\<close> throws for a negative number, which
  nothing catches.
\<close>

datatype start = Usage | Start string int int

definition arguments :: "string list \<Rightarrow> start res" where
  "arguments argv =
     (case argv of
        [_, filename, quantity, termination] \<Rightarrow>
          (let num_peers = atoi quantity in
           if num_peers < 0 then Inl Uncaught else Inr (Start filename num_peers (atoi termination)))
      | _ \<Rightarrow> Inr Usage)"

text \<open>
  The loop that forks: \<open>fork k\<close> is the result for the \<open>k\<close>-th child, seen by the parent. Each
  child is listed with its pid and the port of its server.
\<close>

definition fork_children :: "(int \<Rightarrow> int) \<Rightarrow> int \<Rightarrow> (int \<times> int) list res" where
  "fork_children fork num_peers =
     foldR (\<lambda>k children.
       let child = fork k in
       if child < 0 then Inl Exit_Failure else Inr (children @ [(child, 4999 + k)]))
     [0..num_peers - 1] []"

text \<open>What a child writes to the pipe when its threads have ended.\<close>

definition child_output :: "env \<Rightarrow> bool \<Rightarrow> peer \<Rightarrow> string res" where
  "child_output E fails p = (if \<not> fails then hash_dag E p else Inr [])"

section \<open>Collecting\<close>

text \<open>
  \<open>read\<close> of up to \<open>HEX_HASH\<close> bytes: \<open>pipe\<close> is what is still to be read (children write 64 bytes
  at once, so a read gets a whole hash or, when no writer is left, nothing); what is not
  overwritten stays in the buffer.
\<close>

definition read_hash :: "string \<Rightarrow> string \<Rightarrow> string \<times> string" where
  "read_hash pipe buf =
     (let got = take HEX_HASH pipe in (got @ drop (length got) buf, drop HEX_HASH pipe))"

text \<open>The buffer as a C string.\<close>

definition c_str :: "string \<Rightarrow> string" where
  "c_str buf = takeWhile (\<lambda>c. c \<noteq> NUL) buf"

text \<open>
  The loop that waits for the children: one pair of pid and status per child, in the order in
  which \<open>wait\<close> returns them. \<open>emplace\<close> does not replace an entry.
\<close>

fun collect :: "(int \<times> int) list \<Rightarrow> string \<Rightarrow> string \<Rightarrow> string list \<Rightarrow> (int \<rightharpoonup> int) \<Rightarrow> string list \<times> (int \<rightharpoonup> int)" where
  "collect [] pipe buf dags exits = (dags, exits)"
| "collect ((child, status) # waits) pipe buf dags exits =
     (case read_hash pipe buf of
        (buf', pipe') \<Rightarrow>
          collect waits pipe' buf' (dags @ [c_str buf'])
            (case exits child of None \<Rightarrow> exits(child \<mapsto> status) | Some _ \<Rightarrow> exits))"

text \<open>The comparison of neighbours; the bound is computed with \<open>size_t\<close> values.\<close>

function compare_dags :: "string list \<Rightarrow> int \<Rightarrow> bool res" where
  "compare_dags dags i =
     (if i < size_t (int (length dags) - 1)
      then bindR (vec_at dags i) (\<lambda>a.
           bindR (vec_at dags (i + 1)) (\<lambda>b.
           if a \<noteq> b then Inr False else compare_dags dags (i + 1)))
      else Inr True)"
  by pat_completeness auto
termination
  by (relation "measure (\<lambda>(dags, i). nat (size_t (int (length dags) - 1) - i))") auto

declare compare_dags.simps [simp del]

definition verdict :: "(int \<times> int) list \<Rightarrow> string \<Rightarrow> bool res" where
  "verdict waits pipe =
     (case collect waits pipe (replicate MAX_STREAM_SIZE NUL) [] Map.empty of (dags, exits) \<Rightarrow> compare_dags dags 0)"

section \<open>The report\<close>

text \<open>The macros of \<open>sys/wait.h\<close> for a status that is not negative.\<close>

definition WIFEXITED :: "int \<Rightarrow> int" where
  "WIFEXITED status = (if status mod 128 = 0 then 1 else 0)"

definition WEXITSTATUS :: "int \<Rightarrow> int" where
  "WEXITSTATUS status = status div 256 mod 256"

definition WIFSIGNALED :: "int \<Rightarrow> int" where
  "WIFSIGNALED status = (if 0 < status mod 128 \<and> status mod 128 < 127 then 1 else 0)"

definition WTERMSIG :: "int \<Rightarrow> int" where
  "WTERMSIG status = status mod 128"

definition report_line :: "int \<Rightarrow> int \<Rightarrow> string" where
  "report_line pid status =
     to_string pid @ [CHR 0x09] @
     (let current_status = WIFEXITED status in
      if current_status \<noteq> 0
      then ''EXITED'' @ [CHR 0x09] @ to_string (WEXITSTATUS current_status) @ [CHR 0x0A]
      else
        let current_status = WIFSIGNALED status in
        if current_status \<noteq> 0
        then ''SIGNALED'' @ [CHR 0x09] @ to_string (WTERMSIG current_status) @ [CHR 0x0A]
        else [])"

definition report :: "(int \<rightharpoonup> int) \<Rightarrow> string" where
  "report exits = concat (map (\<lambda>pid. report_line pid (the (exits pid))) (sorted_list_of_set (dom exits)))"

section \<open>The whole program\<close>

text \<open>
  \<open>main\<close>, as the parent runs it: the results of \<open>pipe\<close> and \<open>fork\<close>, what \<open>wait\<close> returns each time,
  and what the children write to the pipe are arguments. The value is what is printed (but for the
  line with the process id and the one with the time).
\<close>

definition usage :: string where
  "usage = ''Execution template:  ./main.exe <file.txt> < peers quantity> <termination round>'' @ [CHR 0x0A]"

definition main_program :: "string list \<Rightarrow> int \<Rightarrow> (int \<Rightarrow> int) \<Rightarrow> (nat \<Rightarrow> int \<times> int) \<Rightarrow> string \<Rightarrow> string res" where
  "main_program argv pipe_result fork wait pipe =
     bindR (arguments argv) (\<lambda>a. case a of
         Usage \<Rightarrow> Inr usage
       | Start filename num_peers termination_round \<Rightarrow>
           if pipe_result \<noteq> 0 then Inl Exit_Failure
           else
             bindR (fork_children fork num_peers) (\<lambda>children.
             case collect (map wait [0..<nat num_peers]) pipe (replicate MAX_STREAM_SIZE NUL) [] Map.empty of
               (dags, exits) \<Rightarrow>
                 bindR (compare_dags dags 0) (\<lambda>equal.
                 Inr (''Pipe created successfuly'' @ [CHR 0x0A] @
                      ''PID'' @ [CHR 0x09] @ ''STATUS'' @ [CHR 0x09] @ ''EXIT STATUS'' @ [CHR 0x0A] @
                      report exits @
                      ''By the end, all peers think of the same DAG: '' @ (if equal then ''true'' else ''false'') @ [CHR 0x0A]))))"

section \<open>What the parent concludes\<close>

text \<open>A DAG hash, as it is written to the pipe.\<close>

definition hash_text :: "string \<Rightarrow> bool" where
  "hash_text h \<longleftrightarrow> length h = HEX_HASH \<and> NUL \<notin> set h"

lemma c_str_hash: "hash_text h \<Longrightarrow> c_str (h @ replicate n NUL) = h"
  unfolding c_str_def hash_text_def by (cases n) (auto simp: takeWhile_append)

lemma read_hash_next:
  assumes "hash_text h" and "hash_text g" and "HEX_HASH \<le> n"
  shows "read_hash (h @ pipe) (replicate n NUL) = (h @ replicate (n - HEX_HASH) NUL, pipe)"
    and "read_hash (h @ pipe) (g @ zs) = (h @ zs, pipe)"
  using assms by (simp_all add: read_hash_def hash_text_def)

lemma read_hash_end: "read_hash [] buf = (buf, [])"
  by (simp add: read_hash_def)

text \<open>
  The list of hashes as the parent sees it: one entry per child, the hashes in the order in which
  they were written; when the pipe has run dry, the last one again.
\<close>

lemma collect_after:
  assumes "hash_text g" and "\<forall>h \<in> set hs. hash_text h" and "length hs \<le> length waits"
  shows "fst (collect waits (concat hs) (g @ replicate n NUL) dags exits) =
    dags @ hs @ replicate (length waits - length hs) (last (g # hs))"
  using assms
proof (induction waits arbitrary: g hs dags exits)
  case Nil
  then show ?case by simp
next
  case (Cons w waits)
  obtain child status where w: "w = (child, status)" by force
  show ?case
  proof (cases hs)
    case Nil
    with Cons.IH [OF Cons.prems(1), of "[]"] Cons.prems(1) show ?thesis
      by (simp add: w read_hash_end c_str_hash)
  next
    case (Cons h hs')
    with Cons.prems have h: "hash_text h" "\<forall>h \<in> set hs'. hash_text h" "length hs' \<le> length waits" by auto
    have "read_hash (concat hs) (g @ replicate n NUL) = (h @ replicate n NUL, concat hs')"
      using read_hash_next(2) [OF h(1) Cons.prems(1), of HEX_HASH "concat hs'" "replicate n NUL"] by (simp add: Cons)
    with Cons.IH [OF h] Cons h(1) show ?thesis
      by (simp add: w c_str_hash)
  qed
qed

lemma collect_hashes:
  assumes "\<forall>h \<in> set hs. hash_text h" and "length hs \<le> length waits" and "hs \<noteq> []"
  shows "fst (collect waits (concat hs) (replicate MAX_STREAM_SIZE NUL) [] Map.empty) =
    hs @ replicate (length waits - length hs) (last hs)"
proof -
  obtain h hs' where hs: "hs = h # hs'" using assms(3) by (cases hs) auto
  obtain child status waits' where waits: "waits = (child, status) # waits'"
    using assms(2) hs by (cases waits) auto
  have "read_hash (concat hs) (replicate MAX_STREAM_SIZE NUL) = (h @ replicate (MAX_STREAM_SIZE - HEX_HASH) NUL, concat hs')"
    using read_hash_next(1) [of h h MAX_STREAM_SIZE "concat hs'"] assms(1)
    by (simp add: hs MAX_STREAM_SIZE_def HEX_HASH_def)
  then show ?thesis
    using collect_after [of h hs' waits' "MAX_STREAM_SIZE - HEX_HASH" "[h]" "Map.empty(child \<mapsto> status)"] assms
    by (simp add: waits hs c_str_hash)
qed

lemma compare_dags_from:
  assumes "i < length dags" and "length dags < 2 ^ 63"
  shows "compare_dags dags (int i) = Inr (\<forall>j. i \<le> j \<and> j < length dags \<longrightarrow> dags ! j = dags ! i)"
  using assms(1)
proof (induction "length dags - i" arbitrary: i)
  case 0
  then show ?case by simp
next
  case (Suc n)
  have bound: "size_t (int (length dags) - 1) = int (length dags) - 1"
    using Suc.prems assms(2) by (intro size_t_id) auto
  show ?case
  proof (cases "Suc i < length dags")
    case False
    with Suc.prems have len: "length dags = Suc i" by simp
    then have "\<not> int i < size_t (int (length dags) - 1)" unfolding bound by simp
    then have "compare_dags dags (int i) = Inr True" by (subst compare_dags.simps) simp
    then show ?thesis using len by (auto simp: less_Suc_eq_le dest: le_antisym)
  next
    case True
    have n: "n = length dags - Suc i" using Suc.hyps(2) by simp
    have IH: "compare_dags dags (int i + 1) = Inr (\<forall>j. Suc i \<le> j \<and> j < length dags \<longrightarrow> dags ! j = dags ! Suc i)"
      using Suc.hyps(1) [OF n True] by (simp add: add.commute)
    have split: "(\<forall>j. i \<le> j \<and> j < length dags \<longrightarrow> dags ! j = dags ! i) \<longleftrightarrow>
        dags ! i = dags ! Suc i \<and> (\<forall>j. Suc i \<le> j \<and> j < length dags \<longrightarrow> dags ! j = dags ! Suc i)"
      using True by (metis Suc_leD Suc_leI le_neq_implies_less lessI less_imp_le order_refl)
    have "vec_at dags (int i) = Inr (dags ! i)" "vec_at dags (int i + 1) = Inr (dags ! Suc i)"
      using True by (auto simp: vec_at_def nat_add_distrib)
    then show ?thesis
      unfolding split using True IH by (subst compare_dags.simps) (simp add: bound)
  qed
qed

lemma compare_dags_all:
  assumes "dags \<noteq> []" and "length dags < 2 ^ 63"
  shows "compare_dags dags 0 = Inr (\<forall>a \<in> set dags. \<forall>b \<in> set dags. a = b)"
proof -
  have "compare_dags dags 0 = Inr (\<forall>j < length dags. dags ! j = dags ! 0)"
    using compare_dags_from [of 0 dags] assms by simp
  also have "(\<forall>j < length dags. dags ! j = dags ! 0) \<longleftrightarrow> (\<forall>a \<in> set dags. a = hd dags)"
    using assms(1) by (simp add: all_set_conv_all_nth hd_conv_nth)
  also have "\<dots> \<longleftrightarrow> (\<forall>a \<in> set dags. \<forall>b \<in> set dags. a = b)"
    using assms(1) hd_in_set by metis
  finally show ?thesis .
qed

lemma verdict_hashes:
  assumes "\<forall>h \<in> set hs. hash_text h" and "hs \<noteq> []" and "length hs \<le> length waits" and "length waits < 2 ^ 63"
  shows "verdict waits (concat hs) = Inr (\<forall>a \<in> set hs. \<forall>b \<in> set hs. a = b)"
proof -
  let ?all = "hs @ replicate (length waits - length hs) (last hs)"
  obtain dags exits where collect: "collect waits (concat hs) (replicate MAX_STREAM_SIZE NUL) [] Map.empty = (dags, exits)"
    by force
  then have dags: "dags = ?all" using collect_hashes [OF assms(1,3,2)] by simp
  have "set ?all = set hs" using assms(2) by (auto simp: set_replicate_conv_if)
  moreover have "length ?all < 2 ^ 63" using assms(3,4) by simp
  ultimately show ?thesis
    using compare_dags_all [of ?all] assms(2) by (simp add: verdict_def collect dags)
qed

text \<open>
  The parent's verdict is right when every child has reported: it says that all peers think of
  the same DAG exactly if all reported hashes are equal, in whatever order the children end and
  in whatever order they have written.
\<close>

theorem verdict_compares_hashes:
  assumes "\<forall>h \<in> set hs. hash_text h" and "length hs = length waits" and "hs \<noteq> []" and "length waits < 2 ^ 63"
  shows "verdict waits (concat hs) = Inr (\<forall>a \<in> set hs. \<forall>b \<in> set hs. a = b)"
  using assms by (intro verdict_hashes) auto

theorem verdict_compares_hashes_witness:
  "verdict [(101, 0), (100, 0)] (concat [replicate 64 CHR ''A'', replicate 64 CHR ''B'']) = Inr False"
  using verdict_compares_hashes [of "[replicate 64 CHR ''A'', replicate 64 CHR ''B'']" "[(101, 0), (100, 0)]"]
  by (simp add: hash_text_def HEX_HASH_def NUL_def)

lemma collect_nothing:
  "fst (collect waits [] (replicate n NUL) dags exits) = dags @ replicate (length waits) []"
proof (induction waits arbitrary: dags exits)
  case Nil
  then show ?case by simp
next
  case (Cons w waits)
  have "c_str (replicate n NUL) = []" by (simp add: c_str_def)
  with Cons.IH show ?case by (cases w) (simp add: read_hash_end)
qed

text \<open>
  A child that ends without a report does not count: the read leaves the buffer as it was, so
  the child is credited with the hash that was read last, and the verdict is the one on the
  others; if no child reports at all, the verdict is that all think of the same DAG.
\<close>

theorem silent_children_agree:
  assumes "\<forall>h \<in> set hs. hash_text h" and "length hs < length waits" and "length waits < 2 ^ 63"
  shows "verdict waits (concat hs) = Inr (\<forall>a \<in> set hs. \<forall>b \<in> set hs. a = b)"
proof (cases "hs = []")
  case True
  obtain dags exits where collect: "collect waits [] (replicate MAX_STREAM_SIZE NUL) [] Map.empty = (dags, exits)"
    by force
  then have "dags = replicate (length waits) []"
    using collect_nothing [of waits MAX_STREAM_SIZE "[]" Map.empty] by simp
  then show ?thesis
    using True assms(2,3) compare_dags_all [of dags] by (auto simp: verdict_def collect)
next
  case False
  then show ?thesis using assms by (intro verdict_hashes) auto
qed

theorem silent_children_agree_witness:
  "verdict [(101, 139), (100, 0)] (concat [replicate 64 CHR ''A'']) = Inr True \<and> verdict [(101, 139), (100, 139)] [] = Inr True"
  using silent_children_agree [of "[replicate 64 CHR ''A'']" "[(101, 139), (100, 0)]"]
    silent_children_agree [of "[]" "[(101, 139), (100, 139)]"]
  by (simp add: hash_text_def HEX_HASH_def NUL_def)

text \<open>
  With no children at all the bound of the comparison wraps around, and the first comparison
  reads outside the empty vector.
\<close>

lemma no_children_fault: "verdict [] pipe = Inl Out_Of_Bounds"
  by (simp add: verdict_def compare_dags.simps vec_at_def size_t_def)

text \<open>
  The exit statuses in the report are not those of the children: the macros are applied to the
  result of the test instead of the status, so a child that has exited is always reported with
  status 0 and a child that was killed always with signal 1.
\<close>

theorem report_ignores_status:
  "report_line pid status =
     (if status mod 128 = 0 then to_string pid @ [CHR 0x09] @ ''EXITED'' @ [CHR 0x09] @ ''0'' @ [CHR 0x0A]
      else if 0 < status mod 128 \<and> status mod 128 < 127
      then to_string pid @ [CHR 0x09] @ ''SIGNALED'' @ [CHR 0x09] @ ''1'' @ [CHR 0x0A]
      else to_string pid @ [CHR 0x09])"
proof -
  have "to_string 0 = ''0''" "to_string 1 = ''1''"
    by (simp_all add: to_string_def dec_digits.simps digit_char_def char_of_def bit_0)
  then show ?thesis
    by (simp add: report_line_def WIFEXITED_def WEXITSTATUS_def WIFSIGNALED_def WTERMSIG_def Let_def)
qed

text \<open>
  The parent forks one child per peer, on consecutive ports from 4999 on, unless a fork fails.
\<close>

lemma fork_children_ports:
  assumes "\<forall>k \<in> {0..<n}. 0 \<le> fork k"
  shows "fork_children fork n = Inr (map (\<lambda>k. (fork k, 4999 + k)) [0..n - 1])"
proof -
  have "foldR (\<lambda>k children. let child = fork k in if child < 0 then Inl Exit_Failure else Inr (children @ [(child, 4999 + k)])) ks acc =
      Inr (acc @ map (\<lambda>k. (fork k, 4999 + k)) ks)" if "\<forall>k \<in> set ks. 0 \<le> fork k" for ks acc
    using that by (induction ks arbitrary: acc) (auto simp: Let_def)
  with assms show ?thesis by (simp add: fork_children_def)
qed

lemma atoi_to_string: "0 \<le> n \<Longrightarrow> n < 2 ^ 31 \<Longrightarrow> atoi (to_string n) = n"
proof -
  assume n: "0 \<le> n" "n < 2 ^ 31"
  have "extract_int (CHR '' '' # to_string n) = extract_int (to_string n)"
    by (simp add: extract_int_def isspace_def)
  with extract_int_to_string [OF n] show ?thesis by (simp add: atoi_def)
qed

lemma verdict_reports:
  assumes "\<forall>h \<in> set hs. hash_text h" and "length hs \<le> length waits" and "waits \<noteq> []" and "length waits < 2 ^ 63"
  shows "verdict waits (concat hs) = Inr (\<forall>a \<in> set hs. \<forall>b \<in> set hs. a = b)"
proof (cases "hs = []")
  case True
  obtain dags exits where collect: "collect waits [] (replicate MAX_STREAM_SIZE NUL) [] Map.empty = (dags, exits)"
    by force
  then have "dags = replicate (length waits) []"
    using collect_nothing [of waits MAX_STREAM_SIZE "[]" Map.empty] by simp
  then show ?thesis
    using True assms(3,4) compare_dags_all [of dags] by (auto simp: verdict_def collect)
next
  case False
  then show ?thesis using assms by (intro verdict_hashes) auto
qed

lemma child_output_text:
  assumes "crypto_ok C" and "crypt E = C" and "child_output E False p = Inr h"
  shows "hash_text h"
proof -
  obtain x where "h = hash_256 C x"
    using assms(2,3) by (auto simp: child_output_def hash_dag_def bindR_Inr_iff)
  moreover have "NUL \<notin> set hex_digits" by (simp add: hex_digits_def NUL_def)
  ultimately show ?thesis
    using length_hash_256 [OF assms(1), of x] set_hash_256 [OF assms(1), of x] by (auto simp: hash_text_def)
qed

lemma main_prints:
  assumes "1 \<le> n" and "n < 2 ^ 31" and "0 \<le> t" and "t < 2 ^ 31" and "\<forall>k \<in> {0..<n}. 0 \<le> fork k"
    and "\<forall>h \<in> set hs. hash_text h" and "int (length hs) \<le> n"
  shows "\<exists>out. main_program [name, filename, to_string n, to_string t] 0 fork wait (concat hs) =
    Inr (out @ ''By the end, all peers think of the same DAG: '' @
      (if \<forall>a \<in> set hs. \<forall>b \<in> set hs. a = b then ''true'' else ''false'') @ [CHR 0x0A])"
proof -
  have "arguments [name, filename, to_string n, to_string t] = Inr (Start filename n t)"
    using assms(1-4) by (simp add: arguments_def atoi_to_string)
  moreover obtain children where "fork_children fork n = Inr children"
    using fork_children_ports [OF assms(5)] by blast
  moreover obtain dags exits where collect:
    "collect (map wait [0..<nat n]) (concat hs) (replicate MAX_STREAM_SIZE NUL) [] Map.empty = (dags, exits)"
    by force
  moreover have "verdict (map wait [0..<nat n]) (concat hs) = Inr (\<forall>a \<in> set hs. \<forall>b \<in> set hs. a = b)"
    using assms(1,2,6,7) by (intro verdict_reports) auto
  then have "compare_dags dags 0 = Inr (\<forall>a \<in> set hs. \<forall>b \<in> set hs. a = b)"
    by (simp add: verdict_def collect)
  ultimately show ?thesis
    by (simp add: main_program_def)
qed

text \<open>
  C25. The program from its arguments to its last line: started with a file, a number of peers and
  a last round, with a pipe and no failing fork, it ends normally, and its last line says \<open>true\<close>
  exactly if all the hashes that the children have written are equal. A child that ends without
  a report does not count, and if none reports the answer is \<open>true\<close>.
\<close>

theorem main_output:
  assumes "1 \<le> n" and "n < 2 ^ 31" and "0 \<le> t" and "t < 2 ^ 31" and "\<forall>k \<in> {0..<n}. 0 \<le> fork k"
    and "\<forall>h \<in> set hs. hash_text h" and "int (length hs) \<le> n"
  shows "\<exists>out. main_program [name, filename, to_string n, to_string t] 0 fork wait (concat hs) =
    Inr (out @ ''By the end, all peers think of the same DAG: '' @
      (if \<forall>a \<in> set hs. \<forall>b \<in> set hs. a = b then ''true'' else ''false'') @ [CHR 0x0A])"
  using assms by (rule main_prints)

theorem main_output_witness:
  "\<exists>out. main_program [''main'', ''a.txt'', to_string 2, to_string 20] 0 (\<lambda>k. 100 + k) (\<lambda>i. (100 + int i, 0))
     (concat [replicate 64 CHR ''A'', replicate 64 CHR ''B'']) =
   Inr (out @ ''By the end, all peers think of the same DAG: '' @ ''false'' @ [CHR 0x0A])"
  using main_output [of 2 20 "\<lambda>k. 100 + k" "[replicate 64 CHR ''A'', replicate 64 CHR ''B'']" "''main''" "''a.txt''" "\<lambda>i. (100 + int i, 0)"]
  by (simp add: hash_text_def HEX_HASH_def NUL_def)

section \<open>The signal handlers\<close>

text \<open>
  The two handlers, which \<open>main\<close> does not install: each appends a line to the file \<open>Action.txt\<close> and
  raises its signal again. The values are the file afterwards and the signal that is raised.
\<close>

definition sighandler :: "int \<Rightarrow> int \<Rightarrow> string \<Rightarrow> string \<times> int" where
  "sighandler ppid signal file = (file @ to_string ppid @ [CHR 0x0A], signal)"

definition signalHandler :: "int \<Rightarrow> int \<Rightarrow> int \<Rightarrow> string \<Rightarrow> string \<times> int" where
  "signalHandler ppid si_pid signum file = (file @ to_string si_pid @ to_string ppid @ [CHR 0x0A], signum)"

text \<open>A signal that is handled by \<open>sighandler\<close>, as often as \<open>n\<close> times: each time it raises itself.\<close>

definition handled :: "int \<Rightarrow> int \<Rightarrow> nat \<Rightarrow> string \<Rightarrow> string \<times> int" where
  "handled ppid signal n file = ((\<lambda>(file, signal). sighandler ppid signal file) ^^ n) (file, signal)"

text \<open>
  So as a handler \<open>sighandler\<close> would never let the signal end the process: the signal is still
  raised after any number of turns, and the file has grown by a line in each.
\<close>

theorem sighandler_loops:
  "handled ppid signal n file = (file @ concat (replicate n (to_string ppid @ [CHR 0x0A])), signal)"
proof (induction n)
  case (Suc n)
  have "concat (replicate n xs) @ xs = xs @ concat (replicate n xs)" for xs :: string
    by (induction n) simp_all
  with Suc show ?case by (simp add: handled_def sighandler_def)
qed (simp add: handled_def)

text \<open>The line of the other handler has no separator between the two ids, so it can be read in several ways.\<close>

theorem signal_line_ambiguous:
  "signalHandler 23 1 signum file = signalHandler 3 12 signum file"
  by (simp add: signalHandler_def to_string_def dec_digits.simps)

end
