(* ===== verification/Convergence.thy ===== *)
theory Convergence
  imports Faults Main_Program
begin

text \<open>
  From the network to the answer of the program. The DAG of a validator that has nothing left to
  add is a function of the vertices that it has stored, so validators that have stored the same
  vertices have the same DAG, whatever came when; then they report the same hash, and the parent
  process prints \<open>true\<close>.
\<close>

section \<open>Nothing left to add\<close>

text \<open>The vertices that a validator has stored, up to a round.\<close>

definition stored_until :: "int \<Rightarrow> validator \<Rightarrow> vertex set" where
  "stored_until r s = {v \<in> ran (known s). sint (vround v) \<le> r}"

text \<open>
  \<open>idle_until r s\<close>: every vertex up to round \<open>r\<close> that still waits has a reference that is not in
  the round before.
\<close>

definition stuck :: "peer \<Rightarrow> vertex \<Rightarrow> bool" where
  "stuck p v \<longleftrightarrow> sint (vround v) \<noteq> 1 \<and> \<not> set (references v) \<subseteq> dag_image p ! nat (sint (vround v) - 2)"

definition idle_until :: "int \<Rightarrow> validator \<Rightarrow> bool" where
  "idle_until r = (\<lambda>(pc, p, l, lv). \<forall>v \<in> set (buffer p) \<union> set (temp_list lv). sint (vround v) \<le> r \<longrightarrow> stuck p v)"

text \<open>A scan that takes nothing from the buffer has found all of it stuck.\<close>

lemma scan_one_keeps:
  assumes "scan_one E v (p, l) = Inr (True, q, l')" and "sint (vround v) \<le> cur_round p"
  shows "q = p \<and> stuck p v"
  using assms
  by (auto simp: scan_one_def Let_def bindR_Inr_iff mutual_history_eq stuck_def split: if_splits prod.splits)

lemma scan_buffer_length: "scan_buffer E vs st = Inr (kept, st') \<Longrightarrow> length kept \<le> length vs"
proof (induction vs arbitrary: st kept)
  case (Cons v vs)
  then show ?case by (fastforce simp: bindR_Inr_iff split: if_splits)
qed simp

lemma scan_buffer_keeps:
  assumes "scan_buffer E vs (p, l) = Inr (kept, q, l')" and "length kept = length vs"
    and "v \<in> set vs" and "sint (vround v) \<le> cur_round p"
  shows "stuck p v"
  using assms
proof (induction vs arbitrary: p l kept)
  case (Cons w vs)
  from Cons.prems(1) obtain keep p' l2 kept' where one: "scan_one E w (p, l) = Inr (keep, p', l2)"
    and rest: "scan_buffer E vs (p', l2) = Inr (kept', q, l')" and kept: "kept = (if keep then w # kept' else kept')"
    by (auto simp: bindR_Inr_iff)
  have "length kept' \<le> length vs" using scan_buffer_length [OF rest] .
  with Cons.prems(2) kept have keep: "keep" "length kept' = length vs" by (auto split: if_splits)
  have "p' = p" using one keep(1) by (auto simp: scan_one_def Let_def bindR_Inr_iff split: if_splits prod.splits)
  show ?case
  proof (cases "v = w")
    case True
    with one keep(1) have "scan_one E v (p, l) = Inr (True, p', l2)" by simp
    from scan_one_keeps [OF this Cons.prems(4)] show ?thesis by simp
  next
    case False
    with Cons.IH [OF rest keep(2)] Cons.prems(3,4) \<open>p' = p\<close> show ?thesis by simp
  qed
qed simp

section \<open>Equal stores, equal DAGs\<close>

lemma dag_member:
  assumes "good_network N" and "net_inv N c" and "i < nodes N"
    and "k < length (dag_image (peer_of (c i)))" and "h \<in> dag_image (peer_of (c i)) ! k"
  obtains v where "known (c i) h = Some v" and "sint (vround v) = int k + 1" and "v \<in> authored N c" and "vertex_hash (lib N) v = h"
    and "0 < k \<longrightarrow> set (references v) \<subseteq> dag_image (peer_of (c i)) ! (k - 1)"
proof -
  note dag = node_dag [OF assms(1-3)]
  have "vouched (lib N) (peer_of (c i)) k h"
    using dag(1,5) assms(4,5) by (simp add: supported_def all_alien_def)
  then obtain v where v: "known (c i) h = Some v" "sint (vround v) = int k + 1"
    "0 < k \<longrightarrow> set (references v) \<subseteq> dag_image (peer_of (c i)) ! (k - 1)"
    by (auto simp: vouched_def known_def)
  from that [OF v(1,2) known_authored [OF assms(2,1,3) v(1)] v(3)] show thesis .
qed

lemma stored_in_dag:
  assumes "good_network N" and "net_inv N c" and "j < nodes N" and "idle_until r (c j)"
    and "v \<in> ran (known (c j))" and "sint (vround v) = int k + 1" and "int k < r"
    and "0 < k \<longrightarrow> set (references v) \<subseteq> dag_image (peer_of (c j)) ! (k - 1)"
  shows "vertex_hash (lib N) v \<in> dag_image (peer_of (c j)) ! k"
proof -
  obtain pc q l lv where c: "c j = (pc, q, l, lv)" by (metis prod_cases4)
  note node = net_invD [OF assms(2,1,3) c]
  let ?h = "vertex_hash (lib N) v"
  obtain g where "known (c j) g = Some v" using assms(5) by (auto simp: ran_def)
  with known_authored [OF assms(2,1,3) this] have v: "known (c j) ?h = Some v" "v \<in> authored N c" by auto
  then have "?h \<in> vertex_hash (lib N) ` (set (buffer q) \<union> set (temp_list lv)) \<union> \<Union> (set (dag_image q))"
    using node(1) by (auto simp: dag_inv_def conserved_def known_def peer_of_def c)
  then consider (waits) w where "w \<in> set (buffer q) \<union> set (temp_list lv)" "?h = vertex_hash (lib N) w"
    | (filed) D where "D \<in> set (dag_image q)" "?h \<in> D"
    by blast
  then show ?thesis
  proof cases
    case waits
    then have "w \<in> authored N c" using node(2,3) by (auto simp: stocked_def fed_def)
    with authored_inject [OF assms(1,2) _ v(2)] waits(2) have "w = v" by simp
    with waits(1) assms(4,6,7) have "stuck q v" by (auto simp: idle_until_def c)
    with assms(6,8) show ?thesis by (auto simp: stuck_def c peer_of_def nat_diff_distrib')
  next
    case filed
    then obtain m where m: "m < length (dag_image q)" "?h \<in> dag_image q ! m" by (auto simp: in_set_conv_nth)
    then obtain w where "known (c j) ?h = Some w" "sint (vround w) = int m + 1"
      using dag_member [OF assms(1-3), of m ?h] by (auto simp: c peer_of_def)
    with v(1) assms(6) have "m = k" by simp
    with m(2) show ?thesis by (simp add: c peer_of_def)
  qed
qed

lemma rounds_agree:
  assumes "good_network N" and "net_inv N c" and "i < nodes N" and "j < nodes N"
    and "idle_until r (c i)" and "idle_until r (c j)" and "stored_until r (c i) = stored_until r (c j)"
    and "int k < r" and "k < length (dag_image (peer_of (c i)))" and "k < length (dag_image (peer_of (c j)))"
  shows "dag_image (peer_of (c i)) ! k = dag_image (peer_of (c j)) ! k"
  using assms(8-10)
proof (induction k)
  have half: "dag_image (peer_of (c i)) ! k \<subseteq> dag_image (peer_of (c j)) ! k"
    if n: "i < nodes N" "j < nodes N" and idle: "idle_until r (c j)" and same: "stored_until r (c i) = stored_until r (c j)"
      and k: "int k < r" "k < length (dag_image (peer_of (c i)))"
      and before: "0 < k \<longrightarrow> dag_image (peer_of (c i)) ! (k - 1) = dag_image (peer_of (c j)) ! (k - 1)" for i j k
  proof
    fix h assume "h \<in> dag_image (peer_of (c i)) ! k"
    then obtain v where v: "known (c i) h = Some v" "sint (vround v) = int k + 1" "vertex_hash (lib N) v = h"
      "0 < k \<longrightarrow> set (references v) \<subseteq> dag_image (peer_of (c i)) ! (k - 1)"
      by (rule dag_member [OF assms(1,2) n(1) k(2)]) (rule that)
    then have "v \<in> stored_until r (c i)" using k(1) by (auto simp: stored_until_def intro: ranI)
    then have "v \<in> ran (known (c j))" unfolding same by (simp add: stored_until_def)
    from stored_in_dag [OF assms(1,2) n(2) idle this v(2) k(1)] v(3,4) before
    show "h \<in> dag_image (peer_of (c j)) ! k" by auto
  qed
  {
    case 0
    with half [OF assms(3,4,6,7), of 0] half [OF assms(4,3,5) assms(7) [symmetric], of 0] show ?case by auto
  next
    case (Suc k)
    then have "dag_image (peer_of (c i)) ! k = dag_image (peer_of (c j)) ! k" by simp
    with Suc.prems half [OF assms(3,4,6,7), of "Suc k"] half [OF assms(4,3,5) assms(7) [symmetric], of "Suc k"]
    show ?case by auto
  }
qed

lemma converged:
  assumes "good_network N" and "net_inv N c" and "i < nodes N" and "j < nodes N"
    and "stored_until r (c i) = stored_until r (c j)" and "idle_until r (c i)" and "idle_until r (c j)"
    and "r \<le> int (length (dag_image (peer_of (c i))))" and "r \<le> int (length (dag_image (peer_of (c j))))"
  shows "take (nat r) (dag_image (peer_of (c i))) = take (nat r) (dag_image (peer_of (c j)))"
  using rounds_agree [OF assms(1-4,6,7,5)] assms(8,9) by (intro nth_equalityI) auto

text \<open>
  C4. Convergence: two validators of a network that have stored the same vertices up to a round,
  and have nothing left to add up to it, have the same DAG up to it, whatever has been lost, in
  whatever order the vertices came, and whatever else they have done.
\<close>

theorem network_convergence:
  assumes "good_network N" and "starting N c0" and "(net_step N)\<^sup>*\<^sup>* c0 c" and "i < nodes N" and "j < nodes N"
    and "stored_until r (c i) = stored_until r (c j)" and "idle_until r (c i)" and "idle_until r (c j)"
    and "r \<le> int (length (dag_image (peer_of (c i))))" and "r \<le> int (length (dag_image (peer_of (c j))))"
  shows "take (nat r) (dag_image (peer_of (c i))) = take (nat r) (dag_image (peer_of (c j)))"
proof -
  have inv: "net_inv N c" by (rule net_reachable [OF assms(2,1,3)])
  show ?thesis by (rule converged [OF assms(1) inv assms(4-10)])
qed

section \<open>From the network to the last line of the program\<close>

text \<open>What a validator that is in its last round, or past it, writes to the pipe.\<close>

lemma finished_output:
  assumes "good_network N" and "net_inv N c" and "i < nodes N"
    and "12 \<le> horizon N" and "horizon N \<le> cur_round (peer_of (c i))"
  shows "int (length (dag_image (peer_of (c i)))) = horizon N"
    and "child_output (env_of N i) False (peer_of (c i)) = Inr (hash_256 (lib N) (concat (map (\<lambda>D. hash_256 (lib N) (round_text D))
      (take (nat (horizon N - 12)) (dag_image (peer_of (c i)))))))"
proof -
  let ?p = "peer_of (c i)"
  have wf: "wf_peer ?p" by (rule node_dag(3) [OF assms(1-3)])
  moreover have "last_round ?p = horizon N" using assms(2,3) by (simp add: net_inv_def)
  ultimately show len: "int (length (dag_image ?p)) = horizon N" using assms(5) by (simp add: wf_peer_def)
  have "horizon N < 8960" using assms(1) by (simp add: good_network_def)
  moreover have "nat (horizon N - 12) = length (dag_image ?p) - 12" using len by simp
  ultimately show "child_output (env_of N i) False ?p = Inr (hash_256 (lib N) (concat (map (\<lambda>D. hash_256 (lib N) (round_text D))
      (take (nat (horizon N - 12)) (dag_image ?p)))))"
    using hash_dag_eq [OF good_networkD(3) [OF assms(1,3)], of ?p] wf len assms(4) good_networkD(2) [OF assms(1,3)]
    by (simp add: child_output_def wf_peer_def)
qed

lemma prints_true:
  assumes "good_network N" and "net_inv N c" and "set rs \<subseteq> {..<nodes N}" and "length rs \<le> nodes N" and "0 < nodes N"
    and "12 \<le> horizon N" and "\<forall>i \<in> set rs. horizon N \<le> cur_round (peer_of (c i))"
    and "\<forall>i \<in> set rs. \<forall>j \<in> set rs. take (nat (horizon N - 12)) (dag_image (peer_of (c i))) =
      take (nat (horizon N - 12)) (dag_image (peer_of (c j)))"
    and "\<forall>k \<in> {0..<int (nodes N)}. 0 \<le> fork k"
  shows "\<exists>hs out. list_all2 (\<lambda>i h. child_output (env_of N i) False (peer_of (c i)) = Inr h) rs hs \<and>
    main_program [name, filename, to_string (int (nodes N)), to_string (horizon N)] 0 fork wait (concat hs) =
      Inr (out @ ''By the end, all peers think of the same DAG: true'' @ [CHR 0x0A])"
proof -
  let ?text = "\<lambda>i. hash_256 (lib N) (concat (map (\<lambda>D. hash_256 (lib N) (round_text D))
      (take (nat (horizon N - 12)) (dag_image (peer_of (c i))))))"
  let ?hs = "map ?text rs"
  have out: "child_output (env_of N i) False (peer_of (c i)) = Inr (?text i)" if "i \<in> set rs" for i
    using finished_output(2) [OF assms(1,2) _ assms(6)] that assms(3,7) by auto
  have "hash_text (?text i)" if "i \<in> set rs" for i
    using child_output_text [OF _ _ out [OF that]] good_networkD(2) [OF assms(1)] that assms(1,3)
    by (auto simp: good_network_def)
  then have texts: "\<forall>h \<in> set ?hs. hash_text h" by simp
  have "?text i = ?text j" if "i \<in> set rs" "j \<in> set rs" for i j
    using bspec [OF bspec [OF assms(8) that(1)] that(2)] by (simp only:)
  then have equal: "\<forall>a \<in> set ?hs. \<forall>b \<in> set ?hs. a = b" unfolding set_map by blast
  have "horizon N < 8960" "nodes N \<le> 398" using assms(1) by (simp_all add: good_network_def)
  then have "1 \<le> int (nodes N)" "int (nodes N) < 2 ^ 31" "0 \<le> horizon N" "horizon N < 2 ^ 31" "int (length ?hs) \<le> int (nodes N)"
    using assms(4-6) by simp_all
  from main_prints [OF this(1-4) assms(9) texts this(5), of name filename wait]
  obtain out where "main_program [name, filename, to_string (int (nodes N)), to_string (horizon N)] 0 fork wait (concat ?hs) =
      Inr (out @ ''By the end, all peers think of the same DAG: true'' @ [CHR 0x0A])"
    unfolding if_P [OF equal] by auto
  moreover have "list_all2 (\<lambda>i h. child_output (env_of N i) False (peer_of (c i)) = Inr h) rs ?hs"
    using out by (simp add: list_all2_map2 list_all2_same)
  ultimately show ?thesis by blast
qed

text \<open>
  C6. The answer of the program, from the network to its last line: once validators have begun
  their last round, have stored the same vertices up to the last twelve rounds, and have nothing
  left to add to these, what they write makes the parent print that all peers think of the same
  DAG, in whatever order they end. (Those that end without a report do not count.)
\<close>

theorem network_prints_true:
  assumes "good_network N" and "starting N c0" and "(net_step N)\<^sup>*\<^sup>* c0 c"
    and "set rs \<subseteq> {..<nodes N}" and "length rs \<le> nodes N" and "0 < nodes N" and "12 \<le> horizon N"
    and "\<forall>i \<in> set rs. horizon N \<le> cur_round (peer_of (c i)) \<and> idle_until (horizon N - 12) (c i)"
    and "\<forall>i \<in> set rs. \<forall>j \<in> set rs. stored_until (horizon N - 12) (c i) = stored_until (horizon N - 12) (c j)"
    and "\<forall>k \<in> {0..<int (nodes N)}. 0 \<le> fork k"
  shows "\<exists>hs out. list_all2 (\<lambda>i h. child_output (env_of N i) False (peer_of (c i)) = Inr h) rs hs \<and>
    main_program [name, filename, to_string (int (nodes N)), to_string (horizon N)] 0 fork wait (concat hs) =
      Inr (out @ ''By the end, all peers think of the same DAG: true'' @ [CHR 0x0A])"
proof -
  let ?r = "horizon N - 12"
  have inv: "net_inv N c" by (rule net_reachable [OF assms(2,1,3)])
  have len: "?r \<le> int (length (dag_image (peer_of (c i))))" if "i \<in> set rs" for i
    using finished_output(1) [OF assms(1) inv _ assms(7)] that assms(4,8) by auto
  have "take (nat ?r) (dag_image (peer_of (c i))) = take (nat ?r) (dag_image (peer_of (c j)))"
    if ij: "i \<in> set rs" "j \<in> set rs" for i j
  proof -
    have "i < nodes N" "j < nodes N" using ij assms(4) by auto
    moreover have "stored_until ?r (c i) = stored_until ?r (c j)" "idle_until ?r (c i)" "idle_until ?r (c j)"
      using ij assms(8,9) by blast+
    ultimately show ?thesis using len ij by (intro converged [OF assms(1) inv])
  qed
  moreover have "\<forall>i \<in> set rs. horizon N \<le> cur_round (peer_of (c i))" using assms(8) by blast
  ultimately show ?thesis using prints_true [OF assms(1) inv assms(4-7) _ _ assms(10)] by blast
qed

end
