(* ===== verification/Rounds.thy ===== *)
theory Rounds
  imports Convergence
begin

text \<open>
  That the protocol can work: when every validator is connected to every other and nothing is
  lost, a network can go through its rounds in step, everybody proposing, everybody hearing of
  all proposals, and everybody adding them. One round is taken apart here into the turn in which
  a validator proposes, the exchange of the proposals, and the turn in which they are added.
\<close>

section \<open>Complete rounds\<close>

text \<open>The hash of the \<open>i\<close>-th validator's vertex at index \<open>k\<close> of the DAG, and a DAG of \<open>r\<close> complete rounds.\<close>

definition key :: "network \<Rightarrow> nat \<Rightarrow> nat \<Rightarrow> string" where
  "key N k i = hash_256 (lib N) (vertex_key (int k + 1) (id_of N i))"

definition full :: "network \<Rightarrow> nat \<Rightarrow> string set list" where
  "full N r = map (round_keys N) [0..<r]"

lemma full_sel [simp]: "length (full N r) = r" "k < r \<Longrightarrow> full N r ! k = round_keys N k"
  "set (full N r) = round_keys N ` {..<r}"
  by (auto simp: full_def)

lemma full_Suc: "full N (Suc r) = full N r @ [round_keys N r]"
  by (simp add: full_def)

lemma round_keys_key: "round_keys N k = key N k ` {..<nodes N}"
  by (simp add: round_keys_def key_def)

lemma card_round_keys:
  assumes "good_network N" and "int k < horizon N"
  shows "card (round_keys N k) = nodes N"
proof -
  have "inj_on (key N k) {..<nodes N}"
  proof (rule inj_onI)
    fix i j assume "i \<in> {..<nodes N}" "j \<in> {..<nodes N}" "key N k i = key N k j"
    then show "i = j"
      using key_inject [OF assms(1), of i j "int k + 1" "int k + 1"] assms(2) by (simp add: key_def)
  qed
  then show ?thesis by (simp add: round_keys_key card_image)
qed

section \<open>A validator between and within rounds\<close>

text \<open>
  Nothing is under way at a validator that has the connections of the configuration \<open>c0\<close>; it is
  between rounds, with \<open>r\<close> complete rounds behind it; or it has begun the next one and sleeps.
\<close>

definition quiet :: "config \<Rightarrow> nat \<Rightarrow> validator \<Rightarrow> bool" where
  "quiet c0 i = (\<lambda>(pc, p, l, lv). buffer p = [] \<and> requests p = [] \<and> temp_request_list lv = [] \<and> (\<forall>fd. net lv fd = []) \<and>
     workers (pool p) \<noteq> [] \<and> set (workers (pool p)) \<subseteq> {Waiting} \<and>
     c_sockets (client p) = c_sockets (client (peer_of (c0 i))) \<and> s_socket (server p) = s_socket (server (peer_of (c0 i))) \<and>
     \<not> fail p \<and> stop_round l = last_round p \<and> missing_set l = {})"

definition at_round :: "network \<Rightarrow> config \<Rightarrow> nat \<Rightarrow> nat \<Rightarrow> validator \<Rightarrow> bool" where
  "at_round N c0 r i s \<longleftrightarrow> quiet c0 i s \<and> fst s = Top \<and> cur_round (peer_of s) = int r \<and> dag_image (peer_of s) = full N r \<and>
     temp_list (snd (snd (snd s))) = [] \<and> task_queue (pool (peer_of s)) = []"

definition in_round :: "network \<Rightarrow> config \<Rightarrow> nat \<Rightarrow> nat \<Rightarrow> validator \<Rightarrow> bool" where
  "in_round N c0 r i s \<longleftrightarrow> quiet c0 i s \<and> fst s = Asleep \<and> cur_round (peer_of s) = int r + 1 \<and>
     dag_image (peer_of s) = full N r @ [{key N r i}] \<and> scan_buffer_thread_ready (server (peer_of s)) \<and>
     vertex_hash (lib N) ` set (temp_list (snd (snd (snd s)))) \<subseteq> round_keys N r"

definition sends :: "vertex \<Rightarrow> int list \<Rightarrow> task list" where
  "sends v = map (\<lambda>fd. Sendn fd (packet_of [v]))"

section \<open>The turn in which a validator proposes\<close>

lemma wave_work_full:
  assumes "wf_peer p" and "cur_round p \<le> last_round p" and "\<forall>D \<in> set (dag_image p). crowd p \<le> int (card D)"
  shows "wave_work E p = Inr p"
proof -
  have len: "int (length (dag_image p)) = cur_round p" and crowd: "size_t (crowd p) = crowd p"
    using assms(1,2) by (simp_all add: wf_peer_def)
  then have complete: "size_t (crowd p) \<le> int (card (dag_image p ! nat i))" if "0 \<le> i" "i < cur_round p" for i
    using that assms(3) nth_mem [of "nat i" "dag_image p"] by auto
  show ?thesis
  proof (cases "orders p")
    case True
    then have "cur_round p mod 4 = 2" "8 < cur_round p" by (simp_all add: orders_def WAVE_def HALF_WAVE_def)
    then have "10 \<le> cur_round p" by presburger
    then have "total_order E (cur_round p - 6) (cur_round p - 10) p = Inr p"
      using len complete by (intro total_order_complete) auto
    with True show ?thesis by (simp add: wave_work_def orders_def WAVE_def HALF_WAVE_def Let_def)
  next
    case False
    have "filter (\<lambda>i. int (card (dag_image p ! nat i)) < size_t (crowd p)) [max 0 (cur_round p - 2 * WAVE)..cur_round p - WAVE - 1] = []"
      using complete by (force simp: filter_empty_conv WAVE_def)
    with False len dag_scan_eq [of "cur_round p - WAVE" p] show ?thesis
      by (auto simp: wave_work_def orders_def Let_def WAVE_def)
  qed
qed

lemma can_advance_full:
  assumes "wf_peer p" and "cur_round p \<le> last_round p" and "\<forall>D \<in> set (dag_image p). crowd p \<le> int (card D)"
  shows "can_advance p = Inr True"
proof (cases "cur_round p = 0")
  case False
  with assms(1,2) have len: "int (length (dag_image p)) = cur_round p" "0 < cur_round p" by (simp_all add: wf_peer_def)
  have "majority (crowd p) \<le> crowd p"
    using assms(1) majority_eq [of "crowd p"] by (auto simp: wf_peer_def)
  also have "crowd p \<le> int (card (dag_image p ! nat (cur_round p - 1)))"
    using assms(3) nth_mem [of "nat (cur_round p - 1)" "dag_image p"] len by auto
  finally show ?thesis
    using assms(1) len by (simp add: can_advance_def vec_at_def majority_def wf_peer_def)
qed (simp add: can_advance_def)

lemma advance_full:
  assumes "dag_inv (crypt E) p ws" and "cur_round p < last_round p" and "\<forall>D \<in> set (dag_image p). crowd p \<le> int (card D)"
    and "int (length (c_sockets (client p))) < crowd p" and "sendable (next_vertex E p)"
  shows "move_round E t (p, l) = Inr ((proposed E (p\<lparr>cur_round := cur_round p + 1\<rparr>))
      \<lparr>pool := (pool p)\<lparr>task_queue := task_queue (pool p) @ sends (next_vertex E p) (c_sockets (client p))\<rparr>\<rparr>, l\<lparr>need_help := False\<rparr>)"
proof -
  let ?p = "p\<lparr>cur_round := cur_round p + 1\<rparr>"
  have wf: "wf_peer p" using assms(1) by (simp add: dag_inv_def)
  then have len: "int (length (dag_image p)) = cur_round p" "0 \<le> cur_round p" using assms(2) by (simp_all add: wf_peer_def)
  have v: "own_vertex E (?p\<lparr>dag_image := dag_image ?p @ [{}]\<rparr>) = next_vertex E p" by (simp add: next_vertex_def)
  have "propose E ?p = Inr ((proposed E ?p)\<lparr>pool := (pool p)\<lparr>task_queue := task_queue (pool p) @ sends (next_vertex E p) (c_sockets (client p))\<rparr>\<rparr>)"
    using propose_eq [of ?p E] v len assms(4,5) by (simp add: sends_def)
  moreover have "wave_work E p = Inr p" "can_advance p = Inr True"
    using wf assms(2,3) by (simp_all add: wave_work_full can_advance_full)
  ultimately show ?thesis
    using assms(2) by (simp add: move_round_def advance_def Let_def)
qed

lemma full_cards:
  assumes "good_network N" and "int r \<le> horizon N"
  shows "\<forall>D \<in> set (full N r). int (nodes N) \<le> int (card D)"
  using card_round_keys [OF assms(1)] assms(2) by force

lemma proposes:
  assumes "good_network N" and "net_inv N c" and "i < nodes N" and "at_round N c0 r i (c i)" and "int r < horizon N"
    and "length (c_sockets (client (peer_of (c0 i)))) < nodes N"
  shows "\<exists>t v. act (env_of N i) Turn (c i) t \<and> in_round N c0 r i t \<and> known t (key N r i) = Some v \<and>
    task_queue (pool (peer_of t)) = sends v (c_sockets (client (peer_of (c0 i)))) \<and>
    (0 < r \<longrightarrow> set (references v) = round_keys N (r - 1))"
proof -
  obtain pc p l lv where c: "c i = (pc, p, l, lv)" by (metis prod_cases4)
  let ?E = "env_of N i"
  note node = net_invD [OF assms(2,1,3) c] and env = good_networkD(2,3) [OF assms(1,3)]
  have at: "pc = Top" "cur_round p = int r" "dag_image p = full N r" "quiet c0 i (pc, p, l, lv)" "temp_list lv = []" "task_queue (pool p) = []"
    using assms(4) by (auto simp: at_round_def c peer_of_def)
  have inv: "dag_inv (crypt ?E) p (buffer p @ temp_list lv)" using node(1) env(1) by simp
  then have wf: "wf_peer p" by (simp add: dag_inv_def)
  have cur: "cur_round p < last_round p" using at(2) node(5) assms(5) by simp
  let ?v = "next_vertex ?E p"
  have honest: "honest (horizon N) ?v"
    using next_in_network(1) [OF assms(1-3)] at(2) assms(5) by (simp add: c peer_of_def)
  have fits: "int (length (c_sockets (client p))) < crowd p"
    using at(4) assms(6) node(6) by (simp add: quiet_def)
  note move = advance_full [OF inv cur _ fits honest_sendable(2) [OF honest], of 0 l]
  have move: "move_round ?E 0 (p, l) = Inr ((proposed ?E (p\<lparr>cur_round := cur_round p + 1\<rparr>))
      \<lparr>pool := (pool p)\<lparr>task_queue := task_queue (pool p) @ sends ?v (c_sockets (client p))\<rparr>\<rparr>, l\<lparr>need_help := False\<rparr>)"
    using full_cards [OF assms(1), of r] assms(5) at(3) node(6) by (intro move) simp
  have hash: "vertex_hash (crypt ?E) ?v = key N r i"
    using next_vertex_sel(3) [OF wf cur] env(1) node(4) at(2) by (simp add: own_key_def key_def add.commute)
  have refs: "0 < r \<longrightarrow> set (references ?v) = round_keys N (r - 1)"
    using at(2,3) iter_okD(2) [OF env(2) round_keys_card(1)]
    by (auto simp: next_vertex_def own_vertex_def nth_append nat_diff_distrib')
  have v: "own_vertex ?E (p\<lparr>cur_round := cur_round p + 1, dag_image := dag_image p @ [{}]\<rparr>) = ?v"
    by (simp add: next_vertex_def)
  let ?q = "(proposed ?E (p\<lparr>cur_round := cur_round p + 1\<rparr>))
      \<lparr>pool := (pool p)\<lparr>task_queue := task_queue (pool p) @ sends ?v (c_sockets (client p))\<rparr>\<rparr>"
  let ?t = "(Asleep, ?q\<lparr>server := set_thread_ready True (server ?q)\<rparr>, l\<lparr>need_help := False\<rparr>, lv)"
  have q: "proposed ?E (p\<lparr>cur_round := cur_round p + 1\<rparr>) = p\<lparr>cur_round := cur_round p + 1,
      server := (server p)\<lparr>vertex_map := (vertex_map (server p))(key N r i \<mapsto> ?v)\<rparr>, dag_image := dag_image p @ [{key N r i}]\<rparr>"
    using v hash by (simp add: proposed_def Let_def add_to_map_def umap_insert_def)
  have "act ?E Turn (c i) ?t" using act.round [OF move, of lv] by (simp add: c at(1))
  moreover have "in_round N c0 r i ?t"
    using at unfolding q by (simp add: in_round_def quiet_def peer_of_def set_thread_ready_def)
  moreover have "known ?t (key N r i) = Some ?v"
    unfolding q by (simp add: known_def peer_of_def set_thread_ready_def)
  moreover have "task_queue (pool (peer_of ?t)) = sends ?v (c_sockets (client (peer_of (c0 i))))"
    using at unfolding q by (simp add: peer_of_def quiet_def)
  ultimately show ?thesis using refs by blast
qed

section \<open>The exchange of the proposals\<close>

text \<open>The first worker takes the first task and does it.\<close>

lemma works:
  assumes "workers (pool p) \<noteq> []" and "set (workers (pool p)) \<subseteq> {Waiting}" and "task_queue (pool p) = x # ts"
  shows "\<exists>q. act E (Work []) (pc, p, l, lv) (pc, q, l, lv) \<and>
    act E (Work [x]) (pc, q, l, lv) (pc, p\<lparr>pool := (pool p)\<lparr>task_queue := ts\<rparr>\<rparr>, l, lv)"
proof -
  let ?a = "\<lparr>the_pool = pool p, submitted = [], started = [], finished = []\<rparr>"
  let ?pool = "(pool p)\<lparr>task_queue := ts, workers := (workers (pool p))[0 := Running x]\<rparr>"
  let ?b = "\<lparr>the_pool = ?pool, submitted = [], started = [x], finished = []\<rparr>"
  let ?d = "\<lparr>the_pool = (pool p)\<lparr>task_queue := ts\<rparr>, submitted = [], started = [x], finished = [x]\<rparr>"
  have first: "workers (pool p) ! 0 = Waiting" using assms(1,2) by (cases "workers (pool p)") auto
  have same: "(workers (pool p))[0 := Waiting] = workers (pool p)" using first by (metis list_update_id)
  have "worker_step ?a ?b"
    using worker_step.take [of 0 ?a x "(pool p)\<lparr>task_queue := ts\<rparr>"] first assms(1,3) by (simp add: worker_wake_def)
  from act.work [OF this, of p "[]" E pc l lv] have "act E (Work []) (pc, p, l, lv) (pc, p\<lparr>pool := ?pool\<rparr>, l, lv)" by simp
  moreover have "(pool p)\<lparr>task_queue := ts, workers := workers (pool p)\<rparr> = (pool p)\<lparr>task_queue := ts\<rparr>"
    by (rule pool.equality) simp_all
  then have "worker_step ?b ?d"
    using worker_step.execute [of 0 ?b x] assms(1) same by simp
  from act.work [OF this, of "p\<lparr>pool := ?pool\<rparr>" "[x]" E pc l lv]
  have "act E (Work [x]) (pc, p\<lparr>pool := ?pool\<rparr>, l, lv) (pc, p\<lparr>pool := (pool p)\<lparr>task_queue := ts\<rparr>\<rparr>, l, lv)" by simp
  ultimately show ?thesis by blast
qed

lemma takes_one:
  assumes "i < nodes N" and "c i = (pc, p, l, lv)" and "quiet c0 i (c i)" and "task_queue (pool p) = x # ts"
  obtains q where "net_step N c (c(i := (pc, q, l, lv)))"
    and "act (env_of N i) (Work [x]) (pc, q, l, lv) (pc, p\<lparr>pool := (pool p)\<lparr>task_queue := ts\<rparr>\<rparr>, l, lv)"
proof -
  have "workers (pool p) \<noteq> []" "set (workers (pool p)) \<subseteq> {Waiting}" using assms(2,3) by (simp_all add: quiet_def)
  from works [OF this assms(4)] obtain q where q: "act (env_of N i) (Work []) (c i) (pc, q, l, lv)"
    "act (env_of N i) (Work [x]) (pc, q, l, lv) (pc, p\<lparr>pool := (pool p)\<lparr>task_queue := ts\<rparr>\<rparr>, l, lv)"
    unfolding assms(2) by blast
  with own [OF assms(1), of "Work []" c "(pc, q, l, lv)"] that show thesis by simp
qed

lemma sends_one:
  assumes "i < nodes N" and "c i = (pc, p, l, lv)" and "quiet c0 i (c i)" and "task_queue (pool p) = Sendn fd m # ts"
    and "m \<noteq> []" and "length m < 2 ^ 63" and "link N i fd = Some to"
  shows "(net_step N)\<^sup>*\<^sup>* c (deliver to m (c(i := (pc, p\<lparr>pool := (pool p)\<lparr>task_queue := ts\<rparr>\<rparr>, l, lv))))"
proof -
  let ?t = "(pc, p\<lparr>pool := (pool p)\<lparr>task_queue := ts\<rparr>\<rparr>, l, lv)"
  obtain q where first: "net_step N c (c(i := (pc, q, l, lv)))" and then_sends: "act (env_of N i) (Work [Sendn fd m]) (pc, q, l, lv) ?t"
    by (rule takes_one [where c = c and ?c0.0 = c0 and i = i, OF assms(1-4)])
  let ?c = "c(i := (pc, q, l, lv))"
  have "net_step N ?c (deliver to m (?c(i := ?t)))"
    using then_sends by (intro send [OF assms(1) _ c_sendn_whole [OF assms(5,6)] assms(7)]) simp
  with first show ?thesis by simp
qed

lemma loses_one:
  assumes "i < nodes N" and "c i = (pc, p, l, lv)" and "quiet c0 i (c i)" and "task_queue (pool p) = x # ts"
  shows "(net_step N)\<^sup>*\<^sup>* c (c(i := (pc, p\<lparr>pool := (pool p)\<lparr>task_queue := ts\<rparr>\<rparr>, l, lv)))"
proof -
  let ?t = "(pc, p\<lparr>pool := (pool p)\<lparr>task_queue := ts\<rparr>\<rparr>, l, lv)"
  obtain q where first: "net_step N c (c(i := (pc, q, l, lv)))" and then_sends: "act (env_of N i) (Work [x]) (pc, q, l, lv) ?t"
    by (rule takes_one [where c = c and ?c0.0 = c0 and i = i, OF assms])
  let ?c = "c(i := (pc, q, l, lv))"
  have "net_step N ?c (?c(i := ?t))" using own [OF assms(1), of "Work [x]" ?c ?t] then_sends by simp
  with first show ?thesis by simp
qed

text \<open>A server takes a packet of one vertex off its connection.\<close>

lemma receives:
  assumes "good_network N" and "net_inv N c" and "j < nodes N" and "c j = (pc, p, l, lv)" and "v \<in> authored N c"
    and "net lv fd = packet_of [v]" and "fd \<noteq> s_socket (server p)"
  obtains e s lv' where "act (env_of N j) (Event e) (c j) (pc, p\<lparr>server := s\<rparr>, l, lv')" and "timely (Event e)"
    and "vertex_map (server p) \<subseteq>\<^sub>m vertex_map s" and "vertex_hash (lib N) v \<in> dom (vertex_map s)"
    and "s_socket s = s_socket (server p)" and "scan_buffer_thread_ready s = scan_buffer_thread_ready (server p)"
    and "net lv' = (net lv)(fd := [])" and "temp_request_list lv' = temp_request_list lv"
    and "set (temp_list lv') \<subseteq> insert v (set (temp_list lv))"
proof -
  define e where "e = \<lparr>ev_fd = fd, ev_events = EPOLLIN, ev_accepted = 0, ev_arrived = Arrived 4, ev_closed = False\<rparr>"
  let ?maj = "majority (crowd p)"
  note node = net_invD [OF assms(2,1,3,4)]
  have honest: "honest (horizon N) v" using assms(2,5) by (simp add: net_inv_def)
  then have "good_packet [v]"
    using assms(1) packet_fits [of "[v]"] by (intro honest_packet) (auto simp: good_network_def)
  moreover have "net lv (ev_fd e) = packet_of [v] @ []" using assms(6) by (simp add: e_def)
  ultimately obtain bytes where event: "handle_event (lib N) ?maj e (server p, lv) =
      Some (Inr (admit (lib N) ?maj (server p, lv\<lparr>bytes_to_recv := bytes, net := (net lv)(fd := [])\<rparr>) v))"
    using event_packet [of "[v]" e "server p" 4 lv "[]" "lib N" ?maj] assms(7) by (auto simp: e_def)
  obtain s lv' where sl: "admit (lib N) ?maj (server p, lv\<lparr>bytes_to_recv := bytes, net := (net lv)(fd := [])\<rparr>) v = (s, lv')"
    by force
  have "admissible ?maj v" using authored_admissible [OF assms(1,2,5)] node(6) by simp
  with sl have new: "vertex_hash (lib N) v \<in> dom (vertex_map s)" "s_socket s = s_socket (server p)"
    "scan_buffer_thread_ready s = scan_buffer_thread_ready (server p)" "net lv' = (net lv)(fd := [])"
    "temp_request_list lv' = temp_request_list lv"
    "set (temp_list lv') \<subseteq> insert v (set (temp_list lv))"
    by (auto simp: admit_def umap_insert_def split: if_splits)
  have grow: "vertex_map (server p) \<subseteq>\<^sub>m vertex_map s"
    using admit_grows [of "lib N" ?maj "(server p, lv\<lparr>bytes_to_recv := bytes, net := (net lv)(fd := [])\<rparr>)" v]
    by (auto simp: sl grows_def)
  have "handle_event (crypt (env_of N j)) ?maj e (server p, lv) = Some (Inr (s, lv'))"
    using event sl good_networkD(2) [OF assms(1,3)] by simp
  from act.event [OF this, of pc l] have "act (env_of N j) (Event e) (c j) (pc, p\<lparr>server := s\<rparr>, l, lv')"
    unfolding assms(4) .
  from that [OF this _ grow new] show thesis by (simp add: e_def whole_def)
qed

text \<open>
  \<open>reaches N c0 i fd j\<close>: what validator \<open>i\<close> writes to \<open>fd\<close> comes to a connection of \<open>j\<close>. In the
  exchange of a round, \<open>v i\<close> is the vertex of \<open>i\<close> and \<open>fds i\<close> are the connections on which it is
  still to be sent; on the others it has arrived.
\<close>

definition reaches :: "network \<Rightarrow> config \<Rightarrow> nat \<Rightarrow> int \<Rightarrow> nat \<Rightarrow> bool" where
  "reaches N c0 i fd j \<longleftrightarrow> j < nodes N \<and> (\<exists>fd'. link N i fd = Some (j, fd') \<and> fd' \<noteq> s_socket (server (peer_of (c0 j))))"

definition exchange :: "network \<Rightarrow> config \<Rightarrow> nat \<Rightarrow> (nat \<Rightarrow> vertex) \<Rightarrow> (nat \<Rightarrow> int list) \<Rightarrow> config \<Rightarrow> bool" where
  "exchange N c0 r v fds c \<longleftrightarrow> (\<forall>i < nodes N. in_round N c0 r i (c i) \<and> known (c i) (key N r i) = Some (v i) \<and>
     task_queue (pool (peer_of (c i))) = sends (v i) (fds i) \<and>
     (\<forall>fd \<in> set (c_sockets (client (peer_of (c0 i)))) - set (fds i). \<forall>j. reaches N c0 i fd j \<longrightarrow> key N r i \<in> dom (known (c j))))"

lemma exchange_move:
  assumes "exchange N c0 r v fds c" and "i < nodes N" and "fds i = fd # rest"
    and "\<forall>k < nodes N. in_round N c0 r k (c' k) \<and> known (c k) \<subseteq>\<^sub>m known (c' k) \<and>
      task_queue (pool (peer_of (c' k))) = sends (v k) (if k = i then rest else fds k)"
    and "\<forall>j. reaches N c0 i fd j \<longrightarrow> key N r i \<in> dom (known (c' j))"
  shows "exchange N c0 r v (fds(i := rest)) c'"
proof -
  have old: "in_round N c0 r k (c k)" "known (c k) (key N r k) = Some (v k)"
    "\<And>x j. x \<in> set (c_sockets (client (peer_of (c0 k)))) - set (fds k) \<Longrightarrow> reaches N c0 k x j \<Longrightarrow> key N r k \<in> dom (known (c j))"
    if "k < nodes N" for k
    using assms(1) that by (auto simp: exchange_def)
  have grow: "h \<in> dom (known (c' k))" if "h \<in> dom (known (c k))" "k < nodes N" for h k
    using assms(4) that map_le_implies_dom_le by blast
  show ?thesis
    unfolding exchange_def
  proof (intro allI impI conjI ballI)
    fix k assume k: "k < nodes N"
    show "in_round N c0 r k (c' k)" using assms(4) k by blast
    show "known (c' k) (key N r k) = Some (v k)"
      using old(2) [OF k] assms(4) k by (metis domI map_le_def)
    show "task_queue (pool (peer_of (c' k))) = sends (v k) ((fds(i := rest)) k)"
      using assms(4) k by simp
    fix x j assume x: "x \<in> set (c_sockets (client (peer_of (c0 k)))) - set ((fds(i := rest)) k)" and j: "reaches N c0 k x j"
    show "key N r k \<in> dom (known (c' j))"
    proof (cases "k = i \<and> x = fd")
      case True
      with assms(5) j show ?thesis by blast
    next
      case False
      with x assms(3) have "x \<in> set (c_sockets (client (peer_of (c0 k)))) - set (fds k)" by (auto split: if_splits)
      from grow [OF old(3) [OF k this j]] j show ?thesis by (simp add: reaches_def)
    qed
  qed
qed

text \<open>Steps that leave the round, the streams and the queue of a validator in place.\<close>

lemma in_round_tasks:
  "in_round N c0 r i (pc, p, l, lv) \<Longrightarrow> in_round N c0 r i (pc, p\<lparr>pool := (pool p)\<lparr>task_queue := ts\<rparr>\<rparr>, l, lv)"
  by (simp add: in_round_def quiet_def peer_of_def)

lemma in_round_server:
  "in_round N c0 r i (pc, p, l, lv) \<Longrightarrow> s_socket s = s_socket (server p) \<Longrightarrow>
     scan_buffer_thread_ready s = scan_buffer_thread_ready (server p) \<Longrightarrow> net lv' = net lv \<Longrightarrow>
     temp_request_list lv' = temp_request_list lv \<Longrightarrow> vertex_hash (lib N) ` set (temp_list lv') \<subseteq> round_keys N r \<Longrightarrow>
     in_round N c0 r i (pc, p\<lparr>server := s\<rparr>, l, lv')"
  by (simp add: in_round_def quiet_def peer_of_def)

lemma own_authored:
  assumes "good_network N" and "net_inv N c" and "i < nodes N" and "known (c i) (key N r i) = Some v" and "int r < horizon N"
  shows "v \<in> authored N c" and "vertex_hash (lib N) v = key N r i"
  using known_authored [OF assms(2,1,3,4)] by simp_all

lemma exchange_step:
  assumes "good_network N" and "starting N c0" and "(net_step N)\<^sup>*\<^sup>* c0 c" and "exchange N c0 r v fds c"
    and "i < nodes N" and "fds i = fd # rest" and "int r < horizon N"
  shows "\<exists>c'. (net_step N)\<^sup>*\<^sup>* c c' \<and> exchange N c0 r v (fds(i := rest)) c'"
proof -
  have inv: "net_inv N c" by (rule net_reachable [OF assms(2,1,3)])
  obtain pc p l lv where ci: "c i = (pc, p, l, lv)" by (metis prod_cases4)
  have all: "in_round N c0 r k (c k)" "known (c k) (key N r k) = Some (v k)" "task_queue (pool (peer_of (c k))) = sends (v k) (fds k)"
    if "k < nodes N" for k using assms(4) that by (simp_all add: exchange_def)
  have quiet: "quiet c0 i (c i)" using all(1) [OF assms(5)] by (simp add: in_round_def)
  have queue: "task_queue (pool p) = Sendn fd (packet_of [v i]) # sends (v i) rest"
    using all(3) [OF assms(5)] assms(6) by (simp add: ci peer_of_def sends_def)
  note v = own_authored [OF assms(1) inv assms(5) all(2) [OF assms(5)] assms(7)]
  let ?t = "(pc, p\<lparr>pool := (pool p)\<lparr>task_queue := sends (v i) rest\<rparr>\<rparr>, l, lv)"
  let ?c1 = "c(i := ?t)"
  have t: "in_round N c0 r i ?t" "known ?t = known (c i)" "task_queue (pool (peer_of ?t)) = sends (v i) rest"
    using in_round_tasks all(1) [OF assms(5)] by (auto simp: ci known_def peer_of_def)
  have c1: "in_round N c0 r k (?c1 k) \<and> known (?c1 k) = known (c k) \<and>
      task_queue (pool (peer_of (?c1 k))) = sends (v k) (if k = i then rest else fds k)" if "k < nodes N" for k
    using all [OF that] t by simp
  show ?thesis
  proof (cases "\<exists>j. reaches N c0 i fd j")
    case False
    have "exchange N c0 r v (fds(i := rest)) ?c1"
      using c1 False by (intro exchange_move [OF assms(4-6)]) auto
    moreover have "(net_step N)\<^sup>*\<^sup>* c ?c1"
      by (rule loses_one [where c = c and ?c0.0 = c0 and i = i, OF assms(5) ci quiet queue])
    ultimately show ?thesis by blast
  next
    case True
    then obtain j fd' where j: "j < nodes N" and link: "link N i fd = Some (j, fd')" and fd': "fd' \<noteq> s_socket (server (peer_of (c0 j)))"
      by (auto simp: reaches_def)
    obtain pc' q k kv where cj: "?c1 j = (pc', q, k, kv)" by (metis prod_cases4)
    let ?kv = "kv\<lparr>net := (net kv)(fd' := packet_of [v i])\<rparr>"
    let ?c2 = "?c1(j := (pc', q, k, ?kv))"
    have round: "in_round N c0 r j (pc', q, k, kv)" using c1 [OF j] by (simp only: cj)
    then have calm: "net kv fd' = []" "s_socket (server q) = s_socket (server (peer_of (c0 j)))"
      by (simp_all add: in_round_def quiet_def)
    have "length (packet_of [v i]) \<le> MAX_STREAM_SIZE" "packet_of [v i] \<noteq> []"
    proof -
      have "honest (horizon N) (v i)" using inv v(1) by (simp add: net_inv_def)
      then have "wire_length [v i] \<le> MAX_STREAM_SIZE" by (intro packet_fits) auto
      then show "length (packet_of [v i]) \<le> MAX_STREAM_SIZE" by (simp add: length_packet_of)
      show "packet_of [v i] \<noteq> []" using length_packet_of [of "[v i]"] length_wire_ge [of "v i"] by auto
    qed
    then have sent: "(net_step N)\<^sup>*\<^sup>* c (deliver (j, fd') (packet_of [v i]) ?c1)"
      by (intro sends_one [where c = c and ?c0.0 = c0 and i = i, OF assms(5) ci quiet queue _ _ link]) (simp_all add: MAX_STREAM_SIZE_def)
    have arrives: "deliver (j, fd') (packet_of [v i]) ?c1 = ?c2"
      unfolding deliver_def prod.case cj calm(1) by simp
    have run: "(net_step N)\<^sup>*\<^sup>* c ?c2" using sent unfolding arrives .
    with assms(3) have reach: "(net_step N)\<^sup>*\<^sup>* c0 ?c2" by simp
    have inv2: "net_inv N ?c2" by (rule net_reachable [OF assms(2,1) reach])
    have author: "v i \<in> authored N ?c2"
      using nets.run_inv [OF run, of "authored N c"] assms(1) inv v(1) by auto
    have c2j: "?c2 j = (pc', q, k, ?kv)" and at: "net ?kv fd' = packet_of [v i]" "fd' \<noteq> s_socket (server q)"
      using fd' calm(2) by simp_all
    obtain e s kv' where event: "act (env_of N j) (Event e) (?c2 j) (pc', q\<lparr>server := s\<rparr>, k, kv')" "timely (Event e)"
      and s: "vertex_map (server q) \<subseteq>\<^sub>m vertex_map s" "vertex_hash (lib N) (v i) \<in> dom (vertex_map s)"
        "s_socket s = s_socket (server q)" "scan_buffer_thread_ready s = scan_buffer_thread_ready (server q)"
        "net kv' = (net ?kv)(fd' := [])" "temp_request_list kv' = temp_request_list ?kv"
        "set (temp_list kv') \<subseteq> insert (v i) (set (temp_list ?kv))"
      by (rule receives [OF assms(1) inv2 j c2j author at]) (rule that)
    let ?c3 = "?c2(j := (pc', q\<lparr>server := s\<rparr>, k, kv'))"
    have "vertex_hash (lib N) ` set (temp_list kv) \<subseteq> round_keys N r" using round by (simp add: in_round_def)
    then have "vertex_hash (lib N) ` set (temp_list kv') \<subseteq> round_keys N r"
      using s(7) v(2) assms(5) by (auto simp: round_keys_key)
    moreover have "net kv' = net kv" using s(5) calm(1) by (simp add: fun_upd_idem)
    ultimately have "in_round N c0 r j (pc', q\<lparr>server := s\<rparr>, k, kv')"
      using s by (intro in_round_server [OF round]) simp_all
    moreover have "net_step N ?c2 ?c3" using own [OF j, of "Event e" ?c2] event by simp
    moreover have "exchange N c0 r v (fds(i := rest)) ?c3"
    proof (intro exchange_move [OF assms(4-6)] allI impI)
      fix m assume m: "m < nodes N"
      show "in_round N c0 r m (?c3 m) \<and> known (c m) \<subseteq>\<^sub>m known (?c3 m) \<and>
          task_queue (pool (peer_of (?c3 m))) = sends (v m) (if m = i then rest else fds m)"
      proof (cases "m = j")
        case True
        have "known (c j) = vertex_map (server q)" "task_queue (pool q) = sends (v j) (if j = i then rest else fds j)"
          using c1 [OF j] unfolding cj by (simp_all add: known_def peer_of_def)
        with True s(1) calculation(1) show ?thesis by (simp add: known_def peer_of_def)
      next
        case False
        with c1 [OF m] show ?thesis by simp
      qed
    next
      fix m assume "reaches N c0 i fd m"
      with link have "m = j" by (simp add: reaches_def)
      with s(2) v(2) show "key N r i \<in> dom (known (?c3 m))" by (simp add: known_def peer_of_def)
    qed
    ultimately show ?thesis using run by (meson rtranclp.rtrancl_into_rtrancl)
  qed
qed

end
