(* ===== verification/Liveness.thy ===== *)
theory Liveness
  imports Rounds
begin

text \<open>
  A network in which every validator is connected to every other can finish: round by round,
  everybody proposes, hears of all proposals and adds them, until everybody has gone through the
  last round with the complete DAG and leaves. So nothing in the code of a validator keeps a
  network that loses nothing from getting to its end.
\<close>

section \<open>The whole exchange of a round\<close>

definition remaining :: "network \<Rightarrow> (nat \<Rightarrow> int list) \<Rightarrow> nat" where
  "remaining N fds = (\<Sum>i < nodes N. length (fds i))"

lemma remaining_less:
  assumes "i < nodes N" and "fds i = fd # rest"
  shows "remaining N (fds(i := rest)) < remaining N fds"
  unfolding remaining_def using assms by (intro sum_strict_mono_ex1) auto

lemma exchange_all:
  assumes "good_network N" and "starting N c0" and "(net_step N)\<^sup>*\<^sup>* c0 c" and "exchange N c0 r v fds c" and "int r < horizon N"
  shows "\<exists>c' fds'. (net_step N)\<^sup>*\<^sup>* c c' \<and> exchange N c0 r v fds' c' \<and> (\<forall>i < nodes N. fds' i = [])"
  using assms(3,4)
proof (induction "remaining N fds" arbitrary: fds c rule: less_induct)
  case less
  show ?case
  proof (cases "\<forall>i < nodes N. fds i = []")
    case False
    then obtain i fd rest where i: "i < nodes N" "fds i = fd # rest" by (meson neq_Nil_conv)
    from exchange_step [OF assms(1,2) less.prems this assms(5)] obtain c1 where
      c1: "(net_step N)\<^sup>*\<^sup>* c c1" "exchange N c0 r v (fds(i := rest)) c1" by blast
    have "remaining N (fds(i := rest)) < remaining N fds" by (rule remaining_less [where fds = fds and i = i, OF i])
    from less.hyps [OF this _ c1(2)] less.prems(1) c1(1) show ?thesis
      by (meson rtranclp_trans)
  qed (use less.prems in blast)
qed

section \<open>The turn in which the vertices of a round are added\<close>

lemma add_round:
  assumes "\<forall>v \<in> set vs. sint (vround v) = int r + 1 \<and> (0 < r \<longrightarrow> set (references v) = dag_image p ! (r - 1))"
    and "length (dag_image p) = Suc r" and "cur_round p = int r + 1" and "missing_set l = {}"
  shows "scan_buffer E vs (p, l) =
    Inr ([], p\<lparr>dag_image := (dag_image p)[r := vertex_hash (crypt E) ` set vs \<union> dag_image p ! r]\<rparr>, l)"
  using assms
proof (induction vs arbitrary: p)
  case (Cons v vs)
  let ?p = "p\<lparr>dag_image := (dag_image p)[r := insert (vertex_hash (crypt E) v) (dag_image p ! r)]\<rparr>"
  have v: "sint (vround v) = int r + 1" "0 < r \<longrightarrow> set (references v) = dag_image p ! (r - 1)" using Cons.prems(1) by simp_all
  have same: "l\<lparr>missing_set := {}\<rparr> = l" using Cons.prems(4) by simp
  have "scan_one E v (p, l) = Inr (False, ?p, l)"
    using v Cons.prems(2-4) same
    by (cases "r = 0") (auto simp: scan_one_def Let_def mutual_history_eq offer_missing_def vec_at_def nat_diff_distrib')
  moreover have "scan_buffer E vs (?p, l) =
      Inr ([], ?p\<lparr>dag_image := (dag_image ?p)[r := vertex_hash (crypt E) ` set vs \<union> dag_image ?p ! r]\<rparr>, l)"
    using Cons.prems by (intro Cons.IH) auto
  ultimately show ?case using Cons.prems(2) by simp
qed simp


text \<open>What a validator needs to complete its round: the proposals of all, and nothing left to send.\<close>

definition heard :: "network \<Rightarrow> config \<Rightarrow> nat \<Rightarrow> (nat \<Rightarrow> vertex) \<Rightarrow> config \<Rightarrow> bool" where
  "heard N c0 r v c \<longleftrightarrow> (\<forall>i < nodes N. in_round N c0 r i (c i) \<and> known (c i) (key N r i) = Some (v i) \<and>
     task_queue (pool (peer_of (c i))) = [] \<and> round_keys N r \<subseteq> dom (known (c i)))"

text \<open>A run of one validator alone.\<close>

definition own_step :: "network \<Rightarrow> nat \<Rightarrow> validator \<Rightarrow> validator \<Rightarrow> bool" where
  "own_step N i s t \<longleftrightarrow> (\<exists>a. act (env_of N i) a s t \<and> timely a)"

lemma own_stepI: "act (env_of N i) a s t \<Longrightarrow> timely a \<Longrightarrow> own_step N i s t"
  by (auto simp: own_step_def)

lemma two_own_steps: "own_step N i s t \<Longrightarrow> own_step N i t u \<Longrightarrow> (own_step N i)\<^sup>*\<^sup>* s u"
  by simp

lemma own_run:
  assumes "(own_step N i)\<^sup>*\<^sup>* s t" and "i < nodes N"
  shows "(net_step N)\<^sup>*\<^sup>* (c(i := s)) (c(i := t))"
  using assms(1)
proof induction
  case (step t u)
  then obtain a where "act (env_of N i) a t u" "timely a" by (auto simp: own_step_def)
  then have "net_step N (c(i := t)) (c(i := u))" using own [OF assms(2), of a "c(i := t)" u] by simp
  with step.IH show ?case by (meson rtranclp.rtrancl_into_rtrancl)
qed simp

lemma each_run:
  assumes "\<And>i. i < nodes N \<Longrightarrow> \<exists>t. (own_step N i)\<^sup>*\<^sup>* (c i) t \<and> Q i t"
  shows "\<exists>c'. (net_step N)\<^sup>*\<^sup>* c c' \<and> (\<forall>i < nodes N. Q i (c' i))"
proof -
  have "\<exists>c'. (net_step N)\<^sup>*\<^sup>* c c' \<and> (\<forall>i < m. Q i (c' i)) \<and> (\<forall>i \<ge> m. c' i = c i)" if "m \<le> nodes N" for m
    using that
  proof (induction m)
    case (Suc m)
    then obtain c' where c': "(net_step N)\<^sup>*\<^sup>* c c'" "\<forall>i < m. Q i (c' i)" "\<forall>i \<ge> m. c' i = c i" by auto
    have m: "m < nodes N" using Suc.prems by simp
    then obtain t where t: "(own_step N m)\<^sup>*\<^sup>* (c m) t" "Q m t" using assms by blast
    have "c' = c'(m := c m)" using c'(3) by auto
    then have "(net_step N)\<^sup>*\<^sup>* c (c'(m := t))"
      using own_run [OF t(1) m, of c'] c'(1) by (metis rtranclp_trans)
    moreover have "\<forall>i < Suc m. Q i ((c'(m := t)) i)" "\<forall>i \<ge> Suc m. (c'(m := t)) i = c i"
      using c'(2,3) t(2) by (auto simp: less_Suc_eq)
    ultimately show ?case by blast
  qed auto
  from this [of "nodes N"] show ?thesis by blast
qed

lemma heard_waiting:
  assumes "good_network N" and "net_inv N c" and "heard N c0 r v c" and "int r < horizon N" and "i < nodes N"
    and "c i = (pc, p, l, lv)"
  shows "\<forall>w \<in> set (temp_list lv). \<exists>j < nodes N. w = v j \<and> sint (vround w) = int r + 1"
    and "vertex_hash (lib N) ` set (temp_list lv) \<union> {key N r i} = round_keys N r"
proof -
  have in_round: "in_round N c0 r i (pc, p, l, lv)" and all: "round_keys N r \<subseteq> dom (known (c i))"
    using assms(3,5) unfolding heard_def assms(6) [symmetric] by blast+
  then have at: "buffer p = []" "dag_image p = full N r @ [{key N r i}]" "vertex_hash (lib N) ` set (temp_list lv) \<subseteq> round_keys N r"
    by (simp_all add: in_round_def quiet_def peer_of_def)
  note node = net_invD [OF assms(2,1,5,6)]
  have mine: "v j \<in> authored N c" "vertex_hash (lib N) (v j) = key N r j" if "j < nodes N" for j
    using own_authored [OF assms(1,2) that _ assms(4)] assms(3) that by (simp_all add: heard_def)
  show "\<forall>w \<in> set (temp_list lv). \<exists>j < nodes N. w = v j \<and> sint (vround w) = int r + 1"
  proof
    fix w assume w: "w \<in> set (temp_list lv)"
    then obtain j where j: "j < nodes N" "vertex_hash (lib N) w = key N r j" using at(3) by (auto simp: round_keys_key)
    have author: "w \<in> authored N c" using node(3) w by (auto simp: fed_def)
    then have "w = v j" using authored_inject [OF assms(1,2) _ mine(1)] mine(2) j by simp
    moreover obtain k where k: "k < nodes N" "sint (vround w) \<in> {1..horizon N}"
      "vertex_hash (lib N) w = hash_256 (lib N) (vertex_key (sint (vround w)) (id_of N k))"
      by (rule authored_cases [OF author assms(2)]) (rule that)
    have "int r + 1 \<in> {1..horizon N}" using assms(4) by simp
    from key_inject [OF assms(1) k(1) j(1) k(2) this trans [OF k(3) [symmetric] j(2) [unfolded key_def]]]
    have "sint (vround w) = int r + 1" by simp
    ultimately show "\<exists>j < nodes N. w = v j \<and> sint (vround w) = int r + 1" using j(1) by blast
  qed
  have "key N r j \<in> vertex_hash (lib N) ` set (temp_list lv) \<union> {key N r i}" if j: "j < nodes N" for j
  proof -
    have old: "key N r j \<notin> round_keys N k" if "k < r" for k
      using key_inject [OF assms(1) j, of _ "int r + 1" "int k + 1"] that assms(4) by (auto simp: round_keys_key key_def)
    have "key N r j \<in> dom (vertex_map (server p))"
      using all j by (auto simp: round_keys_key known_def peer_of_def assms(6))
    also have "dom (vertex_map (server p)) = vertex_hash (lib N) ` set (temp_list lv) \<union> \<Union> (set (dag_image p))"
      using node(1) at(1) by (simp add: dag_inv_def conserved_def)
    also have "\<Union> (set (dag_image p)) = (\<Union>k < r. round_keys N k) \<union> {key N r i}" by (simp add: at(2))
    finally show ?thesis using old by blast
  qed
  with at(3) assms(5) show "vertex_hash (lib N) ` set (temp_list lv) \<union> {key N r i} = round_keys N r"
    by (auto simp: round_keys_key)
qed

lemma completes:
  assumes "good_network N" and "net_inv N c" and "heard N c0 r v c" and "int r < horizon N" and "i < nodes N"
    and "\<forall>j < nodes N. 0 < r \<longrightarrow> set (references (v j)) = round_keys N (r - 1)"
  shows "\<exists>t. (own_step N i)\<^sup>*\<^sup>* (c i) t \<and> at_round N c0 (Suc r) i t"
proof -
  obtain pc p l lv where c: "c i = (pc, p, l, lv)" by (metis prod_cases4)
  let ?E = "env_of N i"
  note node = net_invD [OF assms(2,1,5) c] and wait = heard_waiting [OF assms(1-5) c]
  have "in_round N c0 r i (pc, p, l, lv)" "task_queue (pool (peer_of (c i))) = []"
    using assms(3,5) unfolding heard_def c [symmetric] by blast+
  then have at: "pc = Asleep" "cur_round p = int r + 1" "dag_image p = full N r @ [{key N r i}]" "scan_buffer_thread_ready (server p)"
    "quiet c0 i (pc, p, l, lv)" "task_queue (pool p) = []"
    unfolding c by (auto simp: in_round_def peer_of_def)
  let ?s = "(server p)\<lparr>scan_buffer_thread_ready := False\<rparr>" and ?lv = "lv\<lparr>temp_list := [], temp_request_list := []\<rparr>"
  let ?p = "p\<lparr>server := ?s, buffer := temp_list lv, requests := []\<rparr>"
  have hand: "own_step N i (c i) (pc, ?p, l, ?lv)"
    using at(4,5) unfolding c by (intro own_stepI [OF act.hand]) (auto simp: hand_over_def quiet_def)
  let ?q = "?p\<lparr>dag_image := full N (Suc r), buffer := []\<rparr>"
  have add: "scan_buffer ?E (buffer ?p) (?p, l) = Inr ([], ?p\<lparr>dag_image := full N (Suc r)\<rparr>, l)"
  proof -
    have "(dag_image ?p)[r := vertex_hash (crypt ?E) ` set (temp_list lv) \<union> dag_image ?p ! r] = full N (Suc r)"
      using wait(2) at(3) good_networkD(2) [OF assms(1,5)] by (simp add: nth_append list_update_append full_Suc)
    moreover have "\<forall>w \<in> set (temp_list lv). sint (vround w) = int r + 1 \<and> (0 < r \<longrightarrow> set (references w) = dag_image ?p ! (r - 1))"
      using wait(1) assms(6) at(3) by (auto simp: nth_append)
    ultimately show ?thesis
      using add_round [of "temp_list lv" r ?p l ?E] at(2,3,5) by (simp add: quiet_def)
  qed
  have "?p\<lparr>requests := []\<rparr> = ?p" by (rule peer.equality) simp_all
  then have "process_requests (?p, l) = Inr (?p, l)" by (simp add: process_requests_def)
  then have "after_wait ?E False (?p, l) = Inr (False, ?q, l)"
    using add at(2,5) node(5) assms(4) by (simp add: after_wait_def quiet_def Let_def)
  then have wake: "own_step N i (pc, ?p, l, ?lv) (Top, ?q, l, ?lv)"
    unfolding at(1) by (intro own_stepI [OF act.wake]) auto
  have "at_round N c0 (Suc r) i (Top, ?q, l, ?lv)"
    using at(2,5,6) by (simp add: at_round_def quiet_def peer_of_def)
  moreover have "(own_step N i)\<^sup>*\<^sup>* (c i) (Top, ?q, l, ?lv)"
    by (rule two_own_steps [OF hand wake])
  ultimately show ?thesis by blast
qed

section \<open>One round of the whole network\<close>

text \<open>Every validator is connected to every other, has no more connections than that, and does not fail.\<close>

definition mesh :: "network \<Rightarrow> config \<Rightarrow> bool" where
  "mesh N c0 \<longleftrightarrow> (\<forall>i < nodes N. \<not> fail (peer_of (c0 i)) \<and> length (c_sockets (client (peer_of (c0 i)))) < nodes N \<and>
     (\<forall>j < nodes N. i \<noteq> j \<longrightarrow> (\<exists>fd \<in> set (c_sockets (client (peer_of (c0 i)))). reaches N c0 i fd j)))"

lemma all_propose:
  assumes "good_network N" and "net_inv N c" and "mesh N c0" and "int r < horizon N" and "\<forall>i < nodes N. at_round N c0 r i (c i)"
  obtains v c' where "(net_step N)\<^sup>*\<^sup>* c c'" and "exchange N c0 r v (\<lambda>i. c_sockets (client (peer_of (c0 i)))) c'"
    and "\<forall>i < nodes N. 0 < r \<longrightarrow> set (references (v i)) = round_keys N (r - 1)"
proof -
  let ?Q = "\<lambda>i t v. in_round N c0 r i t \<and> known t (key N r i) = Some v \<and>
    task_queue (pool (peer_of t)) = sends v (c_sockets (client (peer_of (c0 i)))) \<and>
    (0 < r \<longrightarrow> set (references v) = round_keys N (r - 1))"
  have "\<exists>t. (own_step N i)\<^sup>*\<^sup>* (c i) t \<and> (\<exists>v. ?Q i t v)" if "i < nodes N" for i
  proof -
    have "length (c_sockets (client (peer_of (c0 i)))) < nodes N" using assms(3) that by (simp add: mesh_def)
    with proposes [OF assms(1,2) that, of c0 r] assms(4,5) that obtain t v where
      "act (env_of N i) Turn (c i) t" "?Q i t v" by blast
    then have "own_step N i (c i) t" "?Q i t v" by (auto intro: own_stepI)
    then show ?thesis by blast
  qed
  from each_run [of N c "\<lambda>i t. \<exists>v. ?Q i t v", OF this] obtain c' where
    c': "(net_step N)\<^sup>*\<^sup>* c c'" "\<forall>i < nodes N. \<exists>v. ?Q i (c' i) v" by blast
  from c'(2) obtain v where v: "\<forall>i < nodes N. ?Q i (c' i) (v i)" by metis
  have "exchange N c0 r v (\<lambda>i. c_sockets (client (peer_of (c0 i)))) c'" using v by (simp add: exchange_def)
  from that [OF c'(1) this] v show thesis by blast
qed

lemma all_hear:
  assumes "mesh N c0" and "exchange N c0 r v fds c" and "\<forall>i < nodes N. fds i = []"
  shows "heard N c0 r v c"
  unfolding heard_def
proof (intro allI impI conjI)
  fix i assume i: "i < nodes N"
  have ex: "in_round N c0 r k (c k)" "known (c k) (key N r k) = Some (v k)" "task_queue (pool (peer_of (c k))) = sends (v k) (fds k)"
    "\<And>fd j. fd \<in> set (c_sockets (client (peer_of (c0 k)))) \<Longrightarrow> reaches N c0 k fd j \<Longrightarrow> key N r k \<in> dom (known (c j))"
    if "k < nodes N" for k
    using assms(2,3) that by (auto simp: exchange_def)
  show "in_round N c0 r i (c i)" "known (c i) (key N r i) = Some (v i)" by (fact ex [OF i])+
  show "task_queue (pool (peer_of (c i))) = []" using ex(3) [OF i] assms(3) i by (simp add: sends_def)
  show "round_keys N r \<subseteq> dom (known (c i))"
  proof
    fix h assume "h \<in> round_keys N r"
    then obtain j where j: "j < nodes N" "h = key N r j" by (auto simp: round_keys_key)
    show "h \<in> dom (known (c i))"
    proof (cases "j = i")
      case True
      with ex(2) [OF i] j show ?thesis by auto
    next
      case False
      with assms(1) i j(1) obtain fd where "fd \<in> set (c_sockets (client (peer_of (c0 j))))" "reaches N c0 j fd i"
        by (auto simp: mesh_def)
      with ex(4) [OF j(1)] j(2) show ?thesis by simp
    qed
  qed
qed

lemma one_round:
  assumes "good_network N" and "starting N c0" and "mesh N c0" and "(net_step N)\<^sup>*\<^sup>* c0 c" and "int r < horizon N"
    and "\<forall>i < nodes N. at_round N c0 r i (c i)"
  shows "\<exists>c'. (net_step N)\<^sup>*\<^sup>* c c' \<and> (\<forall>i < nodes N. at_round N c0 (Suc r) i (c' i))"
proof -
  have "net_inv N c" by (rule net_reachable [OF assms(2,1,4)])
  from all_propose [OF assms(1) this assms(3,5,6)] obtain v c1 where
    c1: "(net_step N)\<^sup>*\<^sup>* c c1" "exchange N c0 r v (\<lambda>i. c_sockets (client (peer_of (c0 i)))) c1"
    and refs: "\<forall>i < nodes N. 0 < r \<longrightarrow> set (references (v i)) = round_keys N (r - 1)" .
  have run1: "(net_step N)\<^sup>*\<^sup>* c0 c1" using assms(4) c1(1) by (rule rtranclp_trans)
  from exchange_all [OF assms(1,2) this c1(2) assms(5)] obtain c2 fds where
    c2: "(net_step N)\<^sup>*\<^sup>* c1 c2" "exchange N c0 r v fds c2" "\<forall>i < nodes N. fds i = []" by blast
  have "net_inv N c2" by (rule net_reachable [OF assms(2,1) rtranclp_trans [OF run1 c2(1)]])
  moreover have "heard N c0 r v c2" by (rule all_hear [OF assms(3) c2(2,3)])
  ultimately have "\<exists>t. (own_step N i)\<^sup>*\<^sup>* (c2 i) t \<and> at_round N c0 (Suc r) i t" if "i < nodes N" for i
    using completes [OF assms(1) _ _ assms(5) that refs] by blast
  from each_run [of N c2 "\<lambda>i. at_round N c0 (Suc r) i", OF this] obtain c3 where
    "(net_step N)\<^sup>*\<^sup>* c2 c3" "\<forall>i < nodes N. at_round N c0 (Suc r) i (c3 i)" by blast
  with c1(1) c2(1) show ?thesis by (meson rtranclp_trans)
qed

section \<open>All rounds\<close>

lemma at_start:
  assumes "starting N c0" and "mesh N c0" and "i < nodes N"
  shows "at_round N c0 0 i (c0 i)"
proof -
  have "launched (c0 i)" "\<not> fail (peer_of (c0 i))" "\<forall>fd. net (snd (snd (snd (c0 i)))) fd = []"
    using assms by (simp_all add: starting_def mesh_def)
  then show ?thesis
  proof (cases rule: launched.cases)
    case (launch fd bound clock domain type protocol port listen n final fails p os port0 addresses q streams)
    have core: "same_core p q" "pool q = pool p" using setup_network_frame [OF launch(7)] by simp_all
    from launch(2) have "dag_image p = []" "buffer p = []" "requests p = []" "pool p = Threadpool 160" "cur_round p = 0"
      by (auto simp: Peer_def Server_def bindR_Inr_iff split: if_splits)
    with core launch(1) assms(2,3) \<open>\<not> fail (peer_of (c0 i))\<close> \<open>\<forall>fd. net (snd (snd (snd (c0 i)))) fd = []\<close> show ?thesis
      by (simp add: at_round_def quiet_def peer_of_def same_core_def scan_init_def server_init_def Threadpool_def full_def)
  qed
qed

lemma all_rounds:
  assumes "good_network N" and "starting N c0" and "mesh N c0" and "int r \<le> horizon N"
  shows "\<exists>c. (net_step N)\<^sup>*\<^sup>* c0 c \<and> (\<forall>i < nodes N. at_round N c0 r i (c i))"
  using assms(4)
proof (induction r)
  case 0
  then show ?case using at_start [OF assms(2,3)] by blast
next
  case (Suc r)
  then obtain c where c: "(net_step N)\<^sup>*\<^sup>* c0 c" "\<forall>i < nodes N. at_round N c0 r i (c i)" by auto
  from one_round [OF assms(1-3) c(1) _ c(2)] Suc.prems obtain c' where
    "(net_step N)\<^sup>*\<^sup>* c c'" "\<forall>i < nodes N. at_round N c0 (Suc r) i (c' i)" by auto
  with c(1) show ?case by (meson rtranclp_trans)
qed

lemma leaves:
  assumes "good_network N" and "net_inv N c" and "at_round N c0 r i (c i)" and "int r = horizon N" and "i < nodes N"
  shows "\<exists>t. (own_step N i)\<^sup>*\<^sup>* (c i) t \<and> fst t = Gone \<and> cur_round (peer_of t) = horizon N + 1 \<and> dag_image (peer_of t) = full N r \<and>
    buffer (peer_of t) = [] \<and> temp_list (snd (snd (snd t))) = []"
proof -
  obtain pc p l lv where c: "c i = (pc, p, l, lv)" by (metis prod_cases4)
  let ?E = "env_of N i"
  note node = net_invD [OF assms(2,1,5) c]
  have wf: "wf_peer p" using node(1) by (simp add: dag_inv_def)
  have at: "pc = Top" "cur_round p = horizon N" "dag_image p = full N r" "quiet c0 i (pc, p, l, lv)" "temp_list lv = []"
    using assms(3,4) by (auto simp: at_round_def c peer_of_def)
  have complete: "\<forall>D \<in> set (dag_image p). crowd p \<le> int (card D)"
    using full_cards [OF assms(1), of r] assms(4) at(3) node(6) by simp
  let ?p = "p\<lparr>cur_round := cur_round p + 1\<rparr>" and ?l = "l\<lparr>need_help := False\<rparr>"
  let ?q = "?p\<lparr>server := set_thread_ready True (server ?p)\<rparr>"
  let ?u = "?q\<lparr>server := set_thread_ready True ((server ?q)\<lparr>is_up := False\<rparr>)\<rparr>"
  let ?t = "?u\<lparr>client := snd (close_sockets (client ?u))\<rparr>"
  have "move_round ?E 0 (p, l) = Inr (?p, ?l)"
    using wf at(2) node(5) complete
    by (simp add: move_round_def advance_def can_advance_full wave_work_full Let_def)
  then have turn: "own_step N i (c i) (Asleep, ?q, ?l, lv)"
    unfolding c at(1) by (intro own_stepI [OF act.round]) auto
  have "?q\<lparr>requests := [], buffer := []\<rparr> = ?q"
    using at(4) by (intro peer.equality) (simp_all add: quiet_def)
  then have "after_wait ?E False (?q, ?l) = Inr (True, ?u, ?l)"
    using at(2,4) node(5) by (simp add: after_wait_def process_requests_def quiet_def Let_def)
  from act.leave [OF this, of lv] have leave: "own_step N i (Asleep, ?q, ?l, lv) (Gone, ?t, ?l, lv)"
    by (rule own_stepI) simp
  have "(own_step N i)\<^sup>*\<^sup>* (c i) (Gone, ?t, ?l, lv)"
    by (rule two_own_steps [OF turn leave])
  moreover have "cur_round ?t = horizon N + 1" "dag_image ?t = full N r" "buffer ?t = []"
    using at(2-4) by (simp_all add: quiet_def)
  ultimately show ?thesis
    using at(5) by (intro exI [of _ "(Gone, ?t, ?l, lv)"]) (simp add: peer_of_def)
qed

lemma finishes:
  assumes "good_network N" and "starting N c0" and "mesh N c0" and "0 \<le> horizon N"
  obtains c where "(net_step N)\<^sup>*\<^sup>* c0 c"
    and "\<forall>i < nodes N. fst (c i) = Gone \<and> cur_round (peer_of (c i)) = horizon N + 1 \<and>
      dag_image (peer_of (c i)) = map (round_keys N) [0..<nat (horizon N)] \<and>
      buffer (peer_of (c i)) = [] \<and> temp_list (snd (snd (snd (c i)))) = []"
proof -
  obtain c where c: "(net_step N)\<^sup>*\<^sup>* c0 c" "\<forall>i < nodes N. at_round N c0 (nat (horizon N)) i (c i)"
    using all_rounds [OF assms(1-3), of "nat (horizon N)"] assms(4) by auto
  let ?Q = "\<lambda>t. fst t = Gone \<and> cur_round (peer_of t) = horizon N + 1 \<and> dag_image (peer_of t) = full N (nat (horizon N)) \<and>
    buffer (peer_of t) = [] \<and> temp_list (snd (snd (snd t))) = []"
  have inv: "net_inv N c" by (rule net_reachable [OF assms(2,1) c(1)])
  have "\<exists>t. (own_step N i)\<^sup>*\<^sup>* (c i) t \<and> ?Q t" if "i < nodes N" for i
    using leaves [OF assms(1) inv, of c0 "nat (horizon N)" i] c(2) assms(4) that by simp
  from each_run [of N c "\<lambda>i t. ?Q t", OF this] obtain c' where "(net_step N)\<^sup>*\<^sup>* c c'" "\<forall>i < nodes N. ?Q (c' i)" by blast
  moreover from this(1) c(1) have "(net_step N)\<^sup>*\<^sup>* c0 c'" by (meson rtranclp_trans)
  ultimately show thesis using that [of c'] by (simp add: full_def)
qed

text \<open>
  C5. The network can finish: if every validator is connected to every other and none is made to
  fail, there is a run of any number of rounds after which every validator has left its loop, and
  the DAG of each is the whole one: in every round the vertex of every validator.
\<close>

theorem network_can_finish:
  assumes "good_network N" and "starting N c0" and "mesh N c0" and "0 \<le> horizon N"
  shows "\<exists>c. (net_step N)\<^sup>*\<^sup>* c0 c \<and> (\<forall>i < nodes N. fst (c i) = Gone \<and> cur_round (peer_of (c i)) = horizon N + 1 \<and>
    dag_image (peer_of (c i)) = map (round_keys N) [0..<nat (horizon N)])"
  using finishes [OF assms] by metis

text \<open>
  And if there are at least twelve rounds, what the validators then write, in any order, makes the
  parent print that all of them think of the same DAG.
\<close>

theorem network_can_print_true:
  assumes "good_network N" and "starting N c0" and "mesh N c0" and "12 \<le> horizon N" and "0 < nodes N"
    and "set rs \<subseteq> {..<nodes N}" and "length rs \<le> nodes N" and "\<forall>k \<in> {0..<int (nodes N)}. 0 \<le> fork k"
  shows "\<exists>c hs out. (net_step N)\<^sup>*\<^sup>* c0 c \<and> (\<forall>i < nodes N. fst (c i) = Gone) \<and>
    list_all2 (\<lambda>i h. child_output (env_of N i) False (peer_of (c i)) = Inr h) rs hs \<and>
    main_program [name, filename, to_string (int (nodes N)), to_string (horizon N)] 0 fork wait (concat hs) =
      Inr (out @ ''By the end, all peers think of the same DAG: true'' @ [CHR 0x0A])"
proof -
  have "0 \<le> horizon N" using assms(4) by simp
  from finishes [OF assms(1-3) this] obtain c where run: "(net_step N)\<^sup>*\<^sup>* c0 c"
    and ends: "\<forall>i < nodes N. fst (c i) = Gone \<and> cur_round (peer_of (c i)) = horizon N + 1 \<and>
      dag_image (peer_of (c i)) = map (round_keys N) [0..<nat (horizon N)] \<and>
      buffer (peer_of (c i)) = [] \<and> temp_list (snd (snd (snd (c i)))) = []" .
  have inv: "net_inv N c" by (rule net_reachable [OF assms(2,1) run])
  have "\<forall>i \<in> set rs. horizon N \<le> cur_round (peer_of (c i))" using ends assms(6) by auto
  moreover have "\<forall>i \<in> set rs. \<forall>j \<in> set rs. take (nat (horizon N - 12)) (dag_image (peer_of (c i))) =
      take (nat (horizon N - 12)) (dag_image (peer_of (c j)))"
  proof -
    have "dag_image (peer_of (c i)) = map (round_keys N) [0..<nat (horizon N)]" if "i \<in> set rs" for i
      using ends assms(6) that by blast
    then show ?thesis by simp
  qed
  ultimately obtain hs out where "list_all2 (\<lambda>i h. child_output (env_of N i) False (peer_of (c i)) = Inr h) rs hs"
    "main_program [name, filename, to_string (int (nodes N)), to_string (horizon N)] 0 fork wait (concat hs) =
      Inr (out @ ''By the end, all peers think of the same DAG: true'' @ [CHR 0x0A])"
    using prints_true [OF assms(1) inv assms(6,7,5,4) _ _ assms(8)] by blast
  with run ends show ?thesis by blast
qed

end
