(* ===== verification/Mesh_Run.thy ===== *)
theory Mesh_Run
  imports Liveness
begin

text \<open>
  Four validators, each connected to the other three, for the witnesses: they have a run to the
  end, after which they have stored the same vertices and have nothing left to add.
\<close>

section \<open>Four connected validators\<close>

definition others :: "nat \<Rightarrow> nat list" where
  "others i = filter (\<lambda>j. j \<noteq> i) [0, 1, 2, 3]"

definition mesh_conn :: "nat \<Rightarrow> nat \<Rightarrow> conn" where
  "mesh_conn i k = \<lparr>conn_socket = 5 + int k, conn_connect = 0, conn_value = 17 + of_nat (others i ! k)\<rparr>"

definition mesh_member :: "nat \<Rightarrow> peer" where
  "mesh_member i = (case setup_network (mesh_conn i) 0 (Some (replicate 3 (address_line (''a'', 5000)))) (first_peer\<lparr>own_id := 17 + of_nat i\<rparr>) of Inr q \<Rightarrow> q)"

definition mesh_start :: config where
  "mesh_start i = (let p = mesh_member i in (Top, p, scan_init p, server_init (server p) (\<lambda>_. [])))"

definition mesh_network :: network where
  "mesh_network = demo_network\<lparr>link := (\<lambda>i fd. if 5 \<le> fd \<and> fd \<le> 7 then Some (others i ! nat (fd - 5), 9 + int i) else None)\<rparr>"

lemma good_mesh_network: "good_network mesh_network"
  using good_demo_network by (simp add: good_network_def mesh_network_def)

lemma mesh_setup: "setup_network (mesh_conn i) 0 (Some (replicate 3 (address_line (''a'', 5000)))) (first_peer\<lparr>own_id := 17 + of_nat i\<rparr>) = Inr (mesh_member i)"
  and mesh_sockets: "c_sockets (client (mesh_member i)) = [5, 6, 7]"
proof -
  let ?p = "first_peer\<lparr>own_id := 17 + of_nat i\<rparr>" and ?a = "(''a'', 5000) :: string \<times> int"
  have line: "read_line (address_line ?a) st = ?a" for st
    by (rule read_line_address) (simp add: good_address_def isspace_def)
  have "getport (server ?p) = 4999"
    by (simp add: getport_def first_peer_def Peer_def Server_def c_socket_def)
  then have addresses: "read_addresses (getport (server ?p)) (replicate 3 (address_line ?a)) ([], 0) = [?a, ?a, ?a]"
    by (simp add: numeral_eq_Suc line Let_def)
  have "\<exists>c. connect_loop (mesh_conn i) 0 [?a, ?a, ?a] (client ?p) = Inr c"
    by (rule connect_loop_Inr) (simp add: mesh_conn_def)
  then obtain c where c: "connect_loop (mesh_conn i) 0 [?a, ?a, ?a] (client ?p) = Inr c" by blast
  have ok: "setup_network (mesh_conn i) 0 (Some (replicate 3 (address_line ?a))) ?p = Inr (?p\<lparr>known_peers := [?a, ?a, ?a], client := c\<rparr>)"
    using c unfolding setup_network_def option.case addresses Let_def
    by (simp del: connect_loop.simps add: connect_to_def first_peer_sel)
  then show "setup_network (mesh_conn i) 0 (Some (replicate 3 (address_line ?a))) ?p = Inr (mesh_member i)"
    by (simp add: mesh_member_def)
  have "connected (mesh_conn i) 0 (client ?p)" by (simp add: connected_def first_peer_sel Client_def)
  from connect_loop_connected [OF this c] have "c_sockets c = [5, 6, 7]"
    by (simp add: connected_def mesh_conn_def upt_rec)
  with ok show "c_sockets (client (mesh_member i)) = [5, 6, 7]" by (simp add: mesh_member_def)
qed

lemma mesh_core: "same_core (first_peer\<lparr>own_id := 17 + of_nat i\<rparr>) (mesh_member i)"
  using setup_network_frame [OF mesh_setup] by simp

lemma mesh_member_sel [simp]:
  "own_id (mesh_member i) = 17 + of_nat i" "last_round (mesh_member i) = 20" "crowd (mesh_member i) = 4"
  "\<not> fail (mesh_member i)" "s_socket (server (mesh_member i)) = 4"
  using mesh_core [of i] first_peer_sel by (simp_all add: same_core_def first_peer_def Peer_def Server_def c_socket_def)

lemma starting_mesh: "starting mesh_network mesh_start"
proof -
  have p: "Peer 4 0 (17 + of_nat i) 2 1 6 4999 1024 4 20 False = Inr (first_peer\<lparr>own_id := 17 + of_nat i\<rparr>)" for i
    by (simp add: first_peer_def Peer_def Server_def c_socket_def)
  have "launched (mesh_start i)" for i
    using launch [OF p _ _ _ _ mesh_setup] by (simp add: mesh_start_def Let_def)
  then show ?thesis
    by (simp add: starting_def mesh_network_def demo_network_def mesh_start_def peer_of_def server_init_def Let_def)
qed

lemma mesh_mesh: "mesh mesh_network mesh_start"
proof -
  have cases: "n < 4 \<Longrightarrow> n = 0 \<or> n = 1 \<or> n = 2 \<or> n = 3" for n :: nat by arith
  have "\<exists>fd \<in> {5, 6, 7}. reaches mesh_network mesh_start i fd j" if "i < 4" "j < 4" "i \<noteq> j" for i j
    using cases [OF that(1)] cases [OF that(2)] that(3)
    by (auto simp: reaches_def mesh_network_def demo_network_def mesh_start_def peer_of_def others_def Let_def)
  then show ?thesis
    by (simp add: mesh_def mesh_sockets mesh_start_def peer_of_def mesh_network_def demo_network_def Let_def)
qed

section \<open>The end of their run\<close>

lemma finished_stores:
  assumes "good_network N" and "net_inv N c" and "i < nodes N" and "j < nodes N"
    and "\<forall>k \<in> {i, j}. buffer (peer_of (c k)) = [] \<and> temp_list (snd (snd (snd (c k)))) = []"
    and "dag_image (peer_of (c i)) = dag_image (peer_of (c j))"
  shows "stored_until r (c i) = stored_until r (c j)"
proof -
  have dom: "dom (known (c k)) = \<Union> (set (dag_image (peer_of (c k))))" if "k \<in> {i, j}" for k
  proof -
    obtain pc p l lv where c: "c k = (pc, p, l, lv)" by (metis prod_cases4)
    have "k < nodes N" using that assms(3,4) by auto
    from net_invD(1) [OF assms(2,1) this c] have "conserved (lib N) p (buffer p @ temp_list lv)" by (simp add: dag_inv_def)
    moreover have "buffer (peer_of (c k)) = []" "temp_list (snd (snd (snd (c k)))) = []" using assms(5) that by blast+
    ultimately show ?thesis by (simp add: c conserved_def known_def peer_of_def)
  qed
  have "known (c i) = known (c j)"
  proof
    fix h
    show "known (c i) h = known (c j) h"
    proof (cases "known (c i) h")
      case None
      then show ?thesis using dom [of i] dom [of j] assms(6) by (metis domIff insertCI)
    next
      case (Some v)
      then have "h \<in> dom (known (c j))" using dom [of i] dom [of j] assms(6) by auto
      then obtain w where w: "known (c j) h = Some w" by blast
      have "v = w"
        using authored_inject [OF assms(1,2)] known_authored [OF assms(2,1,3) Some] known_authored [OF assms(2,1,4) w] by metis
      with Some w show ?thesis by simp
    qed
  qed
  then show ?thesis by (simp add: stored_until_def)
qed

lemma mesh_run:
  obtains c where "(net_step mesh_network)\<^sup>*\<^sup>* mesh_start c"
    and "\<forall>i < 4. cur_round (peer_of (c i)) = 21 \<and> length (dag_image (peer_of (c i))) = 20 \<and> idle_until r (c i)"
    and "\<forall>i < 4. \<forall>j < 4. stored_until r (c i) = stored_until r (c j)"
    and "\<forall>i < 4. dag_image (peer_of (c i)) = map (round_keys mesh_network) [0..<20]"
proof -
  have n: "nodes mesh_network = 4" "horizon mesh_network = 20" by (simp_all add: mesh_network_def demo_network_def)
  define D where "D = map (round_keys mesh_network) [0..<nat (horizon mesh_network)]"
  have len: "length D = 20" unfolding D_def n by simp
  obtain c where run: "(net_step mesh_network)\<^sup>*\<^sup>* mesh_start c" and
    ends: "\<forall>i < 4. fst (c i) = Gone \<and> cur_round (peer_of (c i)) = 21 \<and> dag_image (peer_of (c i)) = D \<and>
      buffer (peer_of (c i)) = [] \<and> temp_list (snd (snd (snd (c i)))) = []"
    by (rule finishes [OF good_mesh_network starting_mesh mesh_mesh]) (simp_all add: n D_def)
  have inv: "net_inv mesh_network c" by (rule net_reachable [OF starting_mesh good_mesh_network run])
  have stored: "stored_until r (c i) = stored_until r (c j)" if "i < 4" "j < 4" for i j
    using that ends n by (intro finished_stores [OF good_mesh_network inv]) auto
  have "idle_until r (c i)" if "i < 4" for i
    using ends that by (cases "c i") (auto simp: idle_until_def peer_of_def)
  then have "\<forall>i < 4. cur_round (peer_of (c i)) = 21 \<and> length (dag_image (peer_of (c i))) = 20 \<and> idle_until r (c i)"
    using ends len by simp
  moreover have "\<forall>i < 4. dag_image (peer_of (c i)) = map (round_keys mesh_network) [0..<20]"
    using ends by (simp add: D_def n)
  ultimately show thesis using stored by (intro that [OF run]) blast+
qed

text \<open>A vertex of the first round that two different validators have.\<close>

lemma mesh_shared:
  obtains c h v where "(net_step mesh_network)\<^sup>*\<^sup>* mesh_start c"
    and "\<forall>i < 4. cur_round (peer_of (c i)) = 21 \<and> length (dag_image (peer_of (c i))) = 20 \<and> h \<in> dag_image (peer_of (c i)) ! 0"
    and "known (c 0) h = Some v" and "known (c 3) h \<noteq> None"
proof -
  obtain c where run: "(net_step mesh_network)\<^sup>*\<^sup>* mesh_start c"
    and c: "\<forall>i < 4. cur_round (peer_of (c i)) = 21 \<and> length (dag_image (peer_of (c i))) = 20 \<and> idle_until 20 (c i)"
      "\<forall>i < 4. dag_image (peer_of (c i)) = map (round_keys mesh_network) [0..<20]"
    by (rule mesh_run)
  have n: "nodes mesh_network = 4" by (simp add: mesh_network_def demo_network_def)
  have "(0 :: nat) \<in> {..<nodes mesh_network}" by (simp add: n)
  then have "round_keys mesh_network 0 \<noteq> {}" unfolding round_keys_def by blast
  then obtain h where h: "h \<in> round_keys mesh_network 0" by blast
  have inv: "net_inv mesh_network c" by (rule net_reachable [OF starting_mesh good_mesh_network run])
  have "known (c i) h \<noteq> None" if "i < 4" for i
  proof -
    obtain pc p l lv where ci: "c i = (pc, p, l, lv)" by (metis prod_cases4)
    have "i < nodes mesh_network" using that n by simp
    from net_invD(1) [OF inv good_mesh_network this ci] have "\<Union> (set (dag_image p)) \<subseteq> dom (vertex_map (server p))"
      by (auto simp: dag_inv_def conserved_def)
    moreover have "h \<in> dag_image p ! 0" "length (dag_image p) = 20"
      using spec [OF c(2), of i] that h by (simp_all add: ci peer_of_def)
    then have "h \<in> \<Union> (set (dag_image p))" by (metis UnionI nth_mem zero_less_numeral)
    ultimately show ?thesis by (auto simp: ci known_def peer_of_def)
  qed
  then have "known (c 0) h \<noteq> None" "known (c 3) h \<noteq> None" by simp_all
  then show thesis using that [OF run, of h] c h by auto
qed

theorem network_agreement_witness:
  "\<exists>c h v. (net_step mesh_network)\<^sup>*\<^sup>* mesh_start c \<and> known (c 0) h = Some v \<and> known (c 3) h = Some v"
proof -
  obtain c h v where run: "(net_step mesh_network)\<^sup>*\<^sup>* mesh_start c"
    and v: "known (c 0) h = Some v" "known (c 3) h \<noteq> None"
    by (rule mesh_shared)
  then obtain w where w: "known (c 3) h = Some w" by blast
  have "v = w"
    using network_agreement [OF good_mesh_network starting_mesh run rtranclp.rtrancl_refl _ _ v(1) w]
    by (simp add: mesh_network_def demo_network_def)
  with run v w show ?thesis by blast
qed

theorem network_common_history_witness:
  "\<exists>c h. (net_step mesh_network)\<^sup>*\<^sup>* mesh_start c \<and> h \<in> dag_image (peer_of (c 0)) ! 0 \<and>
     {g. ancestor (known (c 0)) h g} = {g. ancestor (known (c 3)) h g}"
proof -
  obtain c h v where run: "(net_step mesh_network)\<^sup>*\<^sup>* mesh_start c"
    and c: "\<forall>i < 4. cur_round (peer_of (c i)) = 21 \<and> length (dag_image (peer_of (c i))) = 20 \<and> h \<in> dag_image (peer_of (c i)) ! 0"
    by (rule mesh_shared)
  have "\<forall>g. ancestor (known (c 0)) h g \<longleftrightarrow> ancestor (known (c 3)) h g"
    using network_common_history [OF good_mesh_network starting_mesh run, of 0 3 0 h 0] c
    by (simp add: mesh_network_def demo_network_def)
  with run c show ?thesis by (intro exI [of _ c] exI [of _ h]) simp
qed

theorem network_quorums_meet_witness:
  "\<exists>c. (net_step mesh_network)\<^sup>*\<^sup>* mesh_start c \<and>
     2 \<le> card (dag_image (peer_of (c 0)) ! 5 \<inter> dag_image (peer_of (c 3)) ! 5) \<and> card (dag_image (peer_of (c 0)) ! 5) \<le> 4"
proof -
  obtain c h v where run: "(net_step mesh_network)\<^sup>*\<^sup>* mesh_start c"
    and c: "\<forall>i < 4. cur_round (peer_of (c i)) = 21 \<and> length (dag_image (peer_of (c i))) = 20 \<and> h \<in> dag_image (peer_of (c i)) ! 0"
    by (rule mesh_shared)
  have n: "nodes mesh_network = 4" "max_byzantines 4 = 1" by (simp_all add: mesh_network_def demo_network_def max_byzantines_div)
  have "2 \<le> card (dag_image (peer_of (c 0)) ! 5 \<inter> dag_image (peer_of (c 3)) ! 5) \<and> card (dag_image (peer_of (c 0)) ! 5) \<le> 4"
    using network_quorums_meet [OF good_mesh_network starting_mesh run, of 0 3 5, OF _ _ _ _ refl refl] c n by simp
  with run show ?thesis by blast
qed

theorem network_can_finish_witness:
  "\<exists>c. (net_step mesh_network)\<^sup>*\<^sup>* mesh_start c \<and> fst (c 0) = Gone \<and> fst (c 3) = Gone \<and>
     dag_image (peer_of (c 0)) = dag_image (peer_of (c 3)) \<and> length (dag_image (peer_of (c 3))) = 20"
proof -
  have "0 \<le> horizon mesh_network" by (simp add: mesh_network_def demo_network_def)
  from network_can_finish [OF good_mesh_network starting_mesh mesh_mesh this] obtain c where
    "(net_step mesh_network)\<^sup>*\<^sup>* mesh_start c" "\<forall>i < 4. fst (c i) = Gone \<and> dag_image (peer_of (c i)) = map (round_keys mesh_network) [0..<20]"
    by (auto simp: mesh_network_def demo_network_def)
  then show ?thesis by (intro exI [of _ c]) simp
qed

theorem network_convergence_witness:
  "\<exists>c. (net_step mesh_network)\<^sup>*\<^sup>* mesh_start c \<and> cur_round (peer_of (c 2)) = 21 \<and>
     take 20 (dag_image (peer_of (c 1))) = take 20 (dag_image (peer_of (c 2)))"
proof -
  obtain c where run: "(net_step mesh_network)\<^sup>*\<^sup>* mesh_start c"
    and c: "\<forall>i < 4. cur_round (peer_of (c i)) = 21 \<and> length (dag_image (peer_of (c i))) = 20 \<and> idle_until 20 (c i)"
      "\<forall>i < 4. \<forall>j < 4. stored_until 20 (c i) = stored_until 20 (c j)"
    by (rule mesh_run)
  have n: "nodes mesh_network = 4" by (simp add: mesh_network_def demo_network_def)
  have "take (nat 20) (dag_image (peer_of (c 1))) = take (nat 20) (dag_image (peer_of (c 2)))"
    using c n by (intro network_convergence [OF good_mesh_network starting_mesh run]) simp_all
  with run c(1) show ?thesis by (intro exI [of _ c]) simp
qed

theorem network_prints_true_witness:
  "\<exists>c hs out. (net_step mesh_network)\<^sup>*\<^sup>* mesh_start c \<and> length hs = 4 \<and>
     child_output (env_of mesh_network 3) False (peer_of (c 3)) = Inr (hs ! 0) \<and>
     main_program [''main'', ''a.txt'', to_string 4, to_string 20] 0 (\<lambda>k. 100 + k) (\<lambda>i. (100 + int i, 0)) (concat hs) =
       Inr (out @ ''By the end, all peers think of the same DAG: true'' @ [CHR 0x0A])"
proof -
  obtain c where run: "(net_step mesh_network)\<^sup>*\<^sup>* mesh_start c"
    and c: "\<forall>i < 4. cur_round (peer_of (c i)) = 21 \<and> length (dag_image (peer_of (c i))) = 20 \<and> idle_until 8 (c i)"
      "\<forall>i < 4. \<forall>j < 4. stored_until 8 (c i) = stored_until 8 (c j)"
    by (rule mesh_run)
  have n: "nodes mesh_network = 4" "horizon mesh_network = 20" by (simp_all add: mesh_network_def demo_network_def)
  have "\<exists>hs out. list_all2 (\<lambda>i h. child_output (env_of mesh_network i) False (peer_of (c i)) = Inr h) [3, 1, 0, 2] hs \<and>
    main_program [''main'', ''a.txt'', to_string (int (nodes mesh_network)), to_string (horizon mesh_network)] 0
      (\<lambda>k. 100 + k) (\<lambda>i. (100 + int i, 0)) (concat hs) =
      Inr (out @ ''By the end, all peers think of the same DAG: true'' @ [CHR 0x0A])"
    using c n by (intro network_prints_true [OF good_mesh_network starting_mesh run]) simp_all
  then obtain hs out where "list_all2 (\<lambda>i h. child_output (env_of mesh_network i) False (peer_of (c i)) = Inr h) [3, 1, 0, 2] hs"
    "main_program [''main'', ''a.txt'', to_string 4, to_string 20] 0 (\<lambda>k. 100 + k) (\<lambda>i. (100 + int i, 0)) (concat hs) =
      Inr (out @ ''By the end, all peers think of the same DAG: true'' @ [CHR 0x0A])"
    unfolding n by auto
  with run show ?thesis by (intro exI [of _ c] exI [of _ hs] exI [of _ out]) (auto simp: list_all2_Cons1)
qed

end
