(* ===== verification/Adversary.thy ===== *)
theory Adversary
  imports Liveness
begin

text \<open>
  What one connection can do to a validator: the ids of vertices are not compared with those of the
  peers, so whoever can connect can fill a round with vertices of creators that do not exist.
\<close>

section \<open>Vertices of creators that do not exist\<close>

lemma admit_all_fresh:
  assumes "distinct (map (vertex_hash C) vs)" and "\<forall>v \<in> set vs. admissible maj v \<and> vertex_hash C v \<notin> dom (vertex_map s)"
  shows "\<exists>m. foldl (admit C maj) (s, l) vs = (s\<lparr>vertex_map := m\<rparr>, l\<lparr>temp_list := rev vs @ temp_list l\<rparr>)"
  using assms
proof (induction vs arbitrary: s l)
  case Nil
  have "s = s\<lparr>vertex_map := vertex_map s\<rparr>" by simp
  then show ?case by (intro exI [of _ "vertex_map s"]) simp
next
  case (Cons v vs)
  let ?s = "s\<lparr>vertex_map := (vertex_map s)(vertex_hash C v \<mapsto> v)\<rparr>" and ?l = "l\<lparr>temp_list := v # temp_list l\<rparr>"
  have "\<exists>m. foldl (admit C maj) (?s, ?l) vs = (?s\<lparr>vertex_map := m\<rparr>, ?l\<lparr>temp_list := rev vs @ temp_list ?l\<rparr>)"
  proof (rule Cons.IH)
    have "vertex_hash C w \<noteq> vertex_hash C v" if "w \<in> set vs" for w using Cons.prems(1) imageI [OF that, of "vertex_hash C"] by auto
    then show "\<forall>w \<in> set vs. admissible maj w \<and> vertex_hash C w \<notin> dom (vertex_map ?s)"
      using Cons.prems(2) by auto
  qed (use Cons.prems(1) in simp)
  then show ?case using Cons.prems(2) by (simp add: admit_def umap_insert_def)
qed

text \<open>An event and a hand-over bring a packet of new vertices into the buffer of the scan thread.\<close>

lemma packet_queued:
  assumes "good_packet vs" and "distinct (map (vertex_hash (crypt E)) vs)"
    and "\<forall>v \<in> set vs. admissible (majority (crowd p)) v \<and> vertex_hash (crypt E) v \<notin> dom (vertex_map (server p))"
    and "net lv fd = packet_of vs" and "fd \<noteq> s_socket (server p)" and "scan_buffer_thread_ready (server p)"
    and "buffer p = []" and "requests p = []" and "temp_list lv = []" and "temp_request_list lv = []"
  shows "\<exists>s lv'. (step E)\<^sup>*\<^sup>* (pc, p, l, lv) (pc, p\<lparr>server := s, buffer := rev vs, requests := []\<rparr>, l, lv')"
proof -
  define e where "e = \<lparr>ev_fd = fd, ev_events = EPOLLIN, ev_accepted = 0, ev_arrived = Arrived 4, ev_closed = False\<rparr>"
  let ?maj = "majority (crowd p)"
  have "net lv (ev_fd e) = packet_of vs @ []" using assms(4) by (simp add: e_def)
  then obtain bytes where event: "handle_event (crypt E) ?maj e (server p, lv) =
      Some (Inr (foldl (admit (crypt E) ?maj) (server p, lv\<lparr>bytes_to_recv := bytes, net := (net lv)(fd := [])\<rparr>) vs))"
    using event_packet [OF assms(1), of e "server p" 4 lv "[]" "crypt E" ?maj] assms(5) by (auto simp: e_def)
  let ?lv = "lv\<lparr>bytes_to_recv := bytes, net := (net lv)(fd := [])\<rparr>"
  obtain m where admitted: "foldl (admit (crypt E) ?maj) (server p, ?lv) vs =
      ((server p)\<lparr>vertex_map := m\<rparr>, ?lv\<lparr>temp_list := rev vs @ temp_list ?lv\<rparr>)"
    using admit_all_fresh [OF assms(2,3)] by blast
  define s2 lv2 where "s2 = (server p)\<lparr>vertex_map := m\<rparr>" and "lv2 = ?lv\<lparr>temp_list := rev vs\<rparr>"
  have "handle_event (crypt E) ?maj e (server p, lv) = Some (Inr (s2, lv2))"
    using event admitted assms(9) by (simp add: s2_def lv2_def)
  from act_step [OF act.event [OF this, of pc l]] have one: "step E (pc, p, l, lv) (pc, p\<lparr>server := s2\<rparr>, l, lv2)" .
  let ?s = "s2\<lparr>scan_buffer_thread_ready := False\<rparr>" and ?lv3 = "lv2\<lparr>temp_list := [], temp_request_list := []\<rparr>"
  have "hand_over (server (p\<lparr>server := s2\<rparr>), lv2) (buffer (p\<lparr>server := s2\<rparr>)) (requests (p\<lparr>server := s2\<rparr>)) =
      Some ((?s, ?lv3), rev vs, [])"
    using assms(6-8,10) by (simp add: hand_over_def s2_def lv2_def)
  from act_step [OF act.hand [OF this, of E pc l]] one show ?thesis
    by (intro exI [of _ ?s] exI [of _ ?lv3]) (simp add: converse_rtranclp_into_rtranclp)
qed

text \<open>The scan thread sleeps in round 1 and nothing else is under way.\<close>

definition waits_in_first :: "validator \<Rightarrow> bool" where
  "waits_in_first = (\<lambda>(pc, p, l, lv). pc = Asleep \<and> cur_round p = 1 \<and> (\<exists>D. dag_image p = [D] \<and> finite D) \<and> 1 \<le> stop_round l \<and>
     buffer p = [] \<and> requests p = [] \<and> temp_list lv = [] \<and> temp_request_list lv = [] \<and> missing_set l = {} \<and>
     scan_buffer_thread_ready (server p))"

text \<open>
  C13. Membership is not checked: a peer that sends one packet with a quorum of vertices of round 1,
  whatever creators they name, makes a validator add all of them and leave the round, although no
  validator of the network has said anything. So the number of faulty validators that the protocol
  is meant to bear does not limit what one connection can do.
\<close>

theorem invented_quorum:
  assumes "waits_in_first (pc, p, l, lv)" and "good_packet vs" and "\<forall>v \<in> set vs. vround v = 1"
    and "distinct (map (vertex_hash (crypt E)) vs)" and "\<forall>v \<in> set vs. vertex_hash (crypt E) v \<notin> dom (vertex_map (server p))"
    and "size_t (2 * byzantines p + 1) \<le> int (length vs)" and "net lv fd = packet_of vs" and "fd \<noteq> s_socket (server p)"
  shows "\<exists>q l' lv'. (step E)\<^sup>*\<^sup>* (pc, p, l, lv) (Top, q, l', lv') \<and> cur_round q = 1 \<and> can_advance q = Inr True \<and>
    vertex_hash (crypt E) ` set vs \<subseteq> dag_image q ! 0"
proof -
  obtain D where at: "pc = Asleep" "cur_round p = 1" "dag_image p = [D]" "finite D" "1 \<le> stop_round l"
    "buffer p = []" "requests p = []" "temp_list lv = []" "temp_request_list lv = []" "missing_set l = {}"
    "scan_buffer_thread_ready (server p)"
    using assms(1) by (auto simp: waits_in_first_def)
  let ?H = "vertex_hash (crypt E) ` set vs"
  obtain s lv' where run: "(step E)\<^sup>*\<^sup>* (pc, p, l, lv) (pc, p\<lparr>server := s, buffer := rev vs, requests := []\<rparr>, l, lv')"
    using packet_queued [OF assms(2,4) _ assms(7,8) at(11,6-9), of pc l] assms(3,5) by (auto simp: admissible_def)
  let ?p = "p\<lparr>server := s, buffer := rev vs, requests := []\<rparr>"
  let ?q = "?p\<lparr>dag_image := [?H \<union> D], buffer := []\<rparr>"
  have "scan_buffer E (buffer ?p) (?p, l) = Inr ([], ?p\<lparr>dag_image := [?H \<union> D]\<rparr>, l)"
    using add_round [of "rev vs" 0 ?p l E] at(2,3,10) assms(3) by simp
  moreover have "?p\<lparr>requests := []\<rparr> = ?p" by (rule peer.equality) simp_all
  then have "process_requests (?p, l) = Inr (?p, l)" by (simp add: process_requests_def)
  ultimately have "after_wait E False (?p, l) = Inr (False, ?q, l)"
    using at(2,5) by (simp add: after_wait_def Let_def)
  from act_step [OF act.wake [OF this, of lv']] have wake: "step E (pc, ?p, l, lv') (Top, ?q, l, lv')" unfolding at(1) .
  have "length vs = card ?H" using distinct_card [OF assms(4)] by simp
  also have "\<dots> \<le> card (?H \<union> D)" using at(4) by (intro card_mono) auto
  finally have "can_advance ?q = Inr True"
    using at(2) assms(6) by (simp add: can_advance_def vec_at_def)
  moreover have "(step E)\<^sup>*\<^sup>* (pc, p, l, lv) (Top, ?q, l, lv')"
    using run wake by (rule rtranclp.rtrancl_into_rtrancl)
  ultimately show ?thesis using at(2) by (intro exI [of _ ?q] exI [of _ l] exI [of _ lv']) simp
qed

text \<open>Three vertices of creators that are not among the four validators of the sample network.\<close>

definition invented :: "vertex list" where
  "invented = [Vertex 1 21 ''1-21'', Vertex 1 22 ''1-22'', Vertex 1 23 ''1-23'']"

definition surprised :: server_vars where
  "surprised = demo_lv\<lparr>net := (\<lambda>_. [])(9 := packet_of invented)\<rparr>"

lemma invented_packet: "good_packet invented"
proof (rule honest_packet)
  have "plain_id 21" "plain_id 22" "plain_id 23" by code_simp+
  then show "\<forall>v \<in> set invented. honest 20 v"
    by (simp add: invented_def honest_def text_vertex_def hash_refs_def Vertex_def DELIM_def)
  show "wire_length invented \<le> MAX_STREAM_SIZE"
    by (simp add: invented_def wire_length_def MAX_STREAM_SIZE_def length_wire hash_refs_def Vertex_def)
qed (simp_all add: invented_def)

lemma invented_fresh:
  "distinct (map (vertex_hash demo_crypto) invented)"
  "\<forall>v \<in> set invented. vertex_hash demo_crypto v \<notin> dom (known (awake pl))"
proof -
  have hash: "vertex_hash demo_crypto v = hash_256 demo_crypto (vertex_key 1 (peer_id v))" if "vround v = 1" for v
    using that by (simp add: vertex_hash_def vertex_key_def)
  have len: "length (to_string (uint x)) = 2" if "x \<in> {17, 21, 22, 23}" for x :: u64
    using that by (auto simp: to_string_def dec_digits.simps)
  have inject: "x = y" if "hash_256 demo_crypto (vertex_key 1 x) = hash_256 demo_crypto (vertex_key 1 y)"
    "x \<in> {17, 21, 22, 23}" "y \<in> {17, 21, 22, 23}" for x y
    using demo_key_inject [OF that(1)] len that(2,3) by simp
  have ne: "hash_256 demo_crypto (vertex_key 1 x) \<noteq> hash_256 demo_crypto (vertex_key 1 y)"
    if "x \<noteq> y" "x \<in> {17, 21, 22, 23}" "y \<in> {17, 21, 22, 23}" for x y
    using inject that by blast
  have sent: "vround demo_sent = 1" "peer_id demo_sent = 17"
    by (simp_all add: demo_sent_def next_vertex_def own_vertex_def Vertex_def)
  show "distinct (map (vertex_hash demo_crypto) invented)"
    by (simp add: invented_def hash Vertex_def ne)
  show "\<forall>v \<in> set invented. vertex_hash demo_crypto v \<notin> dom (known (awake pl))"
    by (simp add: invented_def hash Vertex_def ne demo_known sent)
qed

theorem invented_quorum_witness:
  "\<exists>q l' lv'. (step demo_env)\<^sup>*\<^sup>* (Asleep, peer_of (awake (pool proposer)), (scan_init (member 17))\<lparr>need_help := False\<rparr>, surprised)
     (Top, q, l', lv') \<and> cur_round q = 1 \<and> can_advance q = Inr True"
proof -
  let ?p = "peer_of (awake (pool proposer))" and ?l = "(scan_init (member 17))\<lparr>need_help := False\<rparr>"
  have E: "crypt demo_env = demo_crypto" by (simp add: demo_env_def)
  have first: "waits_in_first (Asleep, ?p, ?l, surprised)"
    using demo_dag [of "pool proposer"]
    by (simp add: waits_in_first_def peer_of_def awake_def proposer_def proposed_def Let_def set_thread_ready_def scan_init_def
        surprised_def demo_lv_def server_init_def member_def first_peer_sel)
  have round: "\<forall>v \<in> set invented. vround v = 1" by (simp add: invented_def Vertex_def)
  have quorum: "size_t (2 * byzantines ?p + 1) \<le> int (length invented)"
    by (simp add: invented_def peer_of_def awake_def proposer_def proposed_def Let_def member_def first_peer_sel)
  have socket: "9 \<noteq> s_socket (server ?p)"
    by (simp add: peer_of_def awake_def proposer_def proposed_def Let_def member_def first_peer_def Peer_def Server_def
        c_socket_def set_thread_ready_def add_to_map_def)
  have stream: "net surprised 9 = packet_of invented" by (simp add: surprised_def)
  note fresh = invented_fresh(1) [folded E] invented_fresh(2) [of "pool proposer", folded E, unfolded known_def]
  from invented_quorum [OF first invented_packet round fresh quorum stream socket] show ?thesis by blast
qed

end
