(* ===== verification/Interleaving.thy ===== *)
theory Interleaving
  imports Delivery
begin

text \<open>
  Two workers of the pool that send on one connection. \<open>c_sendn\<close> does not lock the connection, so
  the pieces in which \<open>send\<close> takes two messages can come to lie between one another; and then the
  server at the other end may never come back from the message.
\<close>

section \<open>Sending piece by piece\<close>

text \<open>The local variables of a call of \<open>c_sendn\<close>, and one turn of its loop by any of the workers.\<close>

record sending =
  out_buf :: string
  bytes_left :: u64
  out_ptr :: u64

definition sending_of :: "string \<Rightarrow> sending" where
  "sending_of buf = \<lparr>out_buf = buf, bytes_left = of_nat (length buf), out_ptr = 0\<rparr>"

inductive send_step :: "string \<times> (nat \<Rightarrow> sending) \<Rightarrow> string \<times> (nat \<Rightarrow> sending) \<Rightarrow> bool" where
  piece: "w i = \<lparr>out_buf = buf, bytes_left = left, out_ptr = p\<rparr> \<Longrightarrow> 0 < left \<Longrightarrow> 0 < r \<Longrightarrow> r \<le> left \<Longrightarrow>
     send_step (out, w) (out @ take (unat r) (drop (unat p) buf), w(i := \<lparr>out_buf = buf, bytes_left = left - r, out_ptr = p + r\<rparr>))"

text \<open>A worker that sends alone does what \<open>send_loop\<close> does.\<close>

lemma send_loop_steps:
  assumes "send_results left rs" and "- 1 \<notin> set rs" and "w i = \<lparr>out_buf = buf, bytes_left = left, out_ptr = p\<rparr>"
    and "send_loop buf left p out rs = Some (Inr out')"
  shows "\<exists>q. send_step\<^sup>*\<^sup>* (out, w) (out', w(i := \<lparr>out_buf = buf, bytes_left = 0, out_ptr = q\<rparr>))"
  using assms
proof (induction rs arbitrary: left p out w)
  case Nil
  then have "w = w(i := \<lparr>out_buf = buf, bytes_left = 0, out_ptr = p\<rparr>)" "out' = out"
    by (auto simp: send_loop.simps)
  then show ?case by (metis rtranclp.rtrancl_refl)
next
  case (Cons r rs)
  let ?out = "out @ take (unat r) (drop (unat p) buf)"
  let ?w = "w(i := \<lparr>out_buf = buf, bytes_left = left - r, out_ptr = p + r\<rparr>)"
  have r: "0 < left" "r \<noteq> - 1" "0 < r" "r \<le> left" "send_results (left - r) rs"
    using Cons.prems(1,2) by (auto split: if_splits)
  then have rest: "send_loop buf (left - r) (p + r) ?out rs = Some (Inr out')"
    using Cons.prems(4) by (simp add: send_loop.simps [of buf left])
  have "- 1 \<notin> set rs" "?w i = \<lparr>out_buf = buf, bytes_left = left - r, out_ptr = p + r\<rparr>" using Cons.prems(2) by simp_all
  from Cons.IH [where w = ?w, OF r(5) this rest] obtain q where
    "send_step\<^sup>*\<^sup>* (?out, ?w) (out', w(i := \<lparr>out_buf = buf, bytes_left = 0, out_ptr = q\<rparr>))"
    unfolding fun_upd_upd by blast
  moreover have "send_step (out, w) (?out, ?w)" using piece [where w = w and i = i, OF Cons.prems(3) r(1,3,4)] .
  ultimately show ?case by (meson converse_rtranclp_into_rtranclp)
qed

section \<open>Two messages on one connection\<close>

definition sent :: "sending \<Rightarrow> bool" where
  "sent x \<longleftrightarrow> bytes_left x = 0"

text \<open>One worker sends its whole message between two pieces of the other one's.\<close>

lemma splice:
  assumes "length a < 2 ^ 63" and "length b < 2 ^ 63" and "0 < k" and "k < length a" and "b \<noteq> []"
    and "w 0 = sending_of a" and "w 1 = sending_of b"
  shows "\<exists>w'. send_step\<^sup>*\<^sup>* ([], w) (take k a @ b @ drop k a, w') \<and> sent (w' 0) \<and> sent (w' 1)"
proof -
  have u: "unat (of_nat n :: u64) = n" if "n < 2 ^ 63" for n using that by (simp add: unat_of_nat)
  let ?A = "\<lambda>n p. \<lparr>out_buf = a, bytes_left = n, out_ptr = p\<rparr>" and ?B = "\<lambda>n p. \<lparr>out_buf = b, bytes_left = n, out_ptr = p\<rparr>"
  let ?a = "of_nat (length a) :: u64" and ?b = "of_nat (length b) :: u64" and ?k = "of_nat k :: u64"
  have k: "unat ?k = k" "0 < ?k" "?k \<le> ?a" "0 < ?a - ?k"
    using assms(1,3,4) u [of k] u [of "length a"] by (simp_all add: word_less_nat_alt word_le_nat_alt unat_sub)
  let ?w1 = "w(0 := ?A (?a - ?k) ?k)" and ?w2 = "w(0 := ?A (?a - ?k) ?k, 1 := ?B 0 ?b)"
  let ?w3 = "w(0 := ?A 0 ?a, 1 := ?B 0 ?b)"
  have "send_step ([], w) (take k a, ?w1)"
    using piece [of w 0 a ?a 0 ?k "[]"] assms(6) k by (auto simp: sending_of_def)
  moreover have "send_step (take k a, ?w1) (take k a @ b, ?w2)"
    using piece [of ?w1 1 b ?b 0 ?b "take k a"] assms(2,5,7) u [of "length b"]
    by (simp add: sending_of_def word_less_nat_alt)
  moreover have "unat (?a - ?k) = length a - k"
    using k(1,3) u [OF assms(1)] by (simp add: unat_sub)
  then have "send_step (take k a @ b, ?w2) (take k a @ b @ drop k a, ?w3)"
    using piece [of ?w2 0 a "?a - ?k" ?k "?a - ?k" "take k a @ b"] k by (simp add: fun_upd_twist)
  ultimately have "send_step\<^sup>*\<^sup>* ([], w) (take k a @ b @ drop k a, ?w3)"
    by (meson converse_rtranclp_into_rtranclp rtranclp.rtrancl_refl)
  then show ?thesis by (intro exI [of _ ?w3]) (simp add: sent_def)
qed

lemma replicate_4_NUL: "replicate 4 NUL = [NUL, NUL] @ [NUL, NUL]"
  by (simp add: numeral_eq_Suc)

lemma packet_head:
  assumes "vs \<noteq> []" and "wire_length vs < 2 ^ 16"
  shows "take 2 (packet_of vs) = [NUL, NUL]" and "4 \<le> length (packet_of vs)"
proof -
  have "be_enc 4 (wire_length vs) = NUL # NUL # be_enc 2 (wire_length vs)"
    using be_enc_Suc_Cons [of 3 "wire_length vs"] be_enc_Suc_Cons [of 2 "wire_length vs"] assms(2) by simp
  then show "take 2 (packet_of vs) = [NUL, NUL]" "4 \<le> length (packet_of vs)"
    by (simp_all add: packet_of_def Let_def flip: wire_length_def)
qed

text \<open>
  C14. A connection is not locked while a message is sent on it: if the first \<open>send\<close> of one worker
  takes two bytes and another worker sends its packet then, the header that arrives is four zero
  bytes; and the server that is told of it never comes back.
\<close>

theorem interleaved_packets_hang:
  assumes "vs \<noteq> []" and "ws \<noteq> []" and "wire_length vs < 2 ^ 16" and "wire_length ws < 2 ^ 16"
    and "w 0 = sending_of (packet_of vs)" and "w 1 = sending_of (packet_of ws)"
    and "ev_events e AND EPOLLIN = EPOLLIN" and "ev_arrived e = Arrived k" and "4 \<le> k"
  shows "\<exists>stream w'. send_step\<^sup>*\<^sup>* ([], w) (stream, w') \<and> sent (w' 0) \<and> sent (w' 1) \<and>
    mset stream = mset (packet_of vs @ packet_of ws) \<and>
    (\<forall>s lv. ev_fd e = s_socket s \<or> net lv (ev_fd e) \<noteq> stream \<or> handle_event C maj e (s, lv) = None)"
proof -
  let ?a = "packet_of vs" and ?b = "packet_of ws"
  let ?stream = "take 2 ?a @ ?b @ drop 2 ?a"
  note a = packet_head [OF assms(1,3)] and b = packet_head [OF assms(2,4)]
  have "length ?a < 2 ^ 63" "length ?b < 2 ^ 63" using assms(1-4) by (simp_all add: length_packet_of)
  moreover have "?b \<noteq> []" using b(2) by auto
  ultimately obtain w' where run: "send_step\<^sup>*\<^sup>* ([], w) (?stream, w')" "sent (w' 0)" "sent (w' 1)"
    using splice [of ?a ?b 2 w] a(2) assms(5,6) by auto
  have "mset (take 2 ?a) + mset (drop 2 ?a) = mset ?a" by (metis append_take_drop_id mset_append)
  then have same: "mset ?stream = mset (?a @ ?b)" by simp
  have "?b = [NUL, NUL] @ drop 2 ?b" using append_take_drop_id [of 2 ?b] b(1) by metis
  then have "?stream = replicate 4 NUL @ drop 2 ?b @ drop 2 ?a"
    unfolding a(1) by (metis append_assoc append_Cons append_Nil replicate_4_NUL)
  then obtain rest where stream: "?stream = replicate 4 NUL @ rest" by blast
  have hangs: "handle_event C maj e (s, lv) = None" if fd: "ev_fd e \<noteq> s_socket s" and net: "net lv (ev_fd e) = replicate 4 NUL @ rest" for s lv
  proof -
    have "take (min k MAX_STREAM_SIZE) (replicate 4 NUL @ rest) = replicate 4 NUL @ take (min k MAX_STREAM_SIZE - 4) rest"
      using assms(9) by (simp add: MAX_STREAM_SIZE_def)
    then have "examine_msg (Some (take (min k MAX_STREAM_SIZE) (net lv (ev_fd e)))) (bytes_to_recv lv) = Inr (REG_MSG, replicate 4 NUL)"
      by (simp add: net examine_msg_def PREFIX_def NUL_def numeral_eq_Suc)
    moreover have "handle_vertices C maj en fd (s, lv\<lparr>bytes_to_recv := replicate 4 NUL\<rparr>) = None" if "en \<noteq> Failing" for en fd
      using that by (simp add: handle_vertices_def c_recvn_zero_length_diverges)
    ultimately show ?thesis using assms(7,8) fd by (simp add: handle_event_def Let_def)
  qed
  have never: "\<forall>s lv. ev_fd e = s_socket s \<or> net lv (ev_fd e) \<noteq> ?stream \<or> handle_event C maj e (s, lv) = None"
    unfolding stream using hangs by metis
  from run(1) run(2) run(3) same never show ?thesis by (intro exI conjI)
qed

theorem interleaved_packets_hang_witness:
  "\<exists>stream w. send_step\<^sup>*\<^sup>* ([], (\<lambda>_. sending_of [])(0 := sending_of (packet_of [demo_vertex]), 1 := sending_of (packet_of [demo_vertex]))) (stream, w) \<and>
     handle_event demo_crypto 3 (demo_event 64) (demo_server stream) = None"
proof -
  let ?w = "(\<lambda>_. sending_of [])(0 := sending_of (packet_of [demo_vertex]), 1 := sending_of (packet_of [demo_vertex]))"
  have len: "wire_length [demo_vertex] < 2 ^ 16"
    using length_wire [OF hash_refs_demo] by (simp add: demo_vertex_def Vertex_def HEX_HASH_def)
  have event: "ev_events (demo_event 64) AND EPOLLIN = EPOLLIN" "ev_arrived (demo_event 64) = Arrived 64" "ev_fd (demo_event 64) = 9"
    by (simp_all add: demo_event_def EPOLLIN_def)
  have socket: "s_socket (fst (demo_server st)) = 4" "net (snd (demo_server st)) 9 = st" for st
    by (simp_all add: demo_server_def)
  obtain stream w where run: "send_step\<^sup>*\<^sup>* ([], ?w) (stream, w)"
    and hang: "\<And>s lv. ev_fd (demo_event 64) = s_socket s \<or> net lv (ev_fd (demo_event 64)) \<noteq> stream \<or>
      handle_event demo_crypto 3 (demo_event 64) (s, lv) = None"
    using interleaved_packets_hang [OF _ _ len len, of ?w "demo_event 64" 64 demo_crypto 3] event by auto
  from hang [of "fst (demo_server stream)" "snd (demo_server stream)"] have "handle_event demo_crypto 3 (demo_event 64) (demo_server stream) = None"
    using event(3) socket by simp
  with run show ?thesis by blast
qed

end
