(* ===== verification/Handshake.thy ===== *)
theory Handshake
  imports Prelude
begin

text \<open>
  The hand-over between the server thread (\<open>Server::start\<close>) and the scan thread
  (\<open>Peer::buffer_scan_move_round\<close>), one atomic action at a time: the flag
  \<open>scan_buffer_thread_ready\<close>, the flag \<open>is_up\<close>, the mutex, and the condition variable with its
  spurious wakeups. What is handed over (vertices and requests alike) is of any type \<open>'v\<close>.
  The other theories treat the hand-over as one step; here it is shown to be a reliable one,
  without deadlock and without a lost wakeup.
\<close>

section \<open>The two programs\<close>

text \<open>
  The scan thread: before \<open>u_lock.lock()\<close>; before \<open>set_thread_ready(true)\<close>; before \<open>cv.wait\<close>;
  blocked in it; awake, before it has the lock again; at work on the buffer; and on its way
  out, before \<open>set_thread_ready(true)\<close> and before \<open>u_lock.unlock()\<close>.
\<close>

datatype scan_at = S_Top | S_Locked | S_Ready | S_Wait | S_Woken | S_Work | S_Down | S_Leave | S_Done

text \<open>
  The server thread: at the loop condition; before the events; in the busy-waiting loop; behind
  it; before \<open>u_lock.lock()\<close>; with the lock; before \<open>notify_one\<close>; before the lists are cleared.
\<close>

datatype server_at = V_Head | V_Events | V_Spin | V_Seen | V_Want | V_Hold | V_Notify | V_Clear | V_Done

datatype thread = Scan_Thread | Server_Thread

text \<open>\<open>got\<close> and \<open>took\<close> record what the server has received and the scan has taken so far.\<close>

record 'v handshake =
  flag :: bool
  up :: bool
  locked :: "thread option"
  scan_at :: scan_at
  server_at :: server_at
  temp :: "'v list"
  buf :: "'v list"
  got :: "'v list"
  took :: "'v list"

definition hs_init :: "'v handshake" where
  "hs_init = \<lparr>flag = False, up = True, locked = None, scan_at = S_Top, server_at = V_Head,
     temp = [], buf = [], got = [], took = []\<rparr>"

inductive scan_step :: "'v handshake \<Rightarrow> 'v handshake \<Rightarrow> bool" where
  lock: "scan_at s = S_Top \<Longrightarrow> locked s = None \<Longrightarrow>
     scan_step s (s\<lparr>locked := Some Scan_Thread, scan_at := S_Locked\<rparr>)"
| ready: "scan_at s = S_Locked \<Longrightarrow> scan_step s (s\<lparr>flag := True, scan_at := S_Ready\<rparr>)"
| wait: "scan_at s = S_Ready \<Longrightarrow> scan_step s (s\<lparr>locked := None, scan_at := S_Wait\<rparr>)"
| relock: "scan_at s = S_Woken \<Longrightarrow> locked s = None \<Longrightarrow>
     scan_step s (s\<lparr>locked := Some Scan_Thread, scan_at := S_Work\<rparr>)"
| again: "scan_at s = S_Work \<Longrightarrow> mset (buf s) = mset kept + mset used \<Longrightarrow>
     scan_step s (s\<lparr>buf := kept, took := took s @ used, locked := None, scan_at := S_Top\<rparr>)"
| down: "scan_at s = S_Work \<Longrightarrow> mset (buf s) = mset kept + mset used \<Longrightarrow>
     scan_step s (s\<lparr>buf := kept, took := took s @ used, up := False, scan_at := S_Down\<rparr>)"
| ready_out: "scan_at s = S_Down \<Longrightarrow> scan_step s (s\<lparr>flag := True, scan_at := S_Leave\<rparr>)"
| leave: "scan_at s = S_Leave \<Longrightarrow> scan_step s (s\<lparr>locked := None, scan_at := S_Done\<rparr>)"

text \<open>A wakeup of \<open>cv.wait\<close> that nobody asked for.\<close>

inductive spurious_step :: "'v handshake \<Rightarrow> 'v handshake \<Rightarrow> bool" where
  spurious: "scan_at s = S_Wait \<Longrightarrow> spurious_step s (s\<lparr>scan_at := S_Woken\<rparr>)"

inductive server_step :: "'v handshake \<Rightarrow> 'v handshake \<Rightarrow> bool" where
  head: "server_at s = V_Head \<Longrightarrow> server_step s (s\<lparr>server_at := (if up s then V_Events else V_Done)\<rparr>)"
| events: "server_at s = V_Events \<Longrightarrow> idle \<longrightarrow> new = [] \<Longrightarrow>
     server_step s (s\<lparr>temp := new @ temp s, got := got s @ new,
       server_at := (if new @ temp s \<noteq> [] \<or> idle then V_Spin else V_Head)\<rparr>)"
| spin: "server_at s = V_Spin \<Longrightarrow> flag s \<Longrightarrow> server_step s (s\<lparr>server_at := V_Seen\<rparr>)"
| seen: "server_at s = V_Seen \<Longrightarrow> server_step s (s\<lparr>flag := False, server_at := V_Want\<rparr>)"
| want: "server_at s = V_Want \<Longrightarrow> locked s = None \<Longrightarrow>
     server_step s (s\<lparr>locked := Some Server_Thread, server_at := V_Hold\<rparr>)"
| insert: "server_at s = V_Hold \<Longrightarrow>
     server_step s (s\<lparr>buf := buf s @ temp s, locked := None, server_at := V_Notify\<rparr>)"
| notify: "server_at s = V_Notify \<Longrightarrow>
     server_step s (s\<lparr>scan_at := (if scan_at s = S_Wait then S_Woken else scan_at s), server_at := V_Clear\<rparr>)"
| clear: "server_at s = V_Clear \<Longrightarrow> server_step s (s\<lparr>temp := [], server_at := V_Head\<rparr>)"

definition hs_step :: "'v handshake \<Rightarrow> 'v handshake \<Rightarrow> bool" where
  "hs_step s t \<longleftrightarrow> scan_step s t \<or> spurious_step s t \<or> server_step s t"

section \<open>The invariant\<close>

text \<open>
  Who holds the mutex; when the server is told to stop; and what a cleared flag means for the
  place where the server is, while the scan thread waits or has gone.
\<close>

definition lock_owner :: "'v handshake \<Rightarrow> bool" where
  "lock_owner s \<longleftrightarrow>
     (locked s = Some Scan_Thread \<longleftrightarrow> scan_at s \<in> {S_Locked, S_Ready, S_Work, S_Down, S_Leave}) \<and>
     (locked s = Some Server_Thread \<longleftrightarrow> server_at s = V_Hold)"

definition phases :: "'v handshake \<Rightarrow> bool" where
  "phases s \<longleftrightarrow>
     (up s \<longleftrightarrow> scan_at s \<notin> {S_Down, S_Leave, S_Done}) \<and>
     (server_at s = V_Done \<longrightarrow> \<not> up s) \<and>
     (server_at s = V_Seen \<longrightarrow> flag s) \<and>
     (server_at s \<in> {V_Head, V_Events, V_Done} \<longrightarrow> temp s = []) \<and>
     (\<not> flag s \<and> scan_at s = S_Ready \<longrightarrow> server_at s = V_Want) \<and>
     (\<not> flag s \<and> scan_at s = S_Wait \<longrightarrow> server_at s \<in> {V_Want, V_Hold, V_Notify}) \<and>
     (\<not> flag s \<and> scan_at s \<in> {S_Leave, S_Done} \<longrightarrow>
        server_at s \<in> {V_Want, V_Hold, V_Notify, V_Clear, V_Head, V_Done})"

text \<open>What the server has received and not yet put into the buffer.\<close>

definition pending :: "'v handshake \<Rightarrow> 'v list" where
  "pending s = (if server_at s \<in> {V_Notify, V_Clear} then [] else temp s)"

definition hs_inv :: "'v handshake \<Rightarrow> bool" where
  "hs_inv s \<longleftrightarrow> lock_owner s \<and> phases s \<and> mset (got s) = mset (took s) + mset (buf s) + mset (pending s)"

lemmas hs_inv_defs = hs_inv_def lock_owner_def phases_def pending_def

lemma scan_step_inv: "scan_step s t \<Longrightarrow> hs_inv s \<Longrightarrow> hs_inv t"
  by (induction rule: scan_step.induct) (auto simp: hs_inv_defs ac_simps)

lemma server_step_inv: "server_step s t \<Longrightarrow> hs_inv s \<Longrightarrow> hs_inv t"
  by (induction rule: server_step.induct) (auto simp: hs_inv_defs ac_simps split: if_splits)

lemma spurious_step_inv: "spurious_step s t \<Longrightarrow> hs_inv s \<Longrightarrow> hs_inv t"
  by (induction rule: spurious_step.induct) (auto simp: hs_inv_defs)

interpretation hs: step_invariant hs_step hs_inv
  by unfold_locales (auto simp: hs_step_def intro: scan_step_inv server_step_inv spurious_step_inv)

lemma hs_init_inv: "hs_inv hs_init"
  by (simp add: hs_inv_defs hs_init_def)

lemma hs_reachable: "hs_step\<^sup>*\<^sup>* hs_init s \<Longrightarrow> hs_inv s"
  using hs.run_inv hs_init_inv by blast

section \<open>What the hand-over guarantees\<close>

text \<open>
  A run for the witnesses: the server has received one item and spins, the scan thread wakes up
  spuriously and leaves.
\<close>

definition hs_at :: "bool \<Rightarrow> bool \<Rightarrow> thread option \<Rightarrow> scan_at \<Rightarrow> server_at \<Rightarrow> nat list \<Rightarrow> nat handshake" where
  "hs_at f u l a v xs =
     \<lparr>flag = f, up = u, locked = l, scan_at = a, server_at = v, temp = xs, buf = [], got = xs, took = []\<rparr>"

lemma hs_demo_run: "hs_step\<^sup>*\<^sup>* hs_init (hs_at True False None S_Done V_Spin [7])"
proof -
  note steps = hs_step_def hs_at_def scan_step.simps server_step.simps spurious_step.simps
  let ?scan = "Some Scan_Thread"
  have "hs_init = hs_at False True None S_Top V_Head []" by (simp add: hs_init_def hs_at_def)
  moreover have "hs_step (hs_at False True None S_Top V_Head []) (hs_at False True None S_Top V_Events [])"
    by (simp add: steps)
  moreover have "hs_step (hs_at False True None S_Top V_Events []) (hs_at False True None S_Top V_Spin [7])"
    by (simp add: steps) (rule exI [of _ False], simp)
  moreover have "hs_step (hs_at False True None S_Top V_Spin [7]) (hs_at False True ?scan S_Locked V_Spin [7])"
    by (simp add: steps)
  moreover have "hs_step (hs_at False True ?scan S_Locked V_Spin [7]) (hs_at True True ?scan S_Ready V_Spin [7])"
    by (simp add: steps)
  moreover have "hs_step (hs_at True True ?scan S_Ready V_Spin [7]) (hs_at True True None S_Wait V_Spin [7])"
    by (simp add: steps)
  moreover have "hs_step (hs_at True True None S_Wait V_Spin [7]) (hs_at True True None S_Woken V_Spin [7])"
    by (simp add: steps)
  moreover have "hs_step (hs_at True True None S_Woken V_Spin [7]) (hs_at True True ?scan S_Work V_Spin [7])"
    by (simp add: steps)
  moreover have "hs_step (hs_at True True ?scan S_Work V_Spin [7]) (hs_at True False ?scan S_Down V_Spin [7])"
    by (simp add: steps)
  moreover have "hs_step (hs_at True False ?scan S_Down V_Spin [7]) (hs_at True False ?scan S_Leave V_Spin [7])"
    by (simp add: steps)
  moreover have "hs_step (hs_at True False ?scan S_Leave V_Spin [7]) (hs_at True False None S_Done V_Spin [7])"
    by (simp add: steps)
  ultimately show ?thesis
    by (auto intro!: rtranclp.rtrancl_into_rtrancl [of hs_step] elim: converse_rtranclp_into_rtranclp)
qed

text \<open>
  C19. The two threads are never at the shared lists together, whatever the interleaving and with
  any number of spurious wakeups; and what the server has received is, without loss and without
  duplicates, what the scan thread has taken, what lies in the buffer and what the server still
  has to hand over.
\<close>

theorem handover_safe:
  assumes "hs_step\<^sup>*\<^sup>* hs_init s"
  shows "\<not> (scan_at s \<in> {S_Work, S_Down, S_Leave} \<and> server_at s = V_Hold) \<and>
    mset (got s) = mset (took s) + mset (buf s) + mset (pending s)"
  using hs_reachable [OF assms] by (auto simp: hs_inv_def lock_owner_def)

theorem handover_safe_witness:
  "mset (got (hs_at True False None S_Done V_Spin [7])) = mset (pending (hs_at True False None S_Done V_Spin [7]))"
  using handover_safe [OF hs_demo_run] by (simp add: hs_at_def)

lemma handover_can_step:
  assumes "hs_step\<^sup>*\<^sup>* hs_init s" and "scan_at s \<noteq> S_Done \<or> server_at s \<noteq> V_Done"
  shows "\<exists>t. scan_step s t \<or> server_step s t"
proof -
  have inv: "hs_inv s" using hs_reachable [OF assms(1)] .
  have server: "\<exists>t. server_step s t" if "server_at s \<noteq> V_Done" "server_at s = V_Spin \<longrightarrow> flag s" "server_at s = V_Want \<longrightarrow> locked s = None"
    using that server_step.intros(2) [of s True "[]"] by (cases "server_at s") (blast intro: server_step.intros)+
  have scan: "\<exists>t. scan_step s t" if "scan_at s \<notin> {S_Wait, S_Done}" "locked s \<noteq> Some Server_Thread"
  proof (cases "scan_at s")
    case S_Top
    then have "locked s = None" using inv that(2) by (cases "locked s"; cases "the (locked s)") (auto simp: hs_inv_def lock_owner_def)
    with S_Top show ?thesis using scan_step.lock [of s] by blast
  next
    case S_Woken
    then have "locked s = None" using inv that(2) by (cases "locked s"; cases "the (locked s)") (auto simp: hs_inv_def lock_owner_def)
    with S_Woken show ?thesis using scan_step.relock [of s] by blast
  next
    case S_Work
    then have "scan_step s (s\<lparr>buf := buf s, took := took s @ [], locked := None, scan_at := S_Top\<rparr>)"
      by (intro scan_step.again) auto
    then show ?thesis by blast
  next
    case S_Locked
    then show ?thesis using scan_step.ready [of s] by blast
  next
    case S_Ready
    then show ?thesis using scan_step.wait [of s] by blast
  next
    case S_Down
    then show ?thesis using scan_step.ready_out [of s] by blast
  next
    case S_Leave
    then show ?thesis using scan_step.leave [of s] by blast
  qed (use that in simp_all)
  show ?thesis
  proof (cases "scan_at s \<in> {S_Wait, S_Done}")
    case False
    show ?thesis
    proof (cases "locked s = Some Server_Thread")
      case True
      then have "server_at s = V_Hold" using inv by (auto simp: hs_inv_def lock_owner_def)
      with server show ?thesis by auto
    qed (use False scan in blast)
  next
    case True
    then have "locked s \<noteq> Some Scan_Thread" using inv by (auto simp: hs_inv_def lock_owner_def)
    then have "server_at s = V_Want \<longrightarrow> locked s = None"
      using inv by (cases "locked s"; cases "the (locked s)") (auto simp: hs_inv_def lock_owner_def)
    moreover have "server_at s \<noteq> V_Done"
    proof
      assume ended: "server_at s = V_Done"
      then have "\<not> up s" using inv unfolding hs_inv_def phases_def by blast
      moreover have "up s \<longleftrightarrow> scan_at s \<notin> {S_Down, S_Leave, S_Done}" using inv unfolding hs_inv_def phases_def by blast
      ultimately have "scan_at s \<noteq> S_Wait" by auto
      with True assms(2) ended show False by simp
    qed
    moreover have "server_at s = V_Spin \<longrightarrow> flag s"
    proof (rule impI, rule ccontr)
      assume spin: "server_at s = V_Spin" and clear: "\<not> flag s"
      from True consider "scan_at s = S_Wait" | "scan_at s = S_Done" by blast
      then show False
        by cases (use inv spin clear in \<open>simp_all add: hs_inv_def phases_def\<close>)
    qed
    ultimately have "\<exists>t. server_step s t" by (intro server)
    then show ?thesis by blast
  qed
qed

text \<open>
  C20. There is no deadlock and no lost wakeup: until both threads have ended, one of them can take
  a step that is not a spurious wakeup. In particular the server never spins on a flag that
  nobody will set, and the scan thread never waits for a notification that nobody will send.
\<close>

theorem handover_no_deadlock:
  assumes "hs_step\<^sup>*\<^sup>* hs_init s" and "scan_at s \<noteq> S_Done \<or> server_at s \<noteq> V_Done"
  shows "\<exists>t. scan_step s t \<or> server_step s t"
  using assms by (rule handover_can_step)

theorem handover_no_deadlock_witness:
  "\<exists>t. scan_step (hs_at True False None S_Done V_Spin [7]) t \<or> server_step (hs_at True False None S_Done V_Spin [7]) t"
  by (rule handover_no_deadlock [OF hs_demo_run]) (simp add: hs_at_def)

text \<open>How far the server is from the end once it has been told to stop.\<close>

fun rank :: "server_at \<Rightarrow> nat" where
  "rank V_Done = 0" | "rank V_Head = 1" | "rank V_Clear = 2" | "rank V_Notify = 3" | "rank V_Hold = 4"
| "rank V_Want = 5" | "rank V_Seen = 6" | "rank V_Spin = 7" | "rank V_Events = 8"

lemma done_step:
  assumes "hs_step s t" and "hs_inv s" and "scan_at s = S_Done"
  shows "scan_at t = S_Done \<and> rank (server_at t) < rank (server_at s)"
  using assms(1) unfolding hs_step_def
proof (elim disjE)
  assume "scan_step s t"
  then show ?thesis using assms(3) by (cases rule: scan_step.cases) simp_all
next
  assume "spurious_step s t"
  then show ?thesis using assms(3) by (cases rule: spurious_step.cases) simp_all
next
  assume "server_step s t"
  moreover have "\<not> up s" using assms(2,3) unfolding hs_inv_def phases_def by blast
  ultimately show ?thesis using assms(3) by (cases rule: server_step.cases) simp_all
qed

lemma done_runs:
  assumes "(hs_step ^^ n) s t" and "hs_inv s" and "scan_at s = S_Done"
  shows "n + rank (server_at t) \<le> rank (server_at s)"
  using assms
proof (induction n arbitrary: t)
  case 0
  then show ?case by simp
next
  case (Suc n)
  then obtain u where u: "(hs_step ^^ n) s u" "hs_step u t" by auto
  then have reach: "hs_step\<^sup>*\<^sup>* s u" by (simp add: rtranclp_power) blast
  then have inv: "hs_inv u" using Suc.prems(2) hs.run_inv by blast
  have "scan_at u = S_Done"
    using reach Suc.prems(2,3)
  proof (induction rule: rtranclp_induct)
    case (step y z)
    then show ?case using done_step hs.run_inv by blast
  qed
  with done_step [OF u(2) inv] Suc.IH [OF u(1) Suc.prems(2,3)] show ?case by linarith
qed

lemma done_ends:
  assumes "hs_step\<^sup>*\<^sup>* hs_init s" and "scan_at s = S_Done"
  shows "\<exists>t. hs_step\<^sup>*\<^sup>* s t \<and> server_at t = V_Done"
  using assms
proof (induction "rank (server_at s)" arbitrary: s rule: less_induct)
  case less
  show ?case
  proof (cases "server_at s = V_Done")
    case False
    with handover_can_step [OF less.prems(1)] obtain t where t: "hs_step s t"
      unfolding hs_step_def by blast
    with done_step [OF t hs_reachable [OF less.prems(1)] less.prems(2)]
    obtain u where "hs_step\<^sup>*\<^sup>* t u" "server_at u = V_Done"
      using less.hyps [of t] less.prems(1) by (meson rtranclp.rtrancl_into_rtrancl)
    with t show ?thesis by (meson converse_rtranclp_into_rtranclp)
  qed auto
qed

text \<open>
  C21. The server ends: once the scan thread has left, at most eight more steps are possible
  (no waiting loop is among them that could go on for ever), some run of them reaches the end of
  the server, and then everything that was received is in the buffer or has been taken.
\<close>

theorem server_stops:
  assumes "hs_step\<^sup>*\<^sup>* hs_init s" and "scan_at s = S_Done"
  shows "(\<forall>n t. (hs_step ^^ n) s t \<longrightarrow> n \<le> 8) \<and>
    (\<exists>t. hs_step\<^sup>*\<^sup>* s t \<and> server_at t = V_Done \<and> mset (got t) = mset (took t) + mset (buf t))"
proof -
  have inv: "hs_inv s" using hs_reachable [OF assms(1)] .
  have "rank (server_at s) \<le> 8" by (cases "server_at s") auto
  then have "n \<le> 8" if "(hs_step ^^ n) s t" for n t
    using done_runs [OF that inv assms(2)] by linarith
  moreover obtain t where t: "hs_step\<^sup>*\<^sup>* s t" "server_at t = V_Done"
    using done_ends [OF assms] by blast
  then have "hs_inv t" using inv hs.run_inv by blast
  with t have "mset (got t) = mset (took t) + mset (buf t)"
    by (simp add: hs_inv_def phases_def pending_def)
  ultimately show ?thesis using t by blast
qed

theorem server_stops_witness:
  "\<exists>t. hs_step\<^sup>*\<^sup>* (hs_at True False None S_Done V_Spin [7]) t \<and> server_at t = V_Done \<and>
     mset (got t) = mset (took t) + mset (buf t)"
  using server_stops [OF hs_demo_run] by (simp add: hs_at_def)

section \<open>Refinement of a reliable channel\<close>

text \<open>
  The specification: a channel with what has been sent and not delivered, a mailbox, and what
  was taken out of it.
\<close>

record 'v channel =
  undelivered :: "'v list"
  mailbox :: "'v list"
  consumed :: "'v list"

inductive channel_step :: "'v channel \<Rightarrow> 'v channel \<Rightarrow> bool" where
  send: "channel_step c (c\<lparr>undelivered := xs @ undelivered c\<rparr>)"
| deliver: "channel_step c (c\<lparr>mailbox := mailbox c @ undelivered c, undelivered := []\<rparr>)"
| consume: "mset (mailbox c) = mset kept + mset used \<Longrightarrow>
     channel_step c (c\<lparr>mailbox := kept, consumed := consumed c @ used\<rparr>)"

definition channel_of :: "'v handshake \<Rightarrow> 'v channel" where
  "channel_of s = \<lparr>undelivered = pending s, mailbox = buf s, consumed = took s\<rparr>"

lemma channel_sim:
  assumes "hs_step s t" and "hs_inv s"
  shows "channel_step\<^sup>=\<^sup>= (channel_of s) (channel_of t)"
  using assms(1) unfolding hs_step_def
proof (elim disjE)
  assume "scan_step s t"
  then show ?thesis
    using assms(2)
    by (induction rule: scan_step.induct)
      (auto simp: channel_of_def pending_def channel_step.simps)
next
  assume "spurious_step s t"
  then show ?thesis
    by (induction rule: spurious_step.induct) (simp add: channel_of_def pending_def)
next
  assume "server_step s t"
  then show ?thesis
    using assms(2)
    by (induction rule: server_step.induct)
      (auto simp: channel_of_def pending_def channel_step.simps)
qed

interpretation chan: simulation hs_step hs_inv channel_step channel_of
  by unfold_locales (auto dest: channel_sim)

text \<open>
  C22. The flag, the mutex, the condition variable and the busy-waiting loop together implement a
  reliable channel: every run of the two threads is a run of the channel, in which what was sent
  is delivered whole and consumed once.
\<close>

theorem handover_refines_channel:
  assumes "hs_step\<^sup>*\<^sup>* hs_init s"
  shows "channel_step\<^sup>*\<^sup>* \<lparr>undelivered = [], mailbox = [], consumed = []\<rparr> (channel_of s)"
  using chan.run_simulates [OF assms hs_init_inv] by (simp add: channel_of_def pending_def hs_init_def)

theorem handover_refines_channel_witness:
  "channel_step\<^sup>*\<^sup>* \<lparr>undelivered = [], mailbox = [], consumed = []\<rparr>
     \<lparr>undelivered = [7 :: nat], mailbox = [], consumed = []\<rparr>"
  using handover_refines_channel [OF hs_demo_run] by (simp add: channel_of_def pending_def hs_at_def)

end
