(* ===== verification/Pool_Wakeups.thy ===== *)
theory Pool_Wakeups
  imports Threadpool
begin

text \<open>
  The condition variable of \<open>Threadpool\<close> (\<open>DataStructs/threadsafe.h\<close>): which workers are asleep in
  \<open>qcv.wait\<close>, the \<open>notify_one\<close> of \<open>enqueue\<close>, the \<open>notify_all\<close> of the destructor, and spurious
  wakeups. A worker that is asleep does nothing until it is notified, so that a notification
  that is missing or comes too early would leave it, and the destructor that joins it, asleep
  for ever. The steps refine those of the theory \<open>Threadpool\<close>.
\<close>

section \<open>The steps\<close>

text \<open>
  A worker is blocked in \<open>qcv.wait\<close> (\<open>W_Asleep\<close>); about to lock \<open>qmtx\<close> and to test the predicate,
  at the top of its loop or woken (\<open>W_Awake\<close>); runs a task; or has returned. The destructor has
  not begun; has set \<open>stop\<close> but not called \<open>notify_all\<close>; or has joined the first \<open>k\<close> workers.
\<close>

datatype 'a crew = W_Asleep | W_Awake | W_Busy 'a | W_Ended

datatype destructor = D_Alive | D_Stopped | D_Joining nat

text \<open>
  \<open>notices\<close> counts the calls of \<open>enqueue\<close> that have released the lock and are still to call
  \<open>notify_one\<close>.
\<close>

record 'a wake_pool =
  wqueue :: "'a list"
  wstop :: bool
  crew :: "'a crew list"
  notices :: nat
  dtor :: destructor
  wsubmitted :: "'a list"
  wstarted :: "'a list"
  wfinished :: "'a list"

definition wake_init :: "nat \<Rightarrow> 'a wake_pool" where
  "wake_init num_threads = \<lparr>wqueue = [], wstop = False, crew = replicate num_threads W_Awake,
     notices = 0, dtor = D_Alive, wsubmitted = [], wstarted = [], wfinished = []\<rparr>"

fun woken :: "'a crew \<Rightarrow> 'a crew" where
  "woken W_Asleep = W_Awake"
| "woken w = w"

text \<open>
  The steps of the workers, of the notifications that are under way, and of a destructor that has
  begun. \<open>notify_one\<close> wakes any one sleeper; with none it is lost.
\<close>

inductive inner_step :: "'a wake_pool \<Rightarrow> 'a wake_pool \<Rightarrow> bool" where
  sleep: "i < length (crew s) \<Longrightarrow> crew s ! i = W_Awake \<Longrightarrow> wqueue s = [] \<Longrightarrow> \<not> wstop s \<Longrightarrow>
     inner_step s (s\<lparr>crew := (crew s)[i := W_Asleep]\<rparr>)"
| take: "i < length (crew s) \<Longrightarrow> crew s ! i = W_Awake \<Longrightarrow> wqueue s = t # ts \<Longrightarrow>
     inner_step s (s\<lparr>wqueue := ts, crew := (crew s)[i := W_Busy t], wstarted := wstarted s @ [t]\<rparr>)"
| return: "i < length (crew s) \<Longrightarrow> crew s ! i = W_Awake \<Longrightarrow> wqueue s = [] \<Longrightarrow> wstop s \<Longrightarrow>
     inner_step s (s\<lparr>crew := (crew s)[i := W_Ended]\<rparr>)"
| execute: "i < length (crew s) \<Longrightarrow> crew s ! i = W_Busy t \<Longrightarrow>
     inner_step s (s\<lparr>crew := (crew s)[i := W_Awake], wfinished := wfinished s @ [t]\<rparr>)"
| notify_one: "notices s = Suc k \<Longrightarrow> i < length (crew s) \<Longrightarrow> crew s ! i = W_Asleep \<Longrightarrow>
     inner_step s (s\<lparr>notices := k, crew := (crew s)[i := woken (crew s ! i)]\<rparr>)"
| notify_lost: "notices s = Suc k \<Longrightarrow> W_Asleep \<notin> set (crew s) \<Longrightarrow> inner_step s (s\<lparr>notices := k\<rparr>)"
| notify_all: "dtor s = D_Stopped \<Longrightarrow>
     inner_step s (s\<lparr>crew := map woken (crew s), dtor := D_Joining 0\<rparr>)"
| join: "dtor s = D_Joining k \<Longrightarrow> k < length (crew s) \<Longrightarrow> crew s ! k = W_Ended \<Longrightarrow>
     inner_step s (s\<lparr>dtor := D_Joining (Suc k)\<rparr>)"

text \<open>What comes from outside: a submission, the beginning of the destructor, a spurious wakeup.\<close>

inductive wake_step :: "'a wake_pool \<Rightarrow> 'a wake_pool \<Rightarrow> bool" where
  push: "\<not> wstop s \<Longrightarrow>
     wake_step s (s\<lparr>wqueue := wqueue s @ [t], notices := Suc (notices s), wsubmitted := wsubmitted s @ [t]\<rparr>)"
| begin_stop: "dtor s = D_Alive \<Longrightarrow> wake_step s (s\<lparr>wstop := True, dtor := D_Stopped\<rparr>)"
| spurious: "i < length (crew s) \<Longrightarrow> crew s ! i = W_Asleep \<Longrightarrow>
     wake_step s (s\<lparr>crew := (crew s)[i := W_Awake]\<rparr>)"
| inner: "inner_step s t \<Longrightarrow> wake_step s t"

section \<open>A refinement of the thread pool\<close>

fun plain :: "'a crew \<Rightarrow> 'a worker" where
  "plain (W_Busy t) = Running t"
| "plain W_Ended = Returned"
| "plain _ = Waiting"

definition plain_pool :: "'a wake_pool \<Rightarrow> 'a pool_run" where
  "plain_pool s = \<lparr>the_pool = \<lparr>task_queue = wqueue s, stop = wstop s, workers = map plain (crew s)\<rparr>,
     submitted = wsubmitted s, started = wstarted s, finished = wfinished s\<rparr>"

lemma plain_woken [simp]: "plain (woken w) = plain w"
  by (cases w) simp_all

lemma plain_eq [simp]: "plain w = Returned \<longleftrightarrow> w = W_Ended" "plain w = Running t \<longleftrightarrow> w = W_Busy t"
  by (cases w; simp)+

lemma map_plain_same: "i < length ws \<Longrightarrow> plain w = plain (ws ! i) \<Longrightarrow> map plain (ws[i := w]) = map plain ws"
  by (simp add: map_update list_update_same_conv)

lemma inner_step_simulates: "inner_step s t \<Longrightarrow> pool_step\<^sup>*\<^sup>* (plain_pool s) (plain_pool t)"
proof (induction rule: inner_step.induct)
  case (take i s t ts)
  have "worker_step (plain_pool s) (plain_pool (s\<lparr>wqueue := ts, crew := (crew s)[i := W_Busy t], wstarted := wstarted s @ [t]\<rparr>))"
    using worker_step.take [of i "plain_pool s" t] take
    by (simp add: plain_pool_def worker_wake_def map_update)
  then show ?case by (intro r_into_rtranclp pool_step.worker)
next
  case (return i s)
  have "worker_step (plain_pool s) (plain_pool (s\<lparr>crew := (crew s)[i := W_Ended]\<rparr>))"
    using worker_step.return [of i "plain_pool s"] return
    by (simp add: plain_pool_def worker_wake_def map_update)
  then show ?case by (intro r_into_rtranclp pool_step.worker)
next
  case (execute i s t)
  have "worker_step (plain_pool s) (plain_pool (s\<lparr>crew := (crew s)[i := W_Awake], wfinished := wfinished s @ [t]\<rparr>))"
    using worker_step.execute [of i "plain_pool s" t] execute
    by (simp add: plain_pool_def map_update)
  then show ?case by (intro r_into_rtranclp pool_step.worker)
qed (simp_all add: plain_pool_def map_plain_same comp_def)

lemma wake_step_simulates: "wake_step s t \<Longrightarrow> pool_step\<^sup>*\<^sup>* (plain_pool s) (plain_pool t)"
proof (induction rule: wake_step.induct)
  case (push s t)
  then show ?case
    using pool_step.submit [of "plain_pool s" t] by (simp add: plain_pool_def enqueue_def r_into_rtranclp)
next
  case (begin_stop s)
  show ?case
    using pool_step.stop [of "plain_pool s"] by (simp add: plain_pool_def request_stop_def r_into_rtranclp)
next
  case (inner s t)
  then show ?case by (rule inner_step_simulates)
qed (simp add: plain_pool_def map_plain_same)

section \<open>The invariant\<close>

text \<open>
  When the destructor joins, nobody sleeps any more; and while someone sleeps, there are at least
  as many workers awake and notifications under way as there are tasks in the queue.
\<close>

definition awake_count :: "'a crew list \<Rightarrow> nat" where
  "awake_count ws = sum_list (map (\<lambda>w. case w of W_Awake \<Rightarrow> 1 | _ \<Rightarrow> 0) ws)"

lemmas awake_count_update = sum_list_update_swap [of _ _ "\<lambda>w. case w of W_Awake \<Rightarrow> 1 :: nat | _ \<Rightarrow> 0", folded awake_count_def]

definition wake_inv :: "nat \<Rightarrow> 'a wake_pool \<Rightarrow> bool" where
  "wake_inv n s \<longleftrightarrow> pool_inv n (plain_pool s) \<and> (wstop s \<longleftrightarrow> dtor s \<noteq> D_Alive) \<and>
     (\<forall>k. dtor s = D_Joining k \<longrightarrow> k \<le> length (crew s) \<and> W_Asleep \<notin> set (crew s)) \<and>
     (W_Asleep \<in> set (crew s) \<longrightarrow> length (wqueue s) \<le> notices s + awake_count (crew s))"

lemma asleep_updated: "W_Asleep \<in> set (ws[i := w]) \<Longrightarrow> w \<noteq> W_Asleep \<Longrightarrow> W_Asleep \<in> set ws"
  using set_update_subset_insert [of ws i w] by auto

lemma woken_neq [simp]: "W_Asleep \<noteq> woken w"
  by (cases w) simp_all

lemma inner_step_inv:
  assumes "inner_step s t" and "wake_inv n s"
  shows "wake_inv n t"
proof -
  have "pool_inv n (plain_pool t)"
    using pools.run_inv [OF inner_step_simulates [OF assms(1)]] assms(2) by (simp add: wake_inv_def)
  with assms show ?thesis
  proof (induction rule: inner_step.induct)
    case (sleep i s)
    then show ?case by (auto simp: wake_inv_def)
  next
    case (take i s t ts)
    with awake_count_update [of i "crew s" "W_Busy t"] show ?case
      by (auto simp: wake_inv_def dest: asleep_updated)
  next
    case (return i s)
    then show ?case by (auto simp: wake_inv_def dest: asleep_updated)
  next
    case (execute i s t)
    with awake_count_update [of i "crew s" W_Awake] show ?case
      by (auto simp: wake_inv_def dest: asleep_updated)
  next
    case (notify_one s k i)
    with awake_count_update [of i "crew s" W_Awake] show ?case
      by (auto simp: wake_inv_def dest: asleep_updated)
  next
    case (notify_lost s k)
    then show ?case by (auto simp: wake_inv_def)
  next
    case (notify_all s)
    then show ?case by (auto simp: wake_inv_def)
  next
    case (join s k)
    then show ?case by (auto simp: wake_inv_def)
  qed
qed

lemma wake_step_inv:
  assumes "wake_step s t" and "wake_inv n s"
  shows "wake_inv n t"
proof -
  have "pool_inv n (plain_pool t)"
    using pools.run_inv [OF wake_step_simulates [OF assms(1)]] assms(2) by (simp add: wake_inv_def)
  with assms show ?thesis
  proof (induction rule: wake_step.induct)
    case (spurious i s)
    with awake_count_update [of i "crew s" W_Awake] show ?case
      by (auto simp: wake_inv_def dest: asleep_updated)
  next
    case (inner s t)
    then show ?case by (blast intro: inner_step_inv)
  qed (auto simp: wake_inv_def)
qed

text \<open>The thread pool of the theory \<open>Threadpool\<close> is the specification of the pool with its wakeups.\<close>

interpretation wakeups: simulation wake_step "wake_inv n" pool_step plain_pool
  for n
  by unfold_locales (auto intro: wake_step_inv wake_step_simulates)

lemma wake_inv_init: "wake_inv n (wake_init n)"
  using pool_inv_init [of n] by (simp add: wake_inv_def wake_init_def plain_pool_def run_init_def Threadpool_def)

lemma wake_reachable: "wake_step\<^sup>*\<^sup>* (wake_init n) s \<Longrightarrow> wake_inv n s"
  by (erule wakeups.run_inv) (rule wake_inv_init)

section \<open>Nobody is left asleep\<close>

text \<open>
  Work left: a task in the queue must be taken and executed, a worker that is awake tests the
  predicate, a notification may wake one worker, \<open>notify_all\<close> may wake all of them, and the
  destructor joins one after the other. Every inner step uses some up.
\<close>

fun crew_work :: "'a crew \<Rightarrow> nat" where
  "crew_work W_Asleep = 0"
| "crew_work W_Awake = 1"
| "crew_work (W_Busy t) = 2"
| "crew_work W_Ended = 0"

fun dtor_work :: "nat \<Rightarrow> destructor \<Rightarrow> nat" where
  "dtor_work n D_Alive = 0"
| "dtor_work n D_Stopped = 2 * n + 1"
| "dtor_work n (D_Joining k) = n - k"

definition wake_work :: "'a wake_pool \<Rightarrow> nat" where
  "wake_work s = 2 * length (wqueue s) + 2 * notices s + sum_list (map crew_work (crew s)) +
     dtor_work (length (crew s)) (dtor s)"

lemma woken_work: "sum_list (map crew_work (map woken ws)) \<le> sum_list (map crew_work ws) + length ws"
proof (induction ws)
  case (Cons w ws)
  then show ?case by (cases w) simp_all
qed simp

lemma inner_step_decreases: "inner_step s t \<Longrightarrow> wake_work t < wake_work s"
proof (induction rule: inner_step.induct)
  case (sleep i s)
  with sum_list_update_swap [of i "crew s" crew_work W_Asleep] show ?case by (simp add: wake_work_def)
next
  case (take i s t ts)
  with sum_list_update_swap [of i "crew s" crew_work "W_Busy t"] show ?case by (simp add: wake_work_def)
next
  case (return i s)
  with sum_list_update_swap [of i "crew s" crew_work W_Ended] show ?case by (simp add: wake_work_def)
next
  case (execute i s t)
  with sum_list_update_swap [of i "crew s" crew_work W_Awake] show ?case by (simp add: wake_work_def)
next
  case (notify_one s k i)
  with sum_list_update_swap [of i "crew s" crew_work W_Awake] show ?case by (simp add: wake_work_def)
next
  case (notify_lost s k)
  then show ?case by (simp add: wake_work_def)
next
  case (notify_all s)
  with woken_work [of "crew s"] show ?case by (simp add: wake_work_def del: map_map)
next
  case (join s k)
  then show ?case by (simp add: wake_work_def)
qed

lemma inner_steps_bounded:
  "(inner_step ^^ k) s t \<Longrightarrow> k + wake_work t \<le> wake_work s"
proof (induction k arbitrary: t)
  case 0
  then show ?case by simp
next
  case (Suc k)
  then obtain u where "(inner_step ^^ k) s u" and "inner_step u t" by auto
  with Suc.IH [of u] inner_step_decreases [of u t] show ?case by simp
qed

text \<open>What is true of a pool in which nothing can move: a worker that has not ended is asleep.\<close>

lemma stuck_crew:
  assumes "\<nexists>t. inner_step s t" and "w \<in> set (crew s)"
  shows "w = W_Asleep \<or> w = W_Ended"
proof -
  obtain i where i: "i < length (crew s)" "crew s ! i = w" using assms(2) by (auto simp: in_set_conv_nth)
  show ?thesis
  proof (cases w)
    case W_Awake
    with i assms(1) show ?thesis
      by (cases "wqueue s"; cases "wstop s") (auto intro: inner_step.intros)
  next
    case (W_Busy t)
    with i assms(1) show ?thesis by (auto intro: inner_step.execute)
  qed simp_all
qed

lemma stuck_notices:
  assumes "\<nexists>t. inner_step s t"
  shows "notices s = 0"
proof (cases "notices s")
  case (Suc k)
  show ?thesis
  proof (cases "W_Asleep \<in> set (crew s)")
    case True
    then obtain i where "i < length (crew s)" "crew s ! i = W_Asleep" by (auto simp: in_set_conv_nth)
    with inner_step.notify_one [OF Suc] assms show ?thesis by blast
  next
    case False
    with inner_step.notify_lost [OF Suc] assms show ?thesis by blast
  qed
qed

lemma awake_count_none: "\<forall>w \<in> set ws. w = W_Asleep \<or> w = W_Ended \<Longrightarrow> awake_count ws = 0"
  by (induction ws) (auto simp: awake_count_def)

lemma in_flight_none: "\<forall>w \<in> set ws. w = W_Asleep \<or> w = W_Ended \<Longrightarrow> in_flight (map plain ws) = {#}"
  by (induction ws) (auto simp: in_flight_def)

lemma stuck_drained:
  assumes "wake_inv n s" and "0 < n" and "\<nexists>t. inner_step s t"
  shows "wqueue s = []" and "mset (wfinished s) = mset (wsubmitted s)"
    and "dtor s \<noteq> D_Alive \<Longrightarrow> dtor s = D_Joining n \<and> joined (the_pool (plain_pool s))"
proof -
  have crew: "\<forall>w \<in> set (crew s). w = W_Asleep \<or> w = W_Ended" using stuck_crew [OF assms(3)] by blast
  have inv: "pool_inv n (plain_pool s)" "length (crew s) = n"
    using assms(1) by (auto simp: wake_inv_def pool_inv_def plain_pool_def)
  have ended: "wqueue s = []" if "W_Ended \<in> set (crew s)"
  proof -
    have "Returned \<in> set (map plain (crew s))" using that by (metis image_eqI plain.simps(2) set_map)
    then have "Returned \<in> set (workers (the_pool (plain_pool s)))" by (simp add: plain_pool_def)
    then have "task_queue (the_pool (plain_pool s)) = []" using inv(1) unfolding pool_inv_def by blast
    then show ?thesis by (simp add: plain_pool_def)
  qed
  have asleep: "W_Asleep \<in> set (crew s) \<Longrightarrow> wqueue s = []"
    using assms(1) awake_count_none [OF crew] stuck_notices [OF assms(3)] by (simp add: wake_inv_def)
  obtain w where w: "w \<in> set (crew s)" using inv(2) assms(2) by (cases "crew s") auto
  then have "w = W_Asleep \<or> w = W_Ended" using crew by simp
  with w show queue: "wqueue s = []" using ended asleep by (elim disjE) simp_all
  with inv(1) in_flight_none [OF crew] show "mset (wfinished s) = mset (wsubmitted s)"
    by (simp add: pool_inv_def plain_pool_def)
  assume "dtor s \<noteq> D_Alive"
  then obtain k where k: "dtor s = D_Joining k"
    using assms(3) by (cases "dtor s") (auto intro: inner_step.notify_all)
  then have all: "\<forall>w \<in> set (crew s). w = W_Ended" "k \<le> n"
    using assms(1) crew inv(2) by (auto simp: wake_inv_def)
  have "\<not> k < n"
    using inner_step.join [OF k] all(1) inv(2) assms(3) nth_mem [of k "crew s"] by blast
  with all k show "dtor s = D_Joining n \<and> joined (the_pool (plain_pool s))"
    by (auto simp: joined_def plain_pool_def)
qed

text \<open>
  C31. No worker and no destructor waits for ever, whatever order the notifications and the
  spurious wakeups come in. From any state that a pool with at least one worker can reach, the
  workers, the pending notifications and a destructor that has begun can make at most
  \<open>wake_work\<close> further steps of their own; and where they can make none, the queue is empty and
  exactly the submitted tasks have been executed, and a destructor that has begun has joined all
  workers and returns.
\<close>

theorem pool_destructor_drains:
  assumes "wake_step\<^sup>*\<^sup>* (wake_init n) s" and "0 < n"
  shows "(\<forall>k t. (inner_step ^^ k) s t \<longrightarrow> k \<le> wake_work s) \<and>
    ((\<exists>t. inner_step s t) \<or>
     wqueue s = [] \<and> mset (wfinished s) = mset (wsubmitted s) \<and>
     (dtor s \<noteq> D_Alive \<longrightarrow> dtor s = D_Joining n \<and> joined (the_pool (plain_pool s))))"
proof (intro conjI)
  show "\<forall>k t. (inner_step ^^ k) s t \<longrightarrow> k \<le> wake_work s"
    using add_leD1 [OF inner_steps_bounded] by blast
  show "(\<exists>t. inner_step s t) \<or>
     wqueue s = [] \<and> mset (wfinished s) = mset (wsubmitted s) \<and>
     (dtor s \<noteq> D_Alive \<longrightarrow> dtor s = D_Joining n \<and> joined (the_pool (plain_pool s)))"
    using stuck_drained [OF wake_reachable [OF assms(1)] assms(2)] by blast
qed

text \<open>
  A run for the witness: the worker falls asleep, a task is submitted and its notification wakes
  the worker, which executes it and sleeps again; then the pool is destroyed.
\<close>

definition demo_wakes :: "nat crew \<Rightarrow> nat list \<Rightarrow> nat \<Rightarrow> destructor \<Rightarrow> nat wake_pool" where
  "demo_wakes w done k d = \<lparr>wqueue = [], wstop = d \<noteq> D_Alive, crew = [w], notices = k, dtor = d,
     wsubmitted = [7], wstarted = [7], wfinished = done\<rparr>"

lemma demo_wakes_reachable: "wake_step\<^sup>*\<^sup>* (wake_init 1) (demo_wakes W_Ended [7] 0 (D_Joining 1))"
proof -
  let ?a = "wake_init 1 :: nat wake_pool"
  let ?b = "?a\<lparr>crew := [W_Asleep]\<rparr>"
  let ?c = "?b\<lparr>wqueue := [7], notices := 1, wsubmitted := [7]\<rparr>"
  let ?d = "?c\<lparr>notices := 0, crew := [W_Awake]\<rparr>"
  have "wake_step ?a ?b"
    using inner_step.sleep [of 0 ?a] by (intro wake_step.inner) (simp add: wake_init_def)
  moreover have "wake_step ?b ?c"
    using wake_step.push [of ?b 7] by (simp add: wake_init_def)
  moreover have "wake_step ?c ?d"
    using inner_step.notify_one [of ?c 0 0] by (intro wake_step.inner) (simp add: wake_init_def)
  moreover have "wake_step ?d (demo_wakes (W_Busy 7) [] 0 D_Alive)"
    using inner_step.take [of 0 ?d 7 "[]"] by (intro wake_step.inner) (simp add: wake_init_def demo_wakes_def)
  moreover have "wake_step (demo_wakes (W_Busy 7) [] 0 D_Alive) (demo_wakes W_Awake [7] 0 D_Alive)"
    using inner_step.execute [of 0 "demo_wakes (W_Busy 7) [] 0 D_Alive" 7] by (intro wake_step.inner) (simp add: demo_wakes_def)
  moreover have "wake_step (demo_wakes W_Awake [7] 0 D_Alive) (demo_wakes W_Asleep [7] 0 D_Alive)"
    using inner_step.sleep [of 0 "demo_wakes W_Awake [7] 0 D_Alive"] by (intro wake_step.inner) (simp add: demo_wakes_def)
  moreover have "wake_step (demo_wakes W_Asleep [7] 0 D_Alive) (demo_wakes W_Asleep [7] 0 D_Stopped)"
    using wake_step.begin_stop [of "demo_wakes W_Asleep [7] 0 D_Alive"] by (simp add: demo_wakes_def)
  moreover have "wake_step (demo_wakes W_Asleep [7] 0 D_Stopped) (demo_wakes W_Awake [7] 0 (D_Joining 0))"
    using inner_step.notify_all [of "demo_wakes W_Asleep [7] 0 D_Stopped"] by (intro wake_step.inner) (simp add: demo_wakes_def)
  moreover have "wake_step (demo_wakes W_Awake [7] 0 (D_Joining 0)) (demo_wakes W_Ended [7] 0 (D_Joining 0))"
    using inner_step.return [of 0 "demo_wakes W_Awake [7] 0 (D_Joining 0)"] by (intro wake_step.inner) (simp add: demo_wakes_def)
  moreover have "wake_step (demo_wakes W_Ended [7] 0 (D_Joining 0)) (demo_wakes W_Ended [7] 0 (D_Joining 1))"
    using inner_step.join [of "demo_wakes W_Ended [7] 0 (D_Joining 0)" 0] by (intro wake_step.inner) (simp add: demo_wakes_def)
  ultimately show ?thesis
    by (meson converse_rtranclp_into_rtranclp rtranclp.rtrancl_refl)
qed

inductive_cases inner_stepE: "inner_step s t"

theorem pool_destructor_drains_witness:
  "wqueue (demo_wakes W_Ended [7] 0 (D_Joining 1)) = [] \<and>
   mset (wfinished (demo_wakes W_Ended [7] 0 (D_Joining 1))) = mset (wsubmitted (demo_wakes W_Ended [7] 0 (D_Joining 1))) \<and>
   joined (the_pool (plain_pool (demo_wakes W_Ended [7] 0 (D_Joining 1))))"
proof -
  have "\<nexists>t. inner_step (demo_wakes W_Ended [7] 0 (D_Joining 1)) t"
    by (auto simp: demo_wakes_def elim!: inner_stepE)
  moreover have "dtor (demo_wakes W_Ended [7] 0 (D_Joining 1)) \<noteq> D_Alive" by (simp add: demo_wakes_def)
  ultimately show ?thesis
    using pool_destructor_drains [OF demo_wakes_reachable zero_less_one] by blast
qed

end
