(* ===== verification/Spec2Isabelle.thy ===== *)
theory Spec2Isabelle
  imports Mesh_Run Adversary Interleaving Delivery Protocol Lifecycle Handshake Pool_Wakeups Main_Program
begin

text \<open>
  A verification development for DAG-Blockchain, a simulation of a DAG-based Byzantine consensus
  protocol in C++ (\<open>src/\<close>). The parent process forks one validator per child process. A
  validator is a \<open>Peer\<close>: its scan thread advances through rounds, proposing in each a \<open>Vertex\<close> that
  refers to the vertices of the round before, and adds the vertices it has received to its local
  DAG; its \<open>Server\<close> thread accepts connections, stores the vertices that arrive, and hands them
  over; its \<open>Client\<close> holds the outgoing connections; a \<open>Threadpool\<close> does the sending. When all
  rounds are over, each child writes a hash of its DAG into a pipe, and the parent compares them.

  The theories, in the order of the components, and what they model:

  \<^item> \<open>Prelude\<close>: constants of the headers; \<open>int\<close> to \<open>size_t\<close>; checked \<open>operator[]\<close> (\<open>vec_at\<close>);
    big-endian fields; \<open>std::to_string\<close>; results (\<open>'a res\<close>: a fault or a value) and computations
    that may not return (\<open>'a comp\<close>). The interfaces: \<open>step_invariant\<close> and \<open>simulation\<close> for step
    relations, \<open>codec\<close> for messages on a stream.
  \<^item> \<open>Threadsafe\<close>, \<open>Threadpool\<close> (\<open>DataStructs/threadsafe.h\<close>): results and lock discipline of
    the containers (interface \<open>kv_store\<close>); queue, workers and destructor of the pool as a step
    relation, in which a waiting worker may go on as soon as the predicate that it waits for holds.
  \<^item> \<open>Pool_Wakeups\<close>: the pool with its condition variable: sleeping workers, \<open>notify_one\<close>,
    \<open>notify_all\<close>, spurious wakeups and the joins of the destructor, a refinement of \<open>Threadpool\<close>.
  \<^item> \<open>Vertex\<close> (\<open>vertex.h\<close>, \<open>vertex.cpp\<close>): the class, \<open>hash_256\<close>, and the wire format with every
    copy checked against the buffer.
  \<^item> \<open>Messages\<close> (free functions of \<open>networking.cpp\<close>): \<open>c_sendn\<close>, \<open>c_recvn\<close>, \<open>examine_msg\<close>,
    \<open>process_request\<close>, \<open>attach_length_to_msg\<close>; and \<open>recv\<close> with \<open>MSG_WAITALL\<close> on an open, a closed
    and a failing connection (\<open>recv_waitall\<close>).
  \<^item> \<open>Client\<close>, \<open>Server\<close> (\<open>networking.h\<close>, \<open>networking.cpp\<close>): the two classes; \<open>Server::start\<close> is
    \<open>handle_event\<close> (one event), \<open>poll_once\<close> (one wait) and \<open>hand_over\<close>.
  \<^item> \<open>Peer\<close> (\<open>peer.h\<close>, \<open>peer.cpp\<close>): one definition per method; the loop of
    \<open>buffer_scan_move_round\<close> is cut at its only blocking point into \<open>move_round\<close> and \<open>after_wait\<close>.
  \<^item> \<open>Peer_Ops\<close>, \<open>Wave_Ops\<close>, \<open>Dag_Hash\<close>: what each of these operations does, branch by branch.
  \<^item> \<open>Handshake\<close>: the hand-over between the two threads, one atomic action at a time, over the
    flag, the mutex and the condition variable with spurious wakeups.
  \<^item> \<open>Frame\<close>, \<open>Dag\<close>, \<open>Validator\<close>: the validator as a system of interleaved threads (\<open>step\<close>), its
    invariant \<open>dag_inv\<close>, and what holds in every reachable state.
  \<^item> \<open>Progress\<close>, \<open>Lifecycle\<close>: that rounds advance, what the scan decides, and how a validator ends.
  \<^item> \<open>Protocol\<close>: the abstract protocol that every run refines, and the ancestors of a vertex.
  \<^item> \<open>Delivery\<close>: from one validator's queue to another's vertex map.
  \<^item> \<open>Traffic\<close>, \<open>Outbox\<close>, \<open>Network\<close>: any number of validators that run this code, with the
    connections between them, as one transition system (\<open>net_step\<close>): what they put on the wire,
    what a server makes of it, and the invariant \<open>net_inv\<close>. The actions of a validator are the
    labelled steps \<open>act\<close> of \<open>Validator\<close>; a worker's \<open>c_sendn\<close> appends to the stream at the other
    end, or is lost.
  \<^item> \<open>Agreement\<close>, \<open>Network_Run\<close>, \<open>Faults\<close>: what holds in every reachable state of a network, two
    concrete networks that show that the hypotheses can hold, and where a validator can fail.
  \<^item> \<open>Convergence\<close>, \<open>Rounds\<close>, \<open>Liveness\<close>, \<open>Mesh_Run\<close>: when the DAGs of a network are equal and what
    the program then prints; and a run, round by round, in which everybody finishes, also for a
    concrete network of four connected validators.
  \<^item> \<open>Adversary\<close>, \<open>Interleaving\<close>: what one connection can do to a validator, and what two workers
    of the pool can do to a connection.
  \<^item> \<open>Main_Program\<close> (\<open>main.cpp\<close>): arguments, forking, collecting, comparing, reporting; and the
    signal handlers.
  \<^item> This theory: the properties that span components.

  What the groups of lemmas show:

  \<^item> The local DAG: every vertex in it rests on a quorum of references to vertices in it (causal
    completeness), no vertex is lost or handled twice, rounds are left only with a quorum, the DAG
    only grows; the whole validator refines a protocol of three rules.
  \<^item> The threads: hand-over and pool are safe, free of deadlock and lost wakeups (with notifications
    and spurious wakeups as steps of their own), they refine a reliable channel and a
    first-in-first-out queue, and they end.
  \<^item> The wire: round trips of vertices, packets, requests and addresses, exactly when framing by
    delimiter is right, when a receiver blocks, returns or exits, and where buffers overflow.
  \<^item> The network: stored vertices are authentic; no two validators ever store different vertices of
    the same creator and round; every DAG is closed under history and its rounds have quorums of
    different creators, any two of which overlap by what their size forces (\<open>f + 1\<close> of
    \<open>3 f + 1\<close> validators); a common vertex has a common history; a server whose peek sees the length
    field takes exactly one message (and hangs on a peek of one byte); and nothing fails but what
    is named. One creator that sends two versions of a
    vertex is enough to lose agreement (\<open>equivocation_splits\<close>).
  \<^item> Convergence and liveness: validators that have stored the same vertices and have nothing left
    to add have the same DAG, whatever was lost and in whatever order things came, and what they
    write makes the parent print \<open>true\<close>. And the network can get there: if everybody is
    connected to everybody there is a run through any number of rounds after which all have left
    with complete DAGs, and the program prints \<open>true\<close> (\<open>network_can_print_true\<close>). It is built from the code's own steps: proposals (\<open>proposes\<close>), one sending
    and receiving at a time (\<open>exchange_step\<close>), the additions of a round (\<open>completes\<close>), the end
    (\<open>leaves\<close>).
  \<^item> What deviating senders can do: invented creators fill a quorum (\<open>invented_quorum\<close>).
    And what the pool can do by itself: two messages that are sent on one connection in pieces can
    make the server at the other end hang (\<open>interleaved_packets_hang\<close>).
  \<^item> The composition: a proposal reaches the vertex maps of the others, a request is answered, and
    the verdict of the parent is the equality of the DAGs up to the last three waves.
  \<^item> Faults: inputs and situations in which the code reads or writes out of bounds, diverges, exits
    or reports something wrong. A fault is a value (\<open>Out_Of_Bounds\<close> for undefined behaviour by a bad
    index or copy, \<open>Exit_Failure\<close>, \<open>Uncaught\<close>), so no theorem is about a run beyond one.

  Assumptions. CryptoPP is the parameter \<open>crypto\<close>; \<open>crypto_ok\<close> is its documented output format.
  That hashes do not collide is a hypothesis, on the texts at hand, only where it is needed
  (\<open>alien\<close>, \<open>all_alien\<close>, \<open>comparable\<close>). \<open>iter_ok\<close> says that the iteration over an unordered set
  visits each element once. Results of system calls, clock readings, random numbers and shuffles
  are arguments, so they range over everything. A connection is the list of the bytes that have
  arrived and are still to be read; an event says how many of them the peek sees, whether the
  connection is closed behind them, and whether a \<open>recv\<close> fails. A call that blocks for more bytes
  has the value \<open>None\<close>, so the validator has no step for it until they are there. One step of \<open>step\<close> is the work of a thread between two blocking points; the data that
  threads share in it are locked in the code, except \<open>c_sockets\<close>, \<open>socket_map\<close> and the black list,
  which detached searches read while the scan thread may change them. The steps over-approximate
  the code: an event may come on any descriptor, watched or not, and also when \<open>is_up\<close> is false (the
  server looks at it only at the head of its loop, as \<open>Handshake\<close> does), so what holds in every
  reachable state holds for the fewer states of the code; the runs that are constructed take it
  that the connections on which messages arrive have been accepted. \<open>atoi\<close> is clamped where the library leaves it undefined. \<open>int\<close> values are unbounded
  integers where the code cannot overflow them (rounds and numbers of validators below \<open>2 ^ 31\<close>, a
  hypothesis of \<open>launched\<close>); \<open>size_t\<close> arithmetic wraps, and the fields of a vertex are words.

  A network (\<open>good_network\<close>) has at most 398 validators and a last round below 8960, ids without
  the byte of the delimiter, and hashes that do not collide for its rounds and ids. With 398
  references a vertex has at most 25535 bytes, so that a packet, which is closed once it has 40000,
  fits the 65536 of the receiver; and with the round below 8960 its third byte is below the code
  of the delimiter, so that no binary header looks like the end of a vertex. A message arrives
  whole and in order on its connection, or not at all, or at any later time; one that is cut short
  by a failing \<open>send\<close> is not in the network (\<open>Messages\<close> says what it does to a stream, and how a
  receiver waits for a message of which a part has arrived), and two
  messages that are sent in pieces between one another are not (\<open>Interleaving\<close>).

  Loops are recursions that end for a structural reason or by a measure; \<open>recv_loop\<close> may diverge and
  is a \<open>partial_function\<close>, for which \<open>Messages\<close> shows when it returns. No fuel is used.

  Not modelled:

  \<^item> log and record files, \<open>printf\<close> and \<open>std::cout\<close> (the numbers of a record are modelled, its time
    stamp is not);
  \<^item> \<open>close\<close>, \<open>shutdown\<close> and \<open>getsockopt\<close> beyond the descriptors that are named and what they change
    in the classes; the elements that the iterators of \<open>Unordered_map\<close> point to (nothing uses them);
  \<^item> address spaces: buffers are values, so the lifetime of a heap copy is followed only where the
    code frees it (\<open>c_sendn\<close>, \<open>request_sends\<close>);
  \<^item> validators that deviate from the code: a network consists of validators that run it, and what
    arbitrary bytes do to one of them is shown for the single server and the single validator;
  \<^item> fairness and time: progress is stated as the possibility or the outcome of steps, and liveness
    of a network as the existence of a run.
\<close>

section \<open>From proposal to admission\<close>

text \<open>
  C17. Proposals reach the other servers: what a validator proposes when it moves to its next round
  is queued, for every connection, as one packet; and a server of the same group at which the
  packet arrives stores exactly this vertex and hands it to its main thread, leaving the rest of
  the stream alone. (The server must not know the vertex yet, and the binary header of the packet
  must not contain the delimiter pattern by accident.)
\<close>

theorem proposal_is_admitted:
  assumes "launched s0" and "iter_ok (iter E)" and "crypto_ok (crypt E)" and "(step E)\<^sup>*\<^sup>* s0 (Top, p, l, lv)"
    and "cur_round p < last_round p" and "wave_work E p = Inr r"
    and "0 < cur_round p \<Longrightarrow> majority (crowd p) \<le> int (card (dag_image p ! nat (cur_round p - 1))) \<and>
      card (dag_image p ! nat (cur_round p - 1)) \<le> 1023"
    and "int (length (c_sockets (client r))) \<le> crowd p - 1"
    and "v = next_vertex E p" and "clean (wire_header (be_enc 4 (length (wire v))) v)"
    and "ev_events e AND EPOLLIN = EPOLLIN" and "ev_fd e \<noteq> s_socket s" and "ev_arrived e = Arrived n" and "4 \<le> n"
    and "net lt (ev_fd e) = packet_of [v] @ rest" and "vertex_hash (crypt E) v \<notin> dom (vertex_map s)"
  shows "(\<exists>q. move_round E t (p, l) = Inr (q, l\<lparr>need_help := False\<rparr>) \<and>
      task_queue (pool q) = task_queue (pool r) @ map (\<lambda>fd. Sendn fd (packet_of [v])) (c_sockets (client r))) \<and>
    (\<exists>lt'. handle_event (crypt E) (majority (crowd p)) e (s, lt) =
        Some (Inr (s\<lparr>vertex_map := (vertex_map s)(vertex_hash (crypt E) v \<mapsto> v)\<rparr>, lt')) \<and>
      temp_list lt' = v # temp_list lt \<and> net lt' (ev_fd e) = rest)"
proof -
  have inv: "dag_inv (crypt E) p (buffer p @ temp_list lv)"
    by (rule reachable_inv [OF assms(1,2,4)])
  have card: "card (dag_image p ! nat (cur_round p - 1)) \<le> 1023"
    and quorum: "majority (crowd p) \<le> int (card (dag_image p ! nat (cur_round p - 1)))" if "0 < cur_round p"
    using assms(7) [OF that] by simp_all
  obtain q where q: "advance E p = Inr q" "sendable v"
    "task_queue (pool q) = task_queue (pool r) @ map (\<lambda>fd. Sendn fd (packet_of [v])) (c_sockets (client r))"
    using advance_eq [OF inv assms(2,3,5,6) card assms(8)] assms(9) by blast
  have "move_round E t (p, l) = Inr (q, l\<lparr>need_help := False\<rparr>)"
    using can_advance_if [OF inv assms(5)] quorum q(1) assms(5) by (simp add: move_round_def)
  moreover have "good_packet [v]"
    using next_vertex_text [OF inv assms(2,3,5) card] q(2) assms(9,10) by (intro text_vertex_packet) simp_all
  moreover have "admissible (majority (crowd p)) v"
    using next_vertex_admissible [OF inv assms(2,5) quorum] assms(9) by simp
  ultimately show ?thesis
    using q(3) event_vertex [OF _ assms(11-15) _ assms(16)] by blast
qed

definition first_vertex :: vertex where
  "first_vertex = Vertex 1 17 ''1-17''"

lemma next_vertex_first: "next_vertex E first_peer = first_vertex"
proof -
  have "to_string 1 = ''1''" "to_string 17 = ''17''"
    by (simp_all add: to_string_def dec_digits.simps digit_char_def char_of_def bit_0 bit_Suc)
  then show ?thesis
    by (simp add: next_vertex_def own_vertex_def first_peer_sel first_vertex_def Vertex_def)
qed

text \<open>The arrival of this vertex at a server that knows nothing, for the witnesses.\<close>

lemma first_vertex_good: "good_packet [first_vertex]"
proof -
  have "text_vertex first_vertex \<and> sendable first_vertex"
    by (simp add: text_vertex_def hash_refs_def sendable_def first_vertex_def Vertex_def DELIM_def wire_def wire_body_def MAX_STREAM_SIZE_def)
  moreover have "clean (wire_header (be_enc 4 (length (wire first_vertex))) first_vertex)" by code_simp
  ultimately show ?thesis by (intro text_vertex_packet) simp_all
qed

lemma first_vertex_arrives:
  "\<exists>l. handle_event demo_crypto 3 (demo_event 32) (demo_server (packet_of [first_vertex])) =
      Some (Inr ((fst (demo_server []))\<lparr>vertex_map := [vertex_hash demo_crypto first_vertex \<mapsto> first_vertex]\<rparr>, l)) \<and>
    temp_list l = [first_vertex]"
  using event_vertex [OF first_vertex_good, of "demo_event 32" "fst (demo_server [])" 32 "snd (demo_server (packet_of [first_vertex]))" "[]" 3 demo_crypto]
  by (auto simp: demo_event_def demo_server_def admissible_def first_vertex_def Vertex_def)

theorem handle_event_grows_witness:
  "\<exists>s l. grows demo_crypto 3 (demo_server (packet_of [first_vertex])) (s, l) \<and> temp_list l = [first_vertex]"
  using first_vertex_arrives handle_event_grows by blast

theorem poll_once_keyed_witness:
  "keyed demo_crypto ((fst (demo_server []))\<lparr>vertex_map := [vertex_hash demo_crypto first_vertex \<mapsto> first_vertex]\<rparr>)"
proof -
  obtain l where arrives: "handle_event demo_crypto 3 (demo_event 32) (demo_server (packet_of [first_vertex])) =
      Some (Inr ((fst (demo_server []))\<lparr>vertex_map := [vertex_hash demo_crypto first_vertex \<mapsto> first_vertex]\<rparr>, l))"
    using first_vertex_arrives by blast
  have quorum: "majority 4 = 3" by (simp add: majority_eq)
  have "handle_event demo_crypto (majority 4) ((\<lambda>_. demo_event 32) 0) (demo_server (packet_of [first_vertex])) =
      Some (Inr ((fst (demo_server []))\<lparr>vertex_map := [vertex_hash demo_crypto first_vertex \<mapsto> first_vertex]\<rparr>, l))"
    unfolding quorum by (rule arrives)
  then have "poll_once demo_crypto 4 1 (\<lambda>_. demo_event 32) (demo_server (packet_of [first_vertex])) =
      Some (Inr (((fst (demo_server []))\<lparr>vertex_map := [vertex_hash demo_crypto first_vertex \<mapsto> first_vertex]\<rparr>, l),
        temp_list l \<noteq> [] \<or> temp_request_list l \<noteq> []))"
    by (rule poll_once_one)
  moreover have "keyed demo_crypto (fst (demo_server bytes))" for bytes
    by (simp add: keyed_def demo_server_def)
  ultimately show ?thesis
    using poll_once_keyed [where st = "demo_server (packet_of [first_vertex])"] by (metis fst_conv)
qed

theorem proposal_is_admitted_witness:
  "\<exists>(q :: peer) (lt' :: server_vars). move_round demo_env 0 (first_peer, scan_init first_peer) = Inr (q, (scan_init first_peer)\<lparr>need_help := False\<rparr>) \<and>
     temp_list lt' = [first_vertex]"
proof -
  have run: "(step demo_env)\<^sup>*\<^sup>* first_state (Top, first_peer, scan_init first_peer, server_init (server first_peer) (\<lambda>_. []))"
    by (simp add: first_state_def)
  have "clean (wire_header (be_enc 4 (length (wire first_vertex))) first_vertex)"
    by code_simp
  from proposal_is_admitted [OF launched_first demo_env_ok run _ wave_work_first _ _ next_vertex_first [symmetric] this,
      where e = "demo_event 32" and s = "fst (demo_server [])" and lt = "snd (demo_server (packet_of [first_vertex]))"
        and n = 32 and rest = "[]" and t = 0]
  show ?thesis
    by (auto simp: first_peer_sel Client_def demo_event_def demo_server_def)
qed

text \<open>What the main thread queues for the requests that it has been handed, in their order.\<close>

lemma requests_sent:
  assumes "\<forall>r \<in> set rs. sendable (snd r)"
  shows "\<exists>q. foldR deliver_request rs p = Inr q \<and> task_queue (pool q) =
    task_queue (pool p) @ map (\<lambda>(pid, w). Sendn (socket_of p pid) (packet_of [w])) rs"
  using assms
proof (induction rs arbitrary: p)
  case Nil
  then show ?case by simp
next
  case (Cons r rs)
  obtain pid w where r: "r = (pid, w)" by force
  obtain fd p' where look: "lookup_socket pid p = (fd, p')" by force
  let ?q = "enqueue_send fd (packet_of [w]) p'"
  have one: "deliver_request r p = Inr ?q"
    using deliver_request_spec [of w pid p] Cons.prems by (simp add: r look)
  have "fd = socket_of p pid" and "socket_of ?q = socket_of p"
    using lookup_socket_of [OF look] by (auto simp: enqueue_send_def socket_of_def fun_eq_iff)
  moreover have "task_queue (pool ?q) = task_queue (pool p) @ [Sendn fd (packet_of [w])]"
    using lookup_view [OF look] by (simp add: enqueue_send_def enqueue_def)
  moreover obtain q where "foldR deliver_request rs ?q = Inr q" "task_queue (pool q) =
      task_queue (pool ?q) @ map (\<lambda>(pid, w). Sendn (socket_of ?q pid) (packet_of [w])) rs"
    using Cons.IH [of ?q] Cons.prems by auto
  ultimately show ?case using one by (intro exI [of _ q]) (simp add: r)
qed

text \<open>
  C23. Requests are answered: when a request arrives at a server that stores the vertex with the
  requested hash, the server notes it for the peer that asks; the hand-over passes it to the scan
  thread that waits; and the scan thread, which then works off all requests, queues for each of
  them, in order, a packet with the requested vertex on the connection to the peer that asked, so
  if the asking peer is known by its id, one with this vertex on the connection \<open>fd\<close> to it. And when
  that packet arrives at a server that is missing the vertex, it stores it under the hash that was
  asked for and passes it on to its scan thread. (The vertices that other requests ask for must fit
  a stream buffer, the peek must see the length field, and the header of the packet must not
  contain the delimiter pattern. For an id that is not known see \<open>deliver_request_unknown_id\<close>.)
\<close>

theorem request_is_answered:
  assumes "length h = HEX_HASH" and "vertex_map (server p) h = Some v" and "keyed (crypt E) (server p)" and "good_packet [v]"
    and "socket_map (client p) asker = Some fd" and "scan_buffer_thread_ready (server p)"
    and "\<forall>r \<in> set (requests p) \<union> set (temp_request_list lv). sendable (snd r)"
    and "ev_events e AND EPOLLIN = EPOLLIN" and "ev_fd e \<noteq> s_socket (server p)" and "ev_arrived e = Arrived n" and "1 \<le> n"
    and "net lv (ev_fd e) = request_msg h asker @ rest"
    and "ev_events e' AND EPOLLIN = EPOLLIN" and "ev_fd e' \<noteq> s_socket s'" and "ev_arrived e' = Arrived n'" and "4 \<le> n'"
    and "net l' (ev_fd e') = packet_of [v] @ rest'" and "h \<notin> dom (vertex_map s')" and "admissible maj v"
  shows "(\<exists>lv1 lv2 p2 l2 q. act E (Event e) (Asleep, p, l, lv) (Asleep, p, l, lv1) \<and> net lv1 (ev_fd e) = rest \<and>
      act E Hand (Asleep, p, l, lv1) (Asleep, p2, l, lv2) \<and> process_requests (p2, l) = Inr (q, l2) \<and> requests q = [] \<and>
      task_queue (pool q) = task_queue (pool p) @
        map (\<lambda>(pid, w). Sendn (socket_of p pid) (packet_of [w])) (requests p) @ Sendn fd (packet_of [v]) #
        map (\<lambda>(pid, w). Sendn (socket_of p pid) (packet_of [w])) (temp_request_list lv)) \<and>
    (\<exists>k. handle_event (crypt E) maj e' (s', l') = Some (Inr (s'\<lparr>vertex_map := (vertex_map s')(h \<mapsto> v)\<rparr>, k)) \<and>
      temp_list k = v # temp_list l')"
proof (rule conjI)
  let ?reqs = "(asker, v) # temp_request_list lv"
  let ?lv1 = "lv\<lparr>net := (net lv)(ev_fd e := rest), temp_request_list := ?reqs\<rparr>"
  let ?lv2 = "?lv1\<lparr>temp_list := [], temp_request_list := []\<rparr>"
  let ?p2 = "p\<lparr>server := (server p)\<lparr>scan_buffer_thread_ready := False\<rparr>, buffer := buffer p @ temp_list lv, requests := requests p @ ?reqs\<rparr>"
  have "handle_event (crypt E) (majority (crowd p)) e (server p, lv) = Some (Inr (server p, ?lv1))"
    using event_request [OF assms(1,8-12)] assms(2) by simp
  then have event: "act E (Event e) (Asleep, p, l, lv) (Asleep, p, l, ?lv1)"
    using act.event [of E p e lv "server p" ?lv1 Asleep l] by simp
  have "hand_over (server p, ?lv1) (buffer p) (requests p) =
      Some (((server p)\<lparr>scan_buffer_thread_ready := False\<rparr>, ?lv2), buffer p @ temp_list lv, requests p @ ?reqs)"
    using assms(6) by (simp add: hand_over_def)
  from act.hand [OF this] have hand: "act E Hand (Asleep, p, l, ?lv1) (Asleep, ?p2, l, ?lv2)" .
  have "sendable v" using assms(4) by (simp add: good_packet_def good_segment_def sendable_def)
  then have "\<forall>r \<in> set (requests ?p2). sendable (snd r)" using assms(7) by auto
  from requests_sent [OF this, of ?p2] obtain q where q: "foldR deliver_request (requests ?p2) ?p2 = Inr q" "task_queue (pool q) =
      task_queue (pool p) @ map (\<lambda>(pid, w). Sendn (socket_of p pid) (packet_of [w])) (requests p @ ?reqs)"
    by (auto simp: socket_of_def)
  have "socket_of p asker = fd" using assms(5) by (simp add: socket_of_def get_socket_def)
  moreover have "process_requests (?p2, l) =
      Inr (q\<lparr>requests := []\<rparr>, l\<lparr>requests_answered := requests_answered l + int (length (requests ?p2))\<rparr>)"
    unfolding process_requests_def by (simp only: prod.case q(1) bindR_simps)
  ultimately show "\<exists>lv1 lv2 p2 l2 q. act E (Event e) (Asleep, p, l, lv) (Asleep, p, l, lv1) \<and> net lv1 (ev_fd e) = rest \<and>
      act E Hand (Asleep, p, l, lv1) (Asleep, p2, l, lv2) \<and> process_requests (p2, l) = Inr (q, l2) \<and> requests q = [] \<and>
      task_queue (pool q) = task_queue (pool p) @
        map (\<lambda>(pid, w). Sendn (socket_of p pid) (packet_of [w])) (requests p) @ Sendn fd (packet_of [v]) #
        map (\<lambda>(pid, w). Sendn (socket_of p pid) (packet_of [w])) (temp_request_list lv)"
    using event hand q(2)
    by (intro exI [of _ ?lv1] exI [of _ ?lv2] exI [of _ ?p2] exI [of _ "l\<lparr>requests_answered := requests_answered l + int (length (requests ?p2))\<rparr>"]
        exI [of _ "q\<lparr>requests := []\<rparr>"]) simp
next
  have "vertex_hash (crypt E) v = h" using assms(2,3) by (simp add: keyed_def)
  with event_vertex [OF assms(4,13-17,19)] assms(18)
  show "\<exists>k. handle_event (crypt E) maj e' (s', l') = Some (Inr (s'\<lparr>vertex_map := (vertex_map s')(h \<mapsto> v)\<rparr>, k)) \<and>
      temp_list k = v # temp_list l'"
    by blast
qed

text \<open>A validator that stores the first vertex and knows peer 42 by the connection 7.\<close>

definition answering_peer :: peer where
  "answering_peer = first_peer\<lparr>server := (fst (demo_server []))\<lparr>vertex_map := [vertex_hash demo_crypto first_vertex \<mapsto> first_vertex]\<rparr>,
     client := (client first_peer)\<lparr>socket_map := [42 \<mapsto> 7]\<rparr>\<rparr>"

theorem request_is_answered_witness:
  "\<exists>lv1 lv2 p2 l2 q. act demo_env (Event (demo_event 73)) (Asleep, answering_peer, scan_init first_peer,
        snd (demo_server (request_msg (vertex_hash demo_crypto first_vertex) 42))) (Asleep, answering_peer, scan_init first_peer, lv1) \<and>
     act demo_env Hand (Asleep, answering_peer, scan_init first_peer, lv1) (Asleep, p2, scan_init first_peer, lv2) \<and>
     process_requests (p2, scan_init first_peer) = Inr (q, l2) \<and> task_queue (pool q) = [Sendn 7 (packet_of [first_vertex])]"
proof -
  let ?h = "vertex_hash demo_crypto first_vertex" and ?lv = "snd (demo_server (request_msg (vertex_hash demo_crypto first_vertex) 42))"
  have h: "length ?h = HEX_HASH"
    using length_hash_256 [OF crypto_ok_demo] by (simp add: vertex_hash_def)
  have p: "vertex_map (server answering_peer) ?h = Some first_vertex" "keyed (crypt demo_env) (server answering_peer)"
    "socket_map (client answering_peer) 42 = Some 7" "scan_buffer_thread_ready (server answering_peer)"
    "requests answering_peer = []" "s_socket (server answering_peer) = 4" "task_queue (pool answering_peer) = []"
    by (simp_all add: answering_peer_def keyed_def demo_env_def demo_server_def first_peer_sel Threadpool_def)
  have lv: "temp_request_list ?lv = []" "net ?lv 9 = request_msg ?h 42 @ []"
    by (simp_all add: demo_server_def)
  have e: "ev_events (demo_event n) AND EPOLLIN = EPOLLIN" "ev_fd (demo_event n) = 9" "ev_arrived (demo_event n) = Arrived n" for n
    by (simp_all add: demo_event_def)
  have arrives: "net (snd (demo_server (packet_of [first_vertex]))) 9 = packet_of [first_vertex] @ []" "s_socket (fst (demo_server [])) = 4"
    "?h \<notin> dom (vertex_map (fst (demo_server [])))" "admissible 3 first_vertex"
    by (simp_all add: demo_server_def admissible_def first_vertex_def Vertex_def)
  have "\<exists>lv1 lv2 p2 l2 q. act demo_env (Event (demo_event 73)) (Asleep, answering_peer, scan_init first_peer, ?lv) (Asleep, answering_peer, scan_init first_peer, lv1) \<and>
      net lv1 (ev_fd (demo_event 73)) = [] \<and> act demo_env Hand (Asleep, answering_peer, scan_init first_peer, lv1) (Asleep, p2, scan_init first_peer, lv2) \<and>
      process_requests (p2, scan_init first_peer) = Inr (q, l2) \<and> requests q = [] \<and>
      task_queue (pool q) = task_queue (pool answering_peer) @
        map (\<lambda>(pid, w). Sendn (socket_of answering_peer pid) (packet_of [w])) (requests answering_peer) @ Sendn 7 (packet_of [first_vertex]) #
        map (\<lambda>(pid, w). Sendn (socket_of answering_peer pid) (packet_of [w])) (temp_request_list ?lv)"
    using p lv e arrives
    by (intro conjunct1 [OF request_is_answered [OF h p(1,2) first_vertex_good p(3,4),
        where n = 73 and e' = "demo_event 32" and n' = 32 and s' = "fst (demo_server [])" and
          l' = "snd (demo_server (packet_of [first_vertex]))" and rest' = "[]" and maj = 3]]) simp_all
  then show ?thesis unfolding p(5,7) lv(1) list.map append_Nil by blast
qed

section \<open>From the DAGs to the verdict\<close>

text \<open>
  The children of the parent process: the environment and the final state of each. Their texts
  must not collide under the hash function; this is what the comparison of hashes takes for
  granted.
\<close>

definition comparable :: "crypto \<Rightarrow> (env \<times> peer) list \<Rightarrow> bool" where
  "comparable C ps \<longleftrightarrow>
     (\<forall>(E, p) \<in> set ps. crypt E = C \<and> iter_ok (iter E) \<and> dag_ok p) \<and>
     inj_on (hash_256 C) (\<Union>(E, p) \<in> set ps. round_text ` set (dag_image p)) \<and>
     inj_on (hash_256 C) ((\<lambda>(E, p). dag_text C p) ` set ps)"

lemma comparable_iff:
  assumes "crypto_ok C" and "comparable C ps" and "(E, p) \<in> set ps" and "(E', q) \<in> set ps"
  shows "child_output E False p = child_output E' False q \<longleftrightarrow> settled p = settled q"
proof -
  have "crypt E = C" "crypt E' = C" "iter_ok (iter E)" "iter_ok (iter E')" "dag_ok p" "dag_ok q"
    using assms(2-4) by (auto simp: comparable_def)
  moreover have "inj_on (hash_256 C) (round_text ` (set (dag_image p) \<union> set (dag_image q)))"
    using assms(3,4) by (intro inj_on_subset [OF assms(2) [unfolded comparable_def, THEN conjunct2, THEN conjunct1]]) force
  moreover have "inj_on (hash_256 C) {dag_text C p, dag_text C q}"
    using assms(3,4) by (intro inj_on_subset [OF assms(2) [unfolded comparable_def, THEN conjunct2, THEN conjunct2]]) force
  ultimately show ?thesis
    using hash_dag_iff [of E E' p q] assms(1) by (simp add: child_output_def)
qed

text \<open>
  C24. The program's purpose, end to end: when every child has ended well and has written the hash
  of its DAG, the parent reports that all peers think of the same DAG exactly if the DAGs of all
  children are equal in every round but the last twelve. The order in which they write and end
  does not matter.
\<close>

theorem parent_detects_divergence:
  assumes "crypto_ok C" and "comparable C ps" and "list_all2 (\<lambda>(E, p) h. child_output E False p = Inr h) ps hs"
    and "ps \<noteq> []" and "length waits = length ps" and "length waits < 2 ^ 63"
  shows "verdict waits (concat hs) =
    Inr (\<forall>p \<in> snd ` set ps. \<forall>q \<in> snd ` set ps. settled p = settled q)"
proof -
  have len: "length hs = length ps" using assms(3) by (simp add: list_all2_lengthD)
  have out: "child_output (fst (ps ! i)) False (snd (ps ! i)) = Inr (hs ! i)" if "i < length ps" for i
    using list_all2_nthD [OF assms(3) that] by (simp add: split_def)
  have mem: "(fst (ps ! i), snd (ps ! i)) \<in> set ps" if "i < length ps" for i using that by simp
  have "hash_text (hs ! i)" if "i < length ps" for i
  proof (rule child_output_text [OF assms(1) _ out [OF that]])
    show "crypt (fst (ps ! i)) = C" using mem [OF that] assms(2) unfolding comparable_def by blast
  qed
  then have "\<forall>h \<in> set hs. hash_text h" using len by (simp add: all_set_conv_all_nth)
  then have "verdict waits (concat hs) = Inr (\<forall>a \<in> set hs. \<forall>b \<in> set hs. a = b)"
    using len assms(4-6) by (intro verdict_hashes) auto
  also have "(\<forall>a \<in> set hs. \<forall>b \<in> set hs. a = b) \<longleftrightarrow> (\<forall>i < length ps. \<forall>j < length ps. hs ! i = hs ! j)"
    using len by (simp add: all_set_conv_all_nth)
  also have "\<dots> \<longleftrightarrow> (\<forall>i < length ps. \<forall>j < length ps. settled (snd (ps ! i)) = settled (snd (ps ! j)))"
  proof -
    have "hs ! i = hs ! j \<longleftrightarrow> settled (snd (ps ! i)) = settled (snd (ps ! j))"
      if "i < length ps" "j < length ps" for i j
      using comparable_iff [OF assms(1,2) mem [OF that(1)] mem [OF that(2)]] out [OF that(1)] out [OF that(2)] by simp
    then show ?thesis by blast
  qed
  also have "\<dots> \<longleftrightarrow> (\<forall>p \<in> snd ` set ps. \<forall>q \<in> snd ` set ps. settled p = settled q)"
    by (simp add: all_set_conv_all_nth)
  finally show ?thesis .
qed

theorem parent_detects_divergence_witness:
  "\<exists>h g. verdict [(101, 0), (100, 0)] (h @ g) = Inr False"
proof -
  let ?a = "replicate 64 CHR ''A''"
  let ?p = "demo_peer\<lparr>dag_image := {} # replicate 12 {}\<rparr>" and ?q = "demo_peer\<lparr>dag_image := {?a} # replicate 12 {}\<rparr>"
  have C: "crypt demo_env = demo_crypto" and it: "iter_ok (iter demo_env)"
    by (simp_all add: demo_env_def iter_ok_sorted)
  have ok: "dag_ok ?p" "dag_ok ?q" by (simp_all add: dag_ok_def HEX_HASH_def)
  have rt: "round_text {} = []" "round_text {?a} = ?a" by (simp_all add: round_text_def)
  have settled: "settled ?p = [{}]" "settled ?q = [{?a}]" by (simp_all add: settled_def)
  have h: "hash_256 demo_crypto [] \<noteq> hash_256 demo_crypto ?a" by code_simp
  have hh: "hash_256 demo_crypto (hash_256 demo_crypto []) \<noteq> hash_256 demo_crypto (hash_256 demo_crypto ?a)"
    by code_simp
  have comparable: "comparable demo_crypto [(demo_env, ?p), (demo_env, ?q)]"
    using h hh C it ok by (auto simp: comparable_def inj_on_def rt dag_text_def settled)
  obtain a b where "child_output demo_env False ?p = Inr a" "child_output demo_env False ?q = Inr b"
    using hash_dag_eq [OF it, of ?p] hash_dag_eq [OF it, of ?q] by (simp add: child_output_def)
  then show ?thesis
    using parent_detects_divergence [OF crypto_ok_demo comparable, of "[a, b]" "[(101, 0), (100, 0)]"]
    by (auto simp: settled)
qed

end
